(* ===== verification/Prelude.thy ===== *)
theory Prelude
  imports Main "HOL-Library.Word" "HOL-Library.Sublist"
begin

text \<open>
  Shared vocabulary of the development: the machine integers of the Rust code, the
  little- and big-endian byte layouts of \<^verbatim>\<open>to_le_bytes\<close>/\<^verbatim>\<open>to_be_bytes\<close> and their inverses,
  the error values of \<^verbatim>\<open>std::io\<close>, the result of a poll, and the generic lemmas on lists,
  options and words that the component theories use.
\<close>

unbundle bit_operations_syntax

named_theorems codec_simps \<open>equations that evaluate encoders and decoders\<close>
named_theorems inv_simps \<open>definitions of component invariants\<close>

section \<open>Machine integers and byte strings\<close>

type_synonym u8 = "8 word"
type_synonym u16 = "16 word"
type_synonym u32 = "32 word"
type_synonym u64 = "64 word"
type_synonym bytes = "u8 list"

text \<open>\<^verbatim>\<open>n as i64\<close> for a \<^verbatim>\<open>usize\<close> on a 64-bit target reinterprets the bits.\<close>

definition usize_as_i64 :: "nat \<Rightarrow> int" where
  "usize_as_i64 n = sint (word_of_nat n :: 64 word)"

text \<open>\<^verbatim>\<open>n as u16\<close> truncates.\<close>

definition usize_as_u16 :: "nat \<Rightarrow> u16" where
  "usize_as_u16 n = word_of_nat n"

lemma usize_as_i64_small: "n < 2 ^ 63 \<Longrightarrow> usize_as_i64 n = int n"
  by (simp add: usize_as_i64_def signed_of_nat signed_take_bit_int_eq_self)

lemma unat_usize_as_u16: "n < 2 ^ 16 \<Longrightarrow> unat (usize_as_u16 n) = n"
  by (simp add: usize_as_u16_def unat_of_nat take_bit_eq_mod)

section \<open>Endian layouts\<close>

definition u16_to_le :: "u16 \<Rightarrow> bytes" where
  "u16_to_le w = [ucast w, ucast (drop_bit 8 w)]"

definition u16_from_le :: "u8 \<Rightarrow> u8 \<Rightarrow> u16" where
  "u16_from_le a b = ucast a OR push_bit 8 (ucast b)"

definition u32_to_le :: "u32 \<Rightarrow> bytes" where
  "u32_to_le w = [ucast w, ucast (drop_bit 8 w), ucast (drop_bit 16 w), ucast (drop_bit 24 w)]"

definition u32_from_le :: "u8 \<Rightarrow> u8 \<Rightarrow> u8 \<Rightarrow> u8 \<Rightarrow> u32" where
  "u32_from_le a b c d =
     ucast a OR push_bit 8 (ucast b) OR push_bit 16 (ucast c) OR push_bit 24 (ucast d)"

lemma length_u16_to_le [simp]: "length (u16_to_le w) = 2"
  by (simp add: u16_to_le_def)

lemma length_u32_to_le [simp]: "length (u32_to_le w) = 4"
  by (simp add: u32_to_le_def)

lemma u16_le_roundtrip [simp]: "u16_from_le (ucast w) (ucast (drop_bit 8 w)) = w"
  unfolding u16_from_le_def
  by (rule bit_word_eqI) (auto simp: bit_simps)

lemma u32_le_roundtrip [simp]:
  "u32_from_le (ucast w) (ucast (drop_bit 8 w)) (ucast (drop_bit 16 w)) (ucast (drop_bit 24 w)) = w"
proof (rule bit_word_eqI)
  fix n assume "n < LENGTH(32)"
  then consider "n < 8" | "8 \<le> n" "n < 16" | "16 \<le> n" "n < 24" | "24 \<le> n" "n < 32"
    by fastforce
  then show "bit (u32_from_le (ucast w) (ucast (drop_bit 8 w)) (ucast (drop_bit 16 w))
      (ucast (drop_bit 24 w))) n = bit w n"
    by cases (auto simp: u32_from_le_def bit_simps)
qed

lemma bit_u8_beyond [simp]: "8 \<le> n \<Longrightarrow> \<not> bit (a :: u8) n"
  by (auto dest: bit_imp_le_length)

lemma u16_le_inverse [simp]:
  "u16_to_le (u16_from_le a b) = [a, b]"
  unfolding u16_from_le_def u16_to_le_def
  by (auto intro!: bit_word_eqI simp: bit_simps)

lemma u32_le_inverse [simp]:
  "u32_to_le (u32_from_le a b c d) = [a, b, c, d]"
  unfolding u32_from_le_def u32_to_le_def
  by (auto intro!: bit_word_eqI simp: bit_simps)

section \<open>Errors and poll results\<close>

text \<open>\<^verbatim>\<open>std::io::ErrorKind\<close>, the kinds the modelled code creates or passes on.\<close>

datatype error_kind =
    BrokenPipe | InvalidInput | InvalidData | Unsupported | TimedOut
  | UnexpectedEof | NotFound | WriteZero | Other

text \<open>\<^verbatim>\<open>std::io::Error\<close>: its kind and its message.\<close>

datatype io_error = IoError (err_kind: error_kind) (err_msg: string)

text \<open>\<^verbatim>\<open>std::task::Poll\<close>.\<close>

datatype 'a poll = Pending | Ready 'a

text \<open>\<^verbatim>\<open>std::task::Waker\<close>: two wakers of the same task compare equal (\<^verbatim>\<open>will_wake\<close>).\<close>

type_synonym waker = nat

section \<open>Generic list lemmas\<close>

lemma sum_list_map_nat_append [simp]:
  "sum_list (map f (xs @ ys)) = sum_list (map f xs) + (sum_list (map f ys) :: nat)"
  by simp

lemma take_drop_append_exact [simp]:
  "length xs = n \<Longrightarrow> take n (xs @ ys) = xs"
  "length xs = n \<Longrightarrow> drop n (xs @ ys) = ys"
  by simp_all

lemma prefix_append_drop: "prefix p s \<Longrightarrow> s = p @ drop (length p) s"
  by (auto simp: prefix_def)

lemma suffix_append_take: "suffix p s \<Longrightarrow> s = take (length s - length p) s @ p"
  by (auto simp: suffix_def)

lemma list_all_takeWhile: "list_all P (takeWhile P xs)"
  by (induction xs) auto

lemma rsplit_unique: "xs @ c # a = ys @ c # b \<Longrightarrow> c \<notin> set a \<Longrightarrow> c \<notin> set b \<Longrightarrow> xs = ys \<and> a = b"
  by (auto simp: append_eq_append_conv2 append_eq_Cons_conv Cons_eq_append_conv)

end
