(* ===== verification/RustStr.thy ===== *)
theory RustStr
  imports Prelude
begin

text \<open>
  The parts of Rust's \<^verbatim>\<open>str\<close>, \<^verbatim>\<open>FromStr\<close>, \<^verbatim>\<open>Display\<close> and \<^verbatim>\<open>BufRead::lines\<close> that the modelled
  code uses. A \<^verbatim>\<open>str\<close> is the list of its UTF-8 bytes (a HOL \<open>char\<close> is a byte), so lengths
  and indices are byte counts as in Rust, and searching for an ASCII character or for a
  substring on bytes is the same as searching on code points. \<^verbatim>\<open>trim\<close> knows the UTF-8
  encodings of the Unicode white space.
\<close>

section \<open>Searching\<close>

fun find_pred :: "('a \<Rightarrow> bool) \<Rightarrow> 'a list \<Rightarrow> nat option" where
  "find_pred P [] = None"
| "find_pred P (x # xs) = (if P x then Some 0 else map_option Suc (find_pred P xs))"

abbreviation find_char :: "char \<Rightarrow> string \<Rightarrow> nat option" where
  "find_char c \<equiv> find_pred (\<lambda>x. x = c)"

definition rfind_char :: "char \<Rightarrow> string \<Rightarrow> nat option" where
  "rfind_char c s = map_option (\<lambda>i. length s - Suc i) (find_char c (rev s))"

fun str_find :: "string \<Rightarrow> string \<Rightarrow> nat option" where
  "str_find p [] = (if p = [] then Some 0 else None)"
| "str_find p (c # s) = (if prefix p (c # s) then Some 0 else map_option Suc (str_find p s))"

fun split_pred :: "('a \<Rightarrow> bool) \<Rightarrow> 'a list \<Rightarrow> 'a list list" where
  "split_pred P [] = [[]]"
| "split_pred P (x # xs) =
     (if P x then [] # split_pred P xs
      else (case split_pred P xs of [] \<Rightarrow> [[x]] | p # ps \<Rightarrow> (x # p) # ps))"

abbreviation split_char :: "char \<Rightarrow> string \<Rightarrow> string list" where
  "split_char c \<equiv> split_pred (\<lambda>x. x = c)"

definition split_once :: "char \<Rightarrow> string \<Rightarrow> (string \<times> string) option" where
  "split_once c s = map_option (\<lambda>i. (take i s, drop (Suc i) s)) (find_char c s)"

fun strip_prefix_char :: "char \<Rightarrow> string \<Rightarrow> string option" where
  "strip_prefix_char c [] = None"
| "strip_prefix_char c (x # xs) = (if x = c then Some xs else None)"

lemma find_pred_None [simp]: "find_pred P s = None \<longleftrightarrow> (\<forall>x \<in> set s. \<not> P x)"
  by (induction s) auto

lemma find_pred_append:
  "\<forall>x \<in> set u. \<not> P x \<Longrightarrow> P x \<Longrightarrow> find_pred P (u @ x # v) = Some (length u)"
  by (induction u) auto

lemma find_char_append: "c \<notin> set u \<Longrightarrow> find_char c (u @ c # v) = Some (length u)"
  by (rule find_pred_append) auto

lemma find_pred_SomeE:
  assumes "find_pred P s = Some i"
  obtains u x v where "s = u @ x # v" "length u = i" "P x" "\<forall>y \<in> set u. \<not> P y"
  using assms
proof (induction s arbitrary: i thesis)
  case (Cons a s)
  show ?case
  proof (cases "P a")
    case True
    with Cons.prems show ?thesis by (metis append_Nil empty_iff empty_set find_pred.simps(2)
          list.size(3) option.inject)
  next
    case False
    with Cons.prems obtain j where j: "find_pred P s = Some j" "i = Suc j" by auto
    then obtain u x v where "s = u @ x # v" "length u = j" "P x" "\<forall>y \<in> set u. \<not> P y"
      using Cons.IH by metis
    with False j show ?thesis by (intro Cons.prems(1) [of "a # u" x v]) auto
  qed
qed simp

lemma rfind_char_None [simp]: "rfind_char c s = None \<longleftrightarrow> c \<notin> set s"
  by (auto simp: rfind_char_def)

lemma rfind_char_append: "c \<notin> set v \<Longrightarrow> rfind_char c (u @ c # v) = Some (length u)"
  by (simp add: rfind_char_def find_char_append)

lemma rfind_char_SomeE:
  assumes "rfind_char c s = Some i"
  obtains u v where "s = u @ c # v" "length u = i" "c \<notin> set v"
proof -
  from assms obtain j where j: "find_char c (rev s) = Some j" and i: "i = length s - Suc j"
    by (auto simp: rfind_char_def)
  from j obtain a b where ab: "rev s = a @ c # b" "length a = j" "\<forall>y \<in> set a. y \<noteq> c"
    by (elim find_pred_SomeE) auto
  then have "s = rev b @ c # rev a" by (metis append.assoc append_Cons append_Nil rev.simps(2)
        rev_append rev_rev_ident)
  then show ?thesis using ab i by (intro that [of "rev b" "rev a"]) auto
qed

lemma split_pred_ne [simp]: "split_pred P s \<noteq> []"
  by (induction s) (auto split: list.splits)

lemma split_pred_no_match [simp]: "\<forall>x \<in> set s. \<not> P x \<Longrightarrow> split_pred P s = [s]"
  by (induction s) auto

lemma split_char_no_match [simp]: "c \<notin> set s \<Longrightarrow> split_char c s = [s]"
  by (rule split_pred_no_match) auto

lemma split_pred_append:
  "P x \<Longrightarrow> split_pred P (u @ x # v) = split_pred P u @ split_pred P v"
  by (induction u) (auto split: list.splits)

lemma split_pred_piece: "\<lbrakk>p \<in> set (split_pred P s); x \<in> set p\<rbrakk> \<Longrightarrow> \<not> P x"
  by (induction s arbitrary: p) (auto split: list.splits if_splits, blast)

lemma str_find_Nil [simp]: "str_find [] s = Some 0"
  by (cases s) auto

lemma str_find_SomeE:
  assumes "str_find p s = Some i"
  obtains u v where "s = u @ p @ v" "length u = i"
  using assms
proof (induction s arbitrary: i thesis)
  case Nil
  then show ?case by (auto split: if_splits)
next
  case (Cons c s)
  show ?case
  proof (cases "prefix p (c # s)")
    case True
    then obtain v where "c # s = [] @ p @ v" by (auto simp: prefix_def)
    with True Cons.prems show ?thesis by (metis list.size(3) option.inject str_find.simps(2))
  next
    case False
    with Cons.prems obtain j where "str_find p s = Some j" "i = Suc j" by auto
    moreover then obtain u v where "s = u @ p @ v" "length u = j" using Cons.IH by metis
    ultimately show ?thesis by (intro Cons.prems(1) [of "c # u" v]) auto
  qed
qed

text \<open>The first occurrence: any other occurrence leaves a suffix of what \<open>str_find\<close> leaves.\<close>

lemma str_find_first:
  assumes "s = u @ p @ v"
  obtains i w where "str_find p s = Some i" "drop (i + length p) s = w @ v"
  using assms
proof (induction s arbitrary: u thesis)
  case Nil
  then show ?case by simp
next
  case (Cons c s)
  show ?case
  proof (cases "prefix p (c # s)")
    case True
    then have "str_find p (c # s) = Some 0" by simp
    moreover have "drop (0 + length p) (c # s) = take (length u) (drop (length p) (c # s)) @ v"
    proof -
      have "drop (length u) (drop (length p) (c # s)) = v"
        using Cons.prems(2) by (simp add: add.commute)
      then show ?thesis by (metis add_0 append_take_drop_id)
    qed
    ultimately show ?thesis by (rule Cons.prems(1))
  next
    case False
    with Cons.prems(2) obtain u' where u: "u = c # u'" "s = u' @ p @ v"
      by (cases u) (auto simp: prefix_def)
    then obtain i w where "str_find p s = Some i" "drop (i + length p) s = w @ v"
      using Cons.IH by metis
    with False show ?thesis by (intro Cons.prems(1) [of "Suc i" w]) auto
  qed
qed

lemma str_find_zero: "str_find p s = Some 0 \<longleftrightarrow> prefix p s"
  by (cases s) (auto simp: prefix_def)

lemma split_once_None: "split_once c s = None \<longleftrightarrow> c \<notin> set s"
  by (auto simp: split_once_def)

lemma split_once_append [simp]: "c \<notin> set u \<Longrightarrow> split_once c (u @ c # v) = Some (u, v)"
  by (simp add: split_once_def find_char_append)

lemma split_once_SomeD: "split_once c s = Some (u, v) \<Longrightarrow> s = u @ c # v \<and> c \<notin> set u"
proof -
  assume "split_once c s = Some (u, v)"
  then obtain i where i: "find_char c s = Some i" "u = take i s" "v = drop (Suc i) s"
    by (auto simp: split_once_def)
  from i(1) obtain a b where "s = a @ c # b" "length a = i" "c \<notin> set a"
    by (elim find_pred_SomeE) auto
  with i show ?thesis by simp
qed

section \<open>White space\<close>

text \<open>The UTF-8 encodings of the code points for which \<^verbatim>\<open>char::is_whitespace\<close> holds.\<close>

definition ws_enc :: "string list" where
  "ws_enc =
    [[CHR 0x09], [CHR 0x0A], [CHR 0x0B], [CHR 0x0C], [CHR 0x0D], [CHR 0x20],
     [CHR 0xC2, CHR 0x85], [CHR 0xC2, CHR 0xA0], [CHR 0xE1, CHR 0x9A, CHR 0x80],
     [CHR 0xE2, CHR 0x80, CHR 0x80], [CHR 0xE2, CHR 0x80, CHR 0x81],
     [CHR 0xE2, CHR 0x80, CHR 0x82], [CHR 0xE2, CHR 0x80, CHR 0x83],
     [CHR 0xE2, CHR 0x80, CHR 0x84], [CHR 0xE2, CHR 0x80, CHR 0x85],
     [CHR 0xE2, CHR 0x80, CHR 0x86], [CHR 0xE2, CHR 0x80, CHR 0x87],
     [CHR 0xE2, CHR 0x80, CHR 0x88], [CHR 0xE2, CHR 0x80, CHR 0x89],
     [CHR 0xE2, CHR 0x80, CHR 0x8A], [CHR 0xE2, CHR 0x80, CHR 0xA8],
     [CHR 0xE2, CHR 0x80, CHR 0xA9], [CHR 0xE2, CHR 0x80, CHR 0xAF],
     [CHR 0xE2, CHR 0x81, CHR 0x9F], [CHR 0xE3, CHR 0x80, CHR 0x80]]"

function trim_with :: "string list \<Rightarrow> string \<Rightarrow> string" where
  "trim_with E s =
     (case find (\<lambda>w. w \<noteq> [] \<and> prefix w s) E of
        None \<Rightarrow> s
      | Some w \<Rightarrow> trim_with E (drop (length w) s))"
  by pat_completeness auto
termination
proof (relation "measure (length \<circ> snd)", simp)
  fix E s w assume "find (\<lambda>w. w \<noteq> [] \<and> prefix w s) E = Some w"
  then have "w \<noteq> []" "prefix w s" by (auto simp: find_Some_iff)
  then have "0 < length w" "length w \<le> length s" by (auto dest: prefix_length_le)
  then have "length s - length w < length s" by linarith
  then show "((E, drop (length w) s), E, s) \<in> measure (length \<circ> snd)" by simp
qed

declare trim_with.simps [simp del]

definition trim_start :: "string \<Rightarrow> string" where
  "trim_start = trim_with ws_enc"

definition trim_end :: "string \<Rightarrow> string" where
  "trim_end s = rev (trim_with (map rev ws_enc) (rev s))"

definition trim :: "string \<Rightarrow> string" where
  "trim s = trim_end (trim_start s)"

text \<open>\<^verbatim>\<open>str::trim_matches\<close> with a single character.\<close>

definition trim_matches :: "char \<Rightarrow> string \<Rightarrow> string" where
  "trim_matches c s = rev (dropWhile (\<lambda>x. x = c) (rev (dropWhile (\<lambda>x. x = c) s)))"

text \<open>Printable ASCII other than the space: the characters tokens of the config files use.\<close>

definition graphic :: "char \<Rightarrow> bool" where
  "graphic c \<longleftrightarrow> 33 \<le> (of_char c :: nat) \<and> (of_char c :: nat) \<le> 126"

lemma trim_with_id:
  assumes "\<And>w. w \<in> set E \<Longrightarrow> w \<noteq> [] \<Longrightarrow> s \<noteq> [] \<Longrightarrow> hd w \<noteq> hd s"
  shows "trim_with E s = s"
proof -
  have "\<not> (w \<noteq> [] \<and> prefix w s)" if "w \<in> set E" for w
    using assms [OF that] by (auto simp: prefix_def)
  then have "find (\<lambda>w. w \<noteq> [] \<and> prefix w s) E = None" by (auto simp: find_None_iff)
  then show ?thesis by (simp add: trim_with.simps)
qed

lemma graphic_not_ws_hd: "graphic c \<Longrightarrow> w \<in> set ws_enc \<Longrightarrow> hd w \<noteq> c \<and> hd (rev w) \<noteq> c"
  by (auto simp: ws_enc_def graphic_def)

lemma trim_ends_graphic:
  assumes "s \<noteq> []" "graphic (hd s)" "graphic (last s)"
  shows "trim s = s"
proof -
  have a: "trim_start s = s" unfolding trim_start_def
    by (rule trim_with_id) (use assms(2) graphic_not_ws_hd in blast)
  have "trim_with (map rev ws_enc) (rev s) = rev s"
    by (rule trim_with_id) (use assms graphic_not_ws_hd in \<open>auto simp: hd_rev\<close>)
  with a show ?thesis by (simp add: trim_def trim_end_def)
qed

lemma trim_Nil [simp]: "trim [] = []"
proof -
  have "trim_with E [] = []" for E by (rule trim_with_id) simp
  then show ?thesis by (simp add: trim_def trim_end_def trim_start_def)
qed

lemma trim_graphic [simp]: "list_all graphic s \<Longrightarrow> trim s = s"
  by (cases "s = []") (auto intro!: trim_ends_graphic simp: list_all_iff)

section \<open>Numbers\<close>

definition digit_val :: "char \<Rightarrow> nat option" where
  "digit_val c = (let n = (of_char c :: nat) in if 48 \<le> n \<and> n \<le> 57 then Some (n - 48) else None)"

fun digits_val :: "nat \<Rightarrow> string \<Rightarrow> nat option" where
  "digits_val acc [] = Some acc"
| "digits_val acc (c # cs) =
     (case digit_val c of None \<Rightarrow> None | Some d \<Rightarrow> digits_val (10 * acc + d) cs)"

text \<open>
  \<^verbatim>\<open>from_str\<close> of an unsigned type with largest value \<open>mx\<close>: an optional plus sign and at
  least one digit; a minus sign is a bad digit.
\<close>

definition parse_uint :: "nat \<Rightarrow> string \<Rightarrow> nat option" where
  "parse_uint mx s =
     (let t = (case s of [] \<Rightarrow> [] | c # r \<Rightarrow> if c = CHR ''+'' then r else s)
      in if t = [] then None
         else case digits_val 0 t of
                None \<Rightarrow> None
              | Some n \<Rightarrow> if n \<le> mx then Some n else None)"

abbreviation parse_u16 :: "string \<Rightarrow> nat option" where
  "parse_u16 \<equiv> parse_uint 65535"

abbreviation parse_u64 :: "string \<Rightarrow> nat option" where
  "parse_u64 \<equiv> parse_uint 18446744073709551615"

definition parse_i64 :: "string \<Rightarrow> int option" where
  "parse_i64 s =
     (case s of
        [] \<Rightarrow> None
      | c # r \<Rightarrow>
          if c = CHR ''-''
          then (if r = [] then None
                else case digits_val 0 r of
                       None \<Rightarrow> None
                     | Some n \<Rightarrow> if n \<le> 9223372036854775808 then Some (- int n) else None)
          else map_option int (parse_uint 9223372036854775807 s))"

definition digit_char :: "nat \<Rightarrow> char" where
  "digit_char d = ''0123456789'' ! d"

fun show_nat :: "nat \<Rightarrow> string" where
  "show_nat n = (if n < 10 then [digit_char n] else show_nat (n div 10) @ [digit_char (n mod 10)])"

declare show_nat.simps [simp del]

definition show_int :: "int \<Rightarrow> string" where
  "show_int i = (if i < 0 then CHR ''-'' # show_nat (nat (- i)) else show_nat (nat i))"

lemma digit_char_code: "d < 10 \<Longrightarrow> (of_char (digit_char d) :: nat) = 48 + d"
proof -
  assume "d < 10"
  then have "d = 0 \<or> d = 1 \<or> d = 2 \<or> d = 3 \<or> d = 4 \<or> d = 5 \<or> d = 6 \<or> d = 7 \<or> d = 8 \<or> d = 9" by arith
  then show ?thesis by (elim disjE) (simp_all add: digit_char_def)
qed

lemma digit_val_digit_char [simp]: "d < 10 \<Longrightarrow> digit_val (digit_char d) = Some d"
  by (simp add: digit_val_def digit_char_code)

lemma digit_char_range: "d < 10 \<Longrightarrow> 48 \<le> (of_char (digit_char d) :: nat) \<and> (of_char (digit_char d) :: nat) \<le> 57"
  by (simp add: digit_char_code)

lemma digits_val_snoc:
  "digits_val acc (s @ [c]) =
     (case digits_val acc s of None \<Rightarrow> None | Some n \<Rightarrow> map_option (\<lambda>d. 10 * n + d) (digit_val c))"
  by (induction acc s rule: digits_val.induct) (auto split: option.splits)

lemma digits_val_show_nat [simp]: "digits_val 0 (show_nat n) = Some n"
proof (induction n rule: show_nat.induct)
  case (1 n)
  then show ?case
    by (cases "n < 10") (simp_all add: show_nat.simps [of n] digits_val_snoc)
qed

lemma show_nat_ne [simp]: "show_nat n \<noteq> []"
  by (subst show_nat.simps) simp

lemma show_nat_chars: "c \<in> set (show_nat n) \<Longrightarrow> 48 \<le> (of_char c :: nat) \<and> (of_char c :: nat) \<le> 57"
proof (induction n rule: show_nat.induct)
  case (1 n)
  show ?case
  proof (cases "n < 10")
    case True
    with 1 show ?thesis using digit_char_range by (simp add: show_nat.simps [of n])
  next
    case False
    with 1 show ?thesis using digit_char_range [of "n mod 10"] by (auto simp: show_nat.simps [of n])
  qed
qed

lemma show_nat_not_mem:
  "\<not> (48 \<le> (of_char c :: nat) \<and> (of_char c :: nat) \<le> 57) \<Longrightarrow> c \<notin> set (show_nat n)"
  using show_nat_chars by blast

lemma show_nat_graphic: "list_all graphic (show_nat n)"
  by (auto simp: list_all_iff graphic_def dest: show_nat_chars)

lemma show_nat_hd:
  "\<not> (48 \<le> (of_char c :: nat) \<and> (of_char c :: nat) \<le> 57) \<Longrightarrow> hd (show_nat n) \<noteq> c"
  by (metis list.set_sel(1) show_nat_ne show_nat_not_mem)

lemma parse_uint_show_nat [simp]: "parse_uint mx (show_nat n) = (if n \<le> mx then Some n else None)"
  using show_nat_hd [of "CHR ''+''" n] digits_val_show_nat [of n] show_nat_ne [of n]
  by (cases "show_nat n") (simp_all add: parse_uint_def del: digits_val.simps digits_val_show_nat)

lemma parse_i64_show_int:
  "- 9223372036854775808 \<le> i \<Longrightarrow> i \<le> 9223372036854775807 \<Longrightarrow> parse_i64 (show_int i) = Some i"
proof -
  assume i: "- 9223372036854775808 \<le> i" "i \<le> 9223372036854775807"
  obtain c r where cr: "show_nat (nat i) = c # r" by (cases "show_nat (nat i)") auto
  then have "c \<noteq> CHR ''-''" using show_nat_hd [of "CHR ''-''" "nat i"] by simp
  moreover have "parse_uint 9223372036854775807 (c # r) = Some (nat i)"
    using i parse_uint_show_nat [of 9223372036854775807 "nat i"] cr by (simp add: nat_le_iff)
  ultimately show ?thesis using i cr by (auto simp: parse_i64_def show_int_def nat_le_iff)
qed

lemma parse_uint_bound: "parse_uint mx s = Some n \<Longrightarrow> n \<le> mx"
  by (auto simp: parse_uint_def Let_def split: option.splits if_splits)

lemma parse_i64_bounds:
  "parse_i64 s = Some i \<Longrightarrow> - 9223372036854775808 \<le> i \<and> i \<le> 9223372036854775807"
  by (auto simp: parse_i64_def split: list.splits option.splits if_splits dest: parse_uint_bound)

lemma parse_i64_nonneg: "parse_i64 s = Some i \<Longrightarrow> CHR ''-'' \<notin> set s \<Longrightarrow> 0 \<le> i"
  by (auto simp: parse_i64_def split: list.splits option.splits if_splits)

section \<open>UTF-8 validation and line reading\<close>

definition cont_byte :: "char \<Rightarrow> bool" where
  "cont_byte c = (let n = (of_char c :: nat) in 128 \<le> n \<and> n \<le> 191)"

definition byte_in :: "nat \<Rightarrow> nat \<Rightarrow> char \<Rightarrow> bool" where
  "byte_in lo hi c = (let n = (of_char c :: nat) in lo \<le> n \<and> n \<le> hi)"

text \<open>\<^verbatim>\<open>std::str::from_utf8\<close>: no overlong forms, no surrogates, nothing above U+10FFFF.\<close>

fun utf8_valid :: "string \<Rightarrow> bool" where
  "utf8_valid [] = True"
| "utf8_valid (a # s) =
     (if byte_in 0 127 a then utf8_valid s
      else if byte_in 194 223 a then
        (case s of b # t \<Rightarrow> cont_byte b \<and> utf8_valid t | _ \<Rightarrow> False)
      else if byte_in 224 239 a then
        (case s of
           b # c # t \<Rightarrow>
             byte_in (if of_char a = (224::nat) then 160 else 128)
                     (if of_char a = (237::nat) then 159 else 191) b
             \<and> cont_byte c \<and> utf8_valid t
         | _ \<Rightarrow> False)
      else if byte_in 240 244 a then
        (case s of
           b # c # d # t \<Rightarrow>
             byte_in (if of_char a = (240::nat) then 144 else 128)
                     (if of_char a = (244::nat) then 143 else 191) b
             \<and> cont_byte c \<and> cont_byte d \<and> utf8_valid t
         | _ \<Rightarrow> False)
      else False)"

text \<open>
  An \<^verbatim>\<open>io::Read\<close>: the bytes it yields and, when reading fails after them, the error
  (\<open>None\<close> is a clean end of file).
\<close>

record reader =
  rd_content :: string
  rd_error :: "io_error option"

definition utf8_line :: "string \<Rightarrow> io_error + string" where
  "utf8_line l = (if utf8_valid l then Inr l
     else Inl (IoError InvalidData ''stream did not contain valid UTF-8''))"

definition strip_cr :: "string \<Rightarrow> string" where
  "strip_cr l = (if l \<noteq> [] \<and> last l = CHR 0x0D then butlast l else l)"

text \<open>
  \<^verbatim>\<open>BufRead::lines\<close>: the items the iterator yields. A terminated line loses its newline
  and one carriage return before it; an unterminated last line is kept as it is; a read
  error replaces the unterminated rest.
\<close>

definition buf_lines :: "reader \<Rightarrow> (io_error + string) list" where
  "buf_lines r =
     (let parts = split_char CHR 0x0A (rd_content r)
      in map (utf8_line \<circ> strip_cr) (butlast parts)
         @ (case rd_error r of
              Some e \<Rightarrow> [Inl e]
            | None \<Rightarrow> if last parts = [] then [] else [utf8_line (last parts)]))"

text \<open>
  The loop \<^verbatim>\<open>for line in buf.lines() { let line = line?; ... }\<close> over an accumulator: it
  stops at the first error.
\<close>

fun fold_lines :: "('a \<Rightarrow> string \<Rightarrow> 'a) \<Rightarrow> 'a \<Rightarrow> (io_error + string) list \<Rightarrow> io_error + 'a" where
  "fold_lines f a [] = Inr a"
| "fold_lines f a (Inl e # ls) = Inl e"
| "fold_lines f a (Inr l # ls) = fold_lines f (f a l) ls"

definition file_reader :: "string list \<Rightarrow> reader" where
  "file_reader ls = \<lparr>rd_content = concat (map (\<lambda>l. l @ [CHR 0x0A]) ls), rd_error = None\<rparr>"

definition plain_line :: "string \<Rightarrow> bool" where
  "plain_line l \<longleftrightarrow> CHR 0x0A \<notin> set l \<and> CHR 0x0D \<notin> set l \<and> utf8_valid l"

lemma split_lines_concat:
  "\<forall>l \<in> set ls. CHR 0x0A \<notin> set l \<Longrightarrow>
     split_char CHR 0x0A (concat (map (\<lambda>l. l @ [CHR 0x0A]) ls)) = ls @ [[]]"
  by (induction ls) (auto simp: split_pred_append)

lemma strip_cr_id: "CHR 0x0D \<notin> set l \<Longrightarrow> strip_cr l = l"
  unfolding strip_cr_def by (metis last_in_set)

lemma buf_lines_file:
  assumes "list_all plain_line ls"
  shows "buf_lines (file_reader ls) = map Inr ls"
proof -
  have "split_char CHR 0x0A (rd_content (file_reader ls)) = ls @ [[]]"
    using assms by (simp add: file_reader_def split_lines_concat list_all_iff plain_line_def)
  moreover have "(utf8_line \<circ> strip_cr) l = Inr l" if "l \<in> set ls" for l
    using assms that by (auto simp: list_all_iff plain_line_def utf8_line_def strip_cr_id)
  ultimately show ?thesis by (simp add: buf_lines_def file_reader_def)
qed

lemma fold_lines_Inr [simp]: "fold_lines f a (map Inr ls) = Inr (foldl f a ls)"
  by (induction ls arbitrary: a) auto

lemma fold_lines_error: "rd_error r = Some e \<Longrightarrow> \<exists>e'. fold_lines f a (buf_lines r) = Inl e'"
proof -
  have "\<exists>e'. fold_lines f a (ls @ [Inl e]) = Inl e'" for ls and e :: io_error and a
    by (induction f a ls rule: fold_lines.induct) auto
  then show "rd_error r = Some e \<Longrightarrow> ?thesis" by (simp add: buf_lines_def Let_def)
qed

end
