(* ===== verification/MuxFrame.thy ===== *)
theory MuxFrame
  imports RustStr
begin

text \<open>
  The smux frame codec and the session configuration of \<^verbatim>\<open>src/src/mux.rs\<close>: header and frame
  encoding, the decoder that takes one frame from the front of a buffer, and
  \<^verbatim>\<open>MuxConfig::verify\<close>. The interface of a self-delimiting codec is the locale
  \<open>stream_codec\<close>; it is interpreted on the frame codec.
\<close>

section \<open>Self-delimiting codecs\<close>

text \<open>
  What a peer relies on: decoding the encoding of a valid value in front of any further
  bytes gives the value and its exact length back, and a proper prefix of an encoding asks
  for more bytes instead of failing.
\<close>

locale stream_codec =
  fixes ok :: "'f \<Rightarrow> bool"
    and enc :: "'f \<Rightarrow> 'e + 'b list"
    and dec :: "'b list \<Rightarrow> 'e + ('f \<times> nat) option"
  assumes enc_ok: "ok f \<Longrightarrow> \<exists>bs. enc f = Inr bs \<and> bs \<noteq> []"
    and dec_enc: "ok f \<Longrightarrow> enc f = Inr bs \<Longrightarrow> dec (bs @ rest) = Inr (Some (f, length bs))"
    and dec_short: "ok f \<Longrightarrow> enc f = Inr bs \<Longrightarrow> strict_prefix p bs \<Longrightarrow> dec p = Inr None"
begin

lemma enc_prefix_free:
  assumes "ok f" "ok g" "enc f = Inr bs" "enc g = Inr cs" "bs @ r = cs @ t"
  shows "f = g \<and> r = t"
proof -
  have "dec (bs @ r) = Inr (Some (f, length bs))" "dec (cs @ t) = Inr (Some (g, length cs))"
    using assms dec_enc by blast+
  with assms(5) have "f = g" "length bs = length cs" by simp_all
  with assms(5) show ?thesis by simp
qed

text \<open>A sequence of encodings determines the sequence of values.\<close>

lemma enc_stream_inj:
  assumes "list_all ok fs" "list_all ok gs"
    and "concat (map (\<lambda>a. projr (enc a)) fs) = concat (map (\<lambda>a. projr (enc a)) gs)"
  shows "fs = gs"
  using assms
proof (induction fs arbitrary: gs)
  case Nil
  show ?case
  proof (cases gs)
    case (Cons g gs')
    then have "projr (enc g) = []" "ok g" using Nil by auto
    then show ?thesis using enc_ok by fastforce
  qed simp
next
  case (Cons f fs)
  obtain bs where bs: "enc f = Inr bs" "bs \<noteq> []" using Cons.prems enc_ok by fastforce
  obtain g gs' where gs: "gs = g # gs'" using Cons.prems bs by (cases gs) auto
  then obtain cs where cs: "enc g = Inr cs" using Cons.prems enc_ok by fastforce
  have "f = g \<and> concat (map (\<lambda>a. projr (enc a)) fs) = concat (map (\<lambda>a. projr (enc a)) gs')"
    using Cons.prems gs bs cs by (intro enc_prefix_free [of f g bs cs]) auto
  then show ?case using Cons.IH [of gs'] Cons.prems gs by auto
qed

end

section \<open>Wire constants\<close>

definition VERSION_1 :: u8 where "VERSION_1 = 1"
definition VERSION_2 :: u8 where "VERSION_2 = 2"
definition CMD_SYN :: u8 where "CMD_SYN = 0"
definition CMD_FIN :: u8 where "CMD_FIN = 1"
definition CMD_PSH :: u8 where "CMD_PSH = 2"
definition CMD_NOP :: u8 where "CMD_NOP = 3"
definition CMD_UPD :: u8 where "CMD_UPD = 4"
definition HEADER_SIZE :: nat where "HEADER_SIZE = 8"
definition UPD_SIZE :: nat where "UPD_SIZE = 8"
definition MAX_FRAME_SIZE :: nat where "MAX_FRAME_SIZE = 32768"
definition MAX_FRAME_DATA :: nat where "MAX_FRAME_DATA = 65535"
definition DEFAULT_ACCEPT_BACKLOG :: nat where "DEFAULT_ACCEPT_BACKLOG = 1024"

lemmas cmd_defs = CMD_SYN_def CMD_FIN_def CMD_PSH_def CMD_NOP_def CMD_UPD_def

lemma cmd_distinct [simp]:
  "CMD_SYN \<noteq> CMD_FIN" "CMD_SYN \<noteq> CMD_PSH" "CMD_SYN \<noteq> CMD_NOP" "CMD_SYN \<noteq> CMD_UPD"
  "CMD_FIN \<noteq> CMD_SYN" "CMD_FIN \<noteq> CMD_PSH" "CMD_FIN \<noteq> CMD_NOP" "CMD_FIN \<noteq> CMD_UPD"
  "CMD_PSH \<noteq> CMD_SYN" "CMD_PSH \<noteq> CMD_FIN" "CMD_PSH \<noteq> CMD_NOP" "CMD_PSH \<noteq> CMD_UPD"
  "CMD_NOP \<noteq> CMD_SYN" "CMD_NOP \<noteq> CMD_FIN" "CMD_NOP \<noteq> CMD_PSH" "CMD_NOP \<noteq> CMD_UPD"
  "CMD_UPD \<noteq> CMD_SYN" "CMD_UPD \<noteq> CMD_FIN" "CMD_UPD \<noteq> CMD_PSH" "CMD_UPD \<noteq> CMD_NOP"
  by (simp_all add: cmd_defs)

section \<open>Headers and frames\<close>

record mux_header =
  h_version :: u8
  h_cmd :: u8
  h_length :: u16
  h_sid :: u32

definition header_encode :: "mux_header \<Rightarrow> bytes" where
  "header_encode h = [h_version h, h_cmd h] @ u16_to_le (h_length h) @ u32_to_le (h_sid h)"

text \<open>The argument of \<^verbatim>\<open>decode\<close> is an array of exactly 8 bytes.\<close>

definition header_decode :: "bytes \<Rightarrow> mux_header" where
  "header_decode buf =
     \<lparr>h_version = buf ! 0, h_cmd = buf ! 1,
      h_length = u16_from_le (buf ! 2) (buf ! 3),
      h_sid = u32_from_le (buf ! 4) (buf ! 5) (buf ! 6) (buf ! 7)\<rparr>"

record mux_frame =
  fr_version :: u8
  fr_cmd :: u8
  fr_sid :: u32
  fr_data :: bytes

definition frame_new :: "u8 \<Rightarrow> u8 \<Rightarrow> u32 \<Rightarrow> mux_frame" where
  "frame_new version cmd sid = \<lparr>fr_version = version, fr_cmd = cmd, fr_sid = sid, fr_data = []\<rparr>"

definition frame_with_data :: "u8 \<Rightarrow> u8 \<Rightarrow> u32 \<Rightarrow> bytes \<Rightarrow> mux_frame" where
  "frame_with_data version cmd sid data =
     \<lparr>fr_version = version, fr_cmd = cmd, fr_sid = sid, fr_data = data\<rparr>"

definition frame_header :: "mux_frame \<Rightarrow> mux_header" where
  "frame_header f = \<lparr>h_version = fr_version f, h_cmd = fr_cmd f,
     h_length = usize_as_u16 (length (fr_data f)), h_sid = fr_sid f\<rparr>"

definition encoded_len :: "mux_frame \<Rightarrow> nat" where
  "encoded_len f = HEADER_SIZE + length (fr_data f)"

text \<open>\<^verbatim>\<open>encode_into\<close> appends to \<open>out\<close>; on an error \<open>out\<close> is unchanged.\<close>

definition frame_encode_into :: "mux_frame \<Rightarrow> bytes \<Rightarrow> io_error + bytes" where
  "frame_encode_into f out =
     (if length (fr_data f) > MAX_FRAME_DATA
      then Inl (IoError InvalidInput
             (''smux: frame payload '' @ show_nat (length (fr_data f)) @ '' exceeds the ''
              @ show_nat MAX_FRAME_DATA @ ''-byte protocol limit''))
      else Inr (out @ header_encode (frame_header f) @ fr_data f))"

definition frame_encode :: "mux_frame \<Rightarrow> io_error + bytes" where
  "frame_encode f = frame_encode_into f []"

definition frame_decode :: "bytes \<Rightarrow> io_error + (mux_frame \<times> nat) option" where
  "frame_decode buf =
     (if length buf < HEADER_SIZE then Inr None
      else
        let header = header_decode (take HEADER_SIZE buf);
            cmd = h_cmd header
        in if cmd \<in> {CMD_PSH, CMD_UPD, CMD_SYN, CMD_FIN, CMD_NOP}
           then let want = (if cmd = CMD_PSH \<or> cmd = CMD_UPD then unat (h_length header) else 0)
                in if length buf < HEADER_SIZE + want then Inr None
                   else Inr (Some (\<lparr>fr_version = h_version header, fr_cmd = cmd,
                                    fr_sid = h_sid header,
                                    fr_data = take want (drop HEADER_SIZE buf)\<rparr>,
                                   HEADER_SIZE + want))
           else Inl (IoError InvalidData
                  (''smux: invalid protocol, unknown command '' @ show_nat (unat cmd))))"

text \<open>The frames a session may send: only PSH and UPD carry a payload, of at most 65535 bytes.\<close>

definition frame_ok :: "mux_frame \<Rightarrow> bool" where
  "frame_ok f \<longleftrightarrow>
     (fr_cmd f = CMD_PSH \<or> fr_cmd f = CMD_UPD) \<and> length (fr_data f) \<le> MAX_FRAME_DATA \<or>
     (fr_cmd f = CMD_SYN \<or> fr_cmd f = CMD_FIN \<or> fr_cmd f = CMD_NOP) \<and> fr_data f = []"

subsection \<open>Codec lemmas\<close>

lemma length_header_encode [simp]: "length (header_encode h) = 8"
  by (simp add: header_encode_def)

lemma header_decode_encode [simp]: "header_decode (header_encode h) = h"
  by (cases h) (simp add: header_decode_def header_encode_def u16_to_le_def u32_to_le_def)

lemma header_encode_decode:
  assumes "length buf = HEADER_SIZE"
  shows "header_encode (header_decode buf) = buf"
proof -
  from assms have "buf = [buf ! 0, buf ! 1, buf ! 2, buf ! 3, buf ! 4, buf ! 5, buf ! 6, buf ! 7]"
    by (auto simp: HEADER_SIZE_def list_eq_iff_nth_eq less_Suc_eq numeral_eq_Suc)
  then show ?thesis by (simp add: header_encode_def header_decode_def)
qed

lemma frame_ok_length: "frame_ok f \<Longrightarrow> length (fr_data f) \<le> MAX_FRAME_DATA"
  by (auto simp: frame_ok_def)

lemma frame_ok_want:
  "frame_ok f \<Longrightarrow>
   (if fr_cmd f = CMD_PSH \<or> fr_cmd f = CMD_UPD then unat (h_length (frame_header f)) else 0)
     = length (fr_data f)"
  by (auto simp: frame_ok_def frame_header_def MAX_FRAME_DATA_def unat_usize_as_u16)

lemma frame_encode_ok:
  "frame_ok f \<Longrightarrow> frame_encode f = Inr (header_encode (frame_header f) @ fr_data f)"
  using frame_ok_length [of f] by (simp add: frame_encode_def frame_encode_into_def)

lemma frame_ok_cmd: "frame_ok f \<Longrightarrow> fr_cmd f \<in> {CMD_PSH, CMD_UPD, CMD_SYN, CMD_FIN, CMD_NOP}"
  by (auto simp: frame_ok_def)

lemma frame_header_cmd [simp]:
  "h_cmd (frame_header f) = fr_cmd f" "h_version (frame_header f) = fr_version f"
  "h_sid (frame_header f) = fr_sid f"
  by (simp_all add: frame_header_def)

lemma frame_decode_header:
  "length h = HEADER_SIZE \<Longrightarrow>
   frame_decode (h @ body) =
     (let header = header_decode h; cmd = h_cmd header;
          want = (if cmd = CMD_PSH \<or> cmd = CMD_UPD then unat (h_length header) else 0)
      in if cmd \<in> {CMD_PSH, CMD_UPD, CMD_SYN, CMD_FIN, CMD_NOP}
         then if length body < want then Inr None
              else Inr (Some (\<lparr>fr_version = h_version header, fr_cmd = cmd,
                               fr_sid = h_sid header, fr_data = take want body\<rparr>,
                              HEADER_SIZE + want))
         else Inl (IoError InvalidData
                (''smux: invalid protocol, unknown command '' @ show_nat (unat cmd))))"
  by (simp add: frame_decode_def Let_def)

lemma frame_decode_encode:
  assumes "frame_ok f" "frame_encode f = Inr bs"
  shows "frame_decode (bs @ rest) = Inr (Some (f, length bs))"
proof -
  have bs: "bs = header_encode (frame_header f) @ fr_data f"
    using assms frame_encode_ok by simp
  have "frame_decode (header_encode (frame_header f) @ (fr_data f @ rest)) =
      Inr (Some (f, HEADER_SIZE + length (fr_data f)))"
    using frame_ok_cmd [OF assms(1)] frame_ok_want [OF assms(1)]
    by (subst frame_decode_header) (simp_all add: HEADER_SIZE_def Let_def)
  then show ?thesis by (simp add: bs HEADER_SIZE_def)
qed

lemma frame_decode_short:
  assumes "frame_ok f" "frame_encode f = Inr bs" "strict_prefix p bs"
  shows "frame_decode p = Inr None"
proof (cases "length p < HEADER_SIZE")
  case True
  then show ?thesis by (simp add: frame_decode_def)
next
  case False
  have bs: "bs = header_encode (frame_header f) @ fr_data f"
    using assms frame_encode_ok by simp
  from assms(3) obtain t where t: "bs = p @ t" "t \<noteq> []" by (auto simp: strict_prefix_def prefix_def)
  define body where "body = drop HEADER_SIZE p"
  have "take HEADER_SIZE p = header_encode (frame_header f)"
    using False t(1) bs by (metis append_eq_append_conv_if append_take_drop_id length_header_encode
        HEADER_SIZE_def not_less take_append take_all_iff)
  then have p: "p = header_encode (frame_header f) @ body"
    unfolding body_def by (metis append_take_drop_id)
  with t bs have "length body < length (fr_data f)" by (auto simp: p)
  then show ?thesis using frame_ok_cmd [OF assms(1)] frame_ok_want [OF assms(1)]
    unfolding p by (subst frame_decode_header) (simp_all add: HEADER_SIZE_def Let_def)
qed

interpretation mux_codec: stream_codec frame_ok frame_encode frame_decode
proof
  fix f bs rest p
  assume ok: "frame_ok f"
  then show "\<exists>bs. frame_encode f = Inr bs \<and> bs \<noteq> []"
    by (auto simp: frame_encode_ok header_encode_def)
  assume "frame_encode f = Inr bs"
  with ok show "frame_decode (bs @ rest) = Inr (Some (f, length bs))"
    and "strict_prefix p bs \<Longrightarrow> frame_decode p = Inr None"
    by (rule frame_decode_encode, rule frame_decode_short)
qed

section \<open>Configuration\<close>

text \<open>Durations are nanosecond counts, sizes are \<^verbatim>\<open>usize\<close> values.\<close>

record mux_config =
  cfg_version :: u8
  keep_alive_disabled :: bool
  keep_alive_interval :: nat
  keep_alive_timeout :: nat
  max_frame_size :: nat
  max_receive_buffer :: nat
  max_stream_buffer :: nat

definition mux_config_default :: mux_config where
  "mux_config_default =
     \<lparr>cfg_version = VERSION_1, keep_alive_disabled = False,
      keep_alive_interval = 10 * 10 ^ 9, keep_alive_timeout = 30 * 10 ^ 9,
      max_frame_size = MAX_FRAME_SIZE, max_receive_buffer = 4 * 1024 * 1024,
      max_stream_buffer = 65536\<rparr>"

definition with_version :: "mux_config \<Rightarrow> u8 \<Rightarrow> mux_config" where
  "with_version c version = c\<lparr>cfg_version := version\<rparr>"

definition mux_config_verify :: "mux_config \<Rightarrow> io_error + unit" where
  "mux_config_verify c =
     (if cfg_version c \<noteq> VERSION_1 \<and> cfg_version c \<noteq> VERSION_2
      then Inl (IoError InvalidInput
             (''smux: unsupported protocol version '' @ show_nat (unat (cfg_version c))))
      else if cfg_version c = VERSION_2
      then Inl (IoError Unsupported ''smux: protocol version 2 is not implemented, use version 1'')
      else if \<not> keep_alive_disabled c \<and> keep_alive_interval c = 0
      then Inl (IoError InvalidInput ''smux: keep-alive interval must be positive'')
      else if \<not> keep_alive_disabled c \<and> keep_alive_timeout c < keep_alive_interval c
      then Inl (IoError InvalidInput
             ''smux: keep-alive timeout must be larger than keep-alive interval'')
      else if max_frame_size c = 0
      then Inl (IoError InvalidInput ''smux: max frame size must be positive'')
      else if max_frame_size c > MAX_FRAME_DATA
      then Inl (IoError InvalidInput ''smux: max frame size must not be larger than 65535'')
      else if max_receive_buffer c = 0
      then Inl (IoError InvalidInput ''smux: max receive buffer must be positive'')
      else if max_stream_buffer c = 0
      then Inl (IoError InvalidInput ''smux: max stream buffer must be positive'')
      else if max_stream_buffer c > max_receive_buffer c
      then Inl (IoError InvalidInput
             ''smux: max stream buffer must not be larger than max receive buffer'')
      else Inr ())"

text \<open>\<^verbatim>\<open>saturating_mul\<close> on a 64-bit \<^verbatim>\<open>usize\<close>.\<close>

definition send_queue_limit :: "mux_config \<Rightarrow> nat" where
  "send_queue_limit c = max (min (max_frame_size c * 8) (2 ^ 64 - 1)) 65536"

lemma mux_config_verify_ok:
  "mux_config_verify c = Inr () \<longleftrightarrow>
     cfg_version c = VERSION_1 \<and>
     (keep_alive_disabled c \<or> 0 < keep_alive_interval c \<and> keep_alive_interval c \<le> keep_alive_timeout c) \<and>
     0 < max_frame_size c \<and> max_frame_size c \<le> MAX_FRAME_DATA \<and>
     0 < max_stream_buffer c \<and> max_stream_buffer c \<le> max_receive_buffer c"
  by (auto simp: mux_config_verify_def VERSION_1_def VERSION_2_def)

section \<open>Properties\<close>

text \<open>A frame that a session may send survives the wire: its encoding decodes to the same frame
  and its exact length in front of any further bytes, while every proper prefix asks for
  more bytes instead of failing or giving a wrong frame.\<close>

theorem frame_roundtrip:
  assumes "frame_ok f" "frame_encode f = Inr bs"
  shows "frame_decode (bs @ rest) = Inr (Some (f, length bs)) \<and>
    length bs = encoded_len f \<and> (\<forall>p. strict_prefix p bs \<longrightarrow> frame_decode p = Inr None)"
  using mux_codec.dec_enc [OF assms] mux_codec.dec_short [OF assms] assms frame_encode_ok [OF assms(1)]
  by (auto simp: encoded_len_def HEADER_SIZE_def)

theorem frame_roundtrip_witness:
  "frame_decode ([1, 2, 2, 0, 3, 0, 0, 0, 104, 105] @ [9]) = Inr (Some (frame_with_data 1 CMD_PSH 3 [104, 105], 10))"
proof -
  have ok: "frame_ok (frame_with_data 1 CMD_PSH 3 [104, 105])"
    by (simp add: frame_ok_def frame_with_data_def MAX_FRAME_DATA_def)
  have e: "frame_encode (frame_with_data 1 CMD_PSH 3 [104, 105]) = Inr [1, 2, 2, 0, 3, 0, 0, 0, 104, 105]"
    unfolding frame_encode_ok [OF ok] by code_simp
  show ?thesis using frame_roundtrip [OF ok e, of "[9]"] by simp
qed

text \<open>Frames never run into each other: two sequences of frames with the same bytes on the wire
  are the same sequence, so a receiver cannot mistake one for another.\<close>

theorem frame_stream_unambiguous:
  assumes "list_all frame_ok fs" "list_all frame_ok gs"
    and "concat (map (\<lambda>f. projr (frame_encode f)) fs) = concat (map (\<lambda>f. projr (frame_encode f)) gs)"
  shows "fs = gs"
  using assms by (rule mux_codec.enc_stream_inj)

theorem frame_stream_unambiguous_witness: "[frame_new 1 CMD_SYN 3] = [frame_new 1 CMD_SYN 3]"
  by (rule frame_stream_unambiguous) (simp_all add: frame_ok_def frame_new_def)

text \<open>A configuration is accepted exactly when it asks for protocol version 1, keeps its keepalive
  interval positive and not above the timeout, and has buffer and frame sizes that are positive,
  ordered, and within the 16-bit length field.\<close>

theorem mux_config_verify_exact:
  "mux_config_verify c = Inr () \<longleftrightarrow>
     cfg_version c = VERSION_1 \<and>
     (keep_alive_disabled c \<or> 0 < keep_alive_interval c \<and> keep_alive_interval c \<le> keep_alive_timeout c) \<and>
     0 < max_frame_size c \<and> max_frame_size c \<le> MAX_FRAME_DATA \<and>
     0 < max_stream_buffer c \<and> max_stream_buffer c \<le> max_receive_buffer c"
  by (rule mux_config_verify_ok)

end
