(* ===== verification/MuxQueue.thy ===== *)
theory MuxQueue
  imports MuxFrame "HOL-Library.Multiset"
begin

text \<open>
  The outbound frame queue of \<^verbatim>\<open>src/src/mux.rs\<close> (\<^verbatim>\<open>WriteQueue\<close>). Each operation runs under the
  queue's mutex, so it is one function on the queue state; the wakers it wakes are part of
  its result. The \<^verbatim>\<open>ready\<close> notification is the permit bit of tokio's \<^verbatim>\<open>Notify\<close>. The \<^verbatim>\<open>u64\<close>
  counters \<open>pushed\<close> and \<open>written\<close> count single frames and are taken as unbounded.
\<close>

record write_queue =
  q_ctrl :: "mux_frame list"
  q_data :: "mux_frame list"
  q_data_bytes :: nat
  q_pushed :: nat
  q_written :: nat
  q_closed :: bool
  q_space_wakers :: "waker list"
  q_flush_wakers :: "waker list"
  q_ready :: bool
  q_limit :: nat

definition closed_err :: io_error where
  "closed_err = IoError BrokenPipe ''smux: session closed''"

definition queue_new :: "nat \<Rightarrow> write_queue" where
  "queue_new limit =
     \<lparr>q_ctrl = [], q_data = [], q_data_bytes = 0, q_pushed = 0, q_written = 0, q_closed = False,
      q_space_wakers = [], q_flush_wakers = [], q_ready = False, q_limit = limit\<rparr>"

definition push_ctrl :: "mux_frame \<Rightarrow> write_queue \<Rightarrow> bool \<times> write_queue" where
  "push_ctrl frame q =
     (if q_closed q then (False, q)
      else (True, q\<lparr>q_ctrl := q_ctrl q @ [frame], q_pushed := q_pushed q + 1, q_ready := True\<rparr>))"

definition force_push_data :: "mux_frame \<Rightarrow> write_queue \<Rightarrow> (io_error + nat) \<times> write_queue" where
  "force_push_data frame q =
     (if q_closed q then (Inl closed_err, q)
      else (Inr (q_pushed q + 1),
            q\<lparr>q_data_bytes := q_data_bytes q + length (fr_data frame),
              q_data := q_data q @ [frame], q_pushed := q_pushed q + 1, q_ready := True\<rparr>))"

definition register :: "waker list \<Rightarrow> waker \<Rightarrow> waker list" where
  "register wakers w = (if w \<in> set wakers then wakers else wakers @ [w])"

definition poll_reserve :: "waker \<Rightarrow> write_queue \<Rightarrow> (io_error + unit) poll \<times> write_queue" where
  "poll_reserve w q =
     (if q_closed q then (Ready (Inl closed_err), q)
      else if q_data_bytes q < q_limit q then (Ready (Inr ()), q)
      else (Pending, q\<lparr>q_space_wakers := register (q_space_wakers q) w\<rparr>))"

definition poll_flushed :: "waker \<Rightarrow> nat \<Rightarrow> write_queue \<Rightarrow> (io_error + unit) poll \<times> write_queue" where
  "poll_flushed w seq q =
     (if q_written q \<ge> seq then (Ready (Inr ()), q)
      else if q_closed q then (Ready (Inl closed_err), q)
      else (Pending, q\<lparr>q_flush_wakers := register (q_flush_wakers q) w\<rparr>))"

definition take_batch :: "write_queue \<Rightarrow> mux_frame list option \<times> waker list \<times> write_queue" where
  "take_batch q =
     (if q_ctrl q = [] \<and> q_data q = [] then (None, [], q)
      else (Some (q_ctrl q @ q_data q), q_space_wakers q,
            q\<lparr>q_ctrl := [], q_data := [], q_data_bytes := 0, q_space_wakers := []\<rparr>))"

definition mark_written :: "nat \<Rightarrow> write_queue \<Rightarrow> waker list \<times> write_queue" where
  "mark_written n q =
     (q_flush_wakers q, q\<lparr>q_written := q_written q + n, q_flush_wakers := []\<rparr>)"

definition queue_close :: "write_queue \<Rightarrow> waker list \<times> write_queue" where
  "queue_close q =
     (if q_closed q then ([], q)
      else (q_space_wakers q @ q_flush_wakers q,
            q\<lparr>q_closed := True, q_space_wakers := [], q_flush_wakers := [], q_ready := True\<rparr>))"

section \<open>The queue and its writer\<close>

text \<open>
  The queue together with the writer task and the history the guarantees speak about: \<open>log\<close>
  holds every accepted frame in push order with a mark for control frames, \<open>inflight\<close> is
  the batch the writer holds between \<^verbatim>\<open>take_batch\<close> and \<^verbatim>\<open>mark_written\<close>, \<open>wire\<close> the frames
  written and flushed. The writer is parked when it waits for the \<^verbatim>\<open>ready\<close> permit.
\<close>

record queue_sys =
  qs_queue :: write_queue
  qs_log :: "(bool \<times> mux_frame) list"
  qs_inflight :: "mux_frame list"
  qs_wire :: "mux_frame list"
  qs_parked :: bool
  qs_done :: bool

definition queue_sys_init :: "nat \<Rightarrow> queue_sys" where
  "queue_sys_init limit = \<lparr>qs_queue = queue_new limit, qs_log = [], qs_inflight = [],
     qs_wire = [], qs_parked = False, qs_done = False\<rparr>"

text \<open>
  The interleavings of any number of pushing tasks with the one writer task
  (\<^verbatim>\<open>writer_task\<close>): its rules are the points where a task touches the queue. Control frames
  are the keepalive NOPs, data frames the SYN, PSH and FIN of streams, as in the code's
  calls. A transport error or an encoding error ends the writer and closes the queue.
\<close>

inductive queue_step :: "queue_sys \<Rightarrow> queue_sys \<Rightarrow> bool" where
  qs_push_ctrl: "\<lbrakk>f = frame_new v CMD_NOP 0; push_ctrl f (qs_queue s) = (True, q')\<rbrakk> \<Longrightarrow>
     queue_step s (s\<lparr>qs_queue := q', qs_log := qs_log s @ [(True, f)]\<rparr>)"
| qs_push_data: "\<lbrakk>fr_cmd f \<in> {CMD_SYN, CMD_PSH, CMD_FIN}; force_push_data f (qs_queue s) = (Inr n, q')\<rbrakk> \<Longrightarrow>
     queue_step s (s\<lparr>qs_queue := q', qs_log := qs_log s @ [(False, f)]\<rparr>)"
| qs_reserve: "poll_reserve w (qs_queue s) = (r, q') \<Longrightarrow> queue_step s (s\<lparr>qs_queue := q'\<rparr>)"
| qs_flushed: "poll_flushed w n (qs_queue s) = (r, q') \<Longrightarrow> queue_step s (s\<lparr>qs_queue := q'\<rparr>)"
| qs_take: "\<lbrakk>\<not> qs_done s; \<not> qs_parked s; qs_inflight s = [];
      take_batch (qs_queue s) = (Some b, ws, q')\<rbrakk> \<Longrightarrow>
     queue_step s (s\<lparr>qs_queue := q', qs_inflight := b\<rparr>)"
| qs_finish: "\<lbrakk>\<not> qs_done s; \<not> qs_parked s; qs_inflight s = [];
      take_batch (qs_queue s) = (None, ws, q'); q_closed q'\<rbrakk> \<Longrightarrow>
     queue_step s (s\<lparr>qs_queue := q', qs_done := True\<rparr>)"
| qs_park: "\<lbrakk>\<not> qs_done s; \<not> qs_parked s; qs_inflight s = [];
      take_batch (qs_queue s) = (None, ws, q'); \<not> q_closed q'\<rbrakk> \<Longrightarrow>
     queue_step s (s\<lparr>qs_queue := q', qs_parked := True\<rparr>)"
| qs_notified: "\<lbrakk>\<not> qs_done s; qs_parked s; q_ready (qs_queue s)\<rbrakk> \<Longrightarrow>
     queue_step s (s\<lparr>qs_queue := (qs_queue s)\<lparr>q_ready := False\<rparr>, qs_parked := False\<rparr>)"
| qs_written: "\<lbrakk>\<not> qs_done s; qs_inflight s \<noteq> [];
      mark_written (length (qs_inflight s)) (qs_queue s) = (ws, q')\<rbrakk> \<Longrightarrow>
     queue_step s (s\<lparr>qs_queue := q', qs_wire := qs_wire s @ qs_inflight s, qs_inflight := []\<rparr>)"
| qs_write_error: "\<lbrakk>\<not> qs_done s; qs_inflight s \<noteq> []; queue_close (qs_queue s) = (ws, q')\<rbrakk> \<Longrightarrow>
     queue_step s (s\<lparr>qs_queue := q', qs_done := True\<rparr>)"
| qs_close: "queue_close (qs_queue s) = (ws, q') \<Longrightarrow> queue_step s (s\<lparr>qs_queue := q'\<rparr>)"

inductive queue_reach :: "nat \<Rightarrow> queue_sys \<Rightarrow> bool" for limit where
  qr_init: "queue_reach limit (queue_sys_init limit)"
| qr_step: "queue_reach limit s \<Longrightarrow> queue_step s t \<Longrightarrow> queue_reach limit t"

text \<open>Frames of the log by kind.\<close>

definition data_of :: "(bool \<times> mux_frame) list \<Rightarrow> mux_frame list" where
  "data_of l = map snd (filter (\<lambda>x. \<not> fst x) l)"

definition ctrl_of :: "(bool \<times> mux_frame) list \<Rightarrow> mux_frame list" where
  "ctrl_of l = map snd (filter fst l)"

text \<open>
  The invariant: what has left the queue is exactly a prefix of the log, reordered only
  between control and data frames; what is still queued is the rest of it.
\<close>

definition queue_inv :: "queue_sys \<Rightarrow> bool" where
  "queue_inv s \<longleftrightarrow>
     q_pushed (qs_queue s) = length (qs_log s) \<and> q_written (qs_queue s) = length (qs_wire s) \<and>
     length (qs_wire s) + length (qs_inflight s) \<le> length (qs_log s) \<and>
     mset (qs_wire s) = mset (map snd (take (length (qs_wire s)) (qs_log s))) \<and>
     mset (qs_wire s @ qs_inflight s) =
       mset (map snd (take (length (qs_wire s) + length (qs_inflight s)) (qs_log s))) \<and>
     q_data (qs_queue s) = data_of (drop (length (qs_wire s) + length (qs_inflight s)) (qs_log s)) \<and>
     q_ctrl (qs_queue s) = ctrl_of (drop (length (qs_wire s) + length (qs_inflight s)) (qs_log s)) \<and>
     q_data_bytes (qs_queue s) = sum_list (map (length \<circ> fr_data) (q_data (qs_queue s))) \<and>
     (qs_parked s \<and> \<not> qs_done s \<longrightarrow> qs_inflight s = [] \<and>
        (q_ctrl (qs_queue s) \<noteq> [] \<or> q_data (qs_queue s) \<noteq> [] \<or> q_closed (qs_queue s) \<longrightarrow>
         q_ready (qs_queue s))) \<and>
     (q_space_wakers (qs_queue s) \<noteq> [] \<longrightarrow>
        \<not> q_closed (qs_queue s) \<and> q_limit (qs_queue s) \<le> q_data_bytes (qs_queue s)) \<and>
     (\<forall>e \<in> set (qs_log s). fst e \<longleftrightarrow> fr_cmd (snd e) = CMD_NOP)"

lemma data_of_append [simp]: "data_of (xs @ ys) = data_of xs @ data_of ys"
  by (simp add: data_of_def)

lemma ctrl_of_append [simp]: "ctrl_of (xs @ ys) = ctrl_of xs @ ctrl_of ys"
  by (simp add: ctrl_of_def)

lemma kinds_single [simp]:
  "data_of [(True, f)] = []" "data_of [(False, f)] = [f]" "data_of [] = []"
  "ctrl_of [(True, f)] = [f]" "ctrl_of [(False, f)] = []" "ctrl_of [] = []"
  by (simp_all add: data_of_def ctrl_of_def)

lemma mset_kinds: "mset (ctrl_of l) + mset (data_of l) = mset (map snd l)"
  by (induction l) (auto simp: data_of_def ctrl_of_def)

lemma length_kinds: "length (ctrl_of l) + length (data_of l) = length l"
  by (induction l) (auto simp: data_of_def ctrl_of_def)

lemma queue_inv_init: "queue_inv (queue_sys_init limit)"
  by (simp add: queue_inv_def queue_sys_init_def queue_new_def)

text \<open>One lemma for the two push rules: the log grows at its end.\<close>

lemma queue_inv_push:
  assumes "queue_inv s"
    and "q_ctrl q' = q_ctrl (qs_queue s) @ ctrl_of [e]"
    and "q_data q' = q_data (qs_queue s) @ data_of [e]"
    and "q_data_bytes q' = q_data_bytes (qs_queue s) + sum_list (map (length \<circ> fr_data) (data_of [e]))"
    and "q_pushed q' = q_pushed (qs_queue s) + 1" "q_written q' = q_written (qs_queue s)"
    and "q_ready q'" "q_space_wakers q' = q_space_wakers (qs_queue s)" "q_closed q' = q_closed (qs_queue s)"
    and "q_limit q' = q_limit (qs_queue s)" "fst e \<longleftrightarrow> fr_cmd (snd e) = CMD_NOP"
  shows "queue_inv (s\<lparr>qs_queue := q', qs_log := qs_log s @ [e]\<rparr>)"
  using assms by (auto simp: queue_inv_def Let_def)

lemma queue_inv_take:
  assumes "queue_inv s" "qs_inflight s = []" "\<not> qs_parked s"
    and "take_batch (qs_queue s) = (Some b, ws, q')"
  shows "queue_inv (s\<lparr>qs_queue := q', qs_inflight := b\<rparr>)"
proof -
  let ?n = "length (qs_wire s)" and ?rest = "drop (length (qs_wire s)) (qs_log s)"
  have b: "b = ctrl_of ?rest @ data_of ?rest" and q': "q' = (qs_queue s)\<lparr>q_ctrl := [], q_data := [],
      q_data_bytes := 0, q_space_wakers := []\<rparr>"
    using assms by (auto simp: take_batch_def queue_inv_def split: if_splits)
  have n: "?n + length b = length (qs_log s)" and le: "?n \<le> length (qs_log s)"
    using assms length_kinds [of ?rest] by (auto simp: b queue_inv_def)
  have "mset (qs_wire s @ b) = mset (map snd (take ?n (qs_log s))) + mset (map snd ?rest)"
    using assms mset_kinds [of ?rest] by (simp add: b queue_inv_def)
  also have "\<dots> = mset (map snd (qs_log s))"
    by (metis append_take_drop_id map_append mset_append)
  finally show ?thesis using assms n q' by (simp add: queue_inv_def Let_def)
qed

lemma queue_inv_step: "queue_step s t \<Longrightarrow> queue_inv s \<Longrightarrow> queue_inv t"
proof (induction rule: queue_step.induct)
  case (qs_push_ctrl f v s q')
  then show ?case using queue_inv_push [of s q' "(True, f)"]
    by (auto simp: push_ctrl_def frame_new_def split: if_splits)
next
  case (qs_push_data f s n q')
  then show ?case using queue_inv_push [of s q' "(False, f)"]
    by (auto simp: force_push_data_def split: if_splits)
next
  case (qs_take s b ws q')
  then show ?case by (blast intro: queue_inv_take)
next
  case (qs_written s ws q')
  then show ?case by (auto simp: queue_inv_def mark_written_def Let_def)
qed (auto simp: queue_inv_def Let_def poll_reserve_def poll_flushed_def take_batch_def
      queue_close_def split: if_splits)

lemma queue_reach_inv: "queue_reach limit s \<Longrightarrow> queue_inv s"
  by (induction rule: queue_reach.induct) (auto intro: queue_inv_init queue_inv_step)

text \<open>Order: control frames and data frames leave in the order they were pushed.\<close>

definition queue_order :: "queue_sys \<Rightarrow> bool" where
  "queue_order s \<longleftrightarrow>
     (\<exists>bs. qs_wire s @ qs_inflight s = concat (map (\<lambda>b. ctrl_of b @ data_of b) bs) \<and>
           concat bs = take (length (qs_wire s) + length (qs_inflight s)) (qs_log s))"

lemma queue_order_take:
  assumes "queue_inv s" "queue_order s" "qs_inflight s = []"
    and "take_batch (qs_queue s) = (Some b, ws, q')"
  shows "queue_order (s\<lparr>qs_queue := q', qs_inflight := b\<rparr>)"
proof -
  let ?rest = "drop (length (qs_wire s)) (qs_log s)"
  have b: "b = ctrl_of ?rest @ data_of ?rest"
    using assms by (auto simp: take_batch_def queue_inv_def split: if_splits)
  have n: "length (qs_wire s) + length b = length (qs_log s)"
    using assms length_kinds [of ?rest] by (auto simp: b queue_inv_def)
  obtain bs where "qs_wire s = concat (map (\<lambda>b. ctrl_of b @ data_of b) bs)"
      "concat bs = take (length (qs_wire s)) (qs_log s)"
    using assms by (auto simp: queue_order_def)
  then show ?thesis using n unfolding queue_order_def
    by (intro exI [of _ "bs @ [?rest]"]) (simp add: b)
qed

lemma queue_order_step: "queue_step s t \<Longrightarrow> queue_inv s \<Longrightarrow> queue_order s \<Longrightarrow> queue_order t"
proof (induction rule: queue_step.induct)
  case (qs_push_ctrl f v s q')
  then show ?case by (auto simp: queue_order_def queue_inv_def Let_def)
next
  case (qs_push_data f s n q')
  then show ?case by (auto simp: queue_order_def queue_inv_def Let_def)
next
  case (qs_take s b ws q')
  then show ?case by (blast intro: queue_order_take)
qed (auto simp: queue_order_def)

lemma queue_reach_order: "queue_reach limit s \<Longrightarrow> queue_order s"
proof (induction rule: queue_reach.induct)
  case qr_init
  show ?case by (auto simp: queue_order_def queue_sys_init_def intro: exI [of _ "[]"])
next
  case (qr_step s t)
  then show ?case using queue_reach_inv queue_order_step by blast
qed

text \<open>
  The frames of one stream: a stream's SYN, PSH and FIN all go through the data queue, so
  on the wire they are in push order.
\<close>

lemma data_order:
  assumes "queue_order s" "\<forall>e \<in> set (qs_log s). fst e \<longrightarrow> \<not> P (snd e)"
  shows "filter P (qs_wire s @ qs_inflight s) =
         filter P (map snd (take (length (qs_wire s) + length (qs_inflight s)) (qs_log s)))"
proof -
  obtain bs where w: "qs_wire s @ qs_inflight s = concat (map (\<lambda>b. ctrl_of b @ data_of b) bs)"
    and l: "concat bs = take (length (qs_wire s) + length (qs_inflight s)) (qs_log s)"
    using assms(1) by (auto simp: queue_order_def)
  have one: "filter P (ctrl_of b) @ filter P (data_of b) = filter P (map snd b)"
    if "\<forall>e \<in> set b. fst e \<longrightarrow> \<not> P (snd e)" for b
    using that by (induction b) (auto simp: ctrl_of_def data_of_def)
  have "\<forall>b \<in> set bs. \<forall>e \<in> set b. fst e \<longrightarrow> \<not> P (snd e)"
    using assms(2) l by (metis UN_I in_set_takeD set_concat)
  then have "filter P (concat (map (\<lambda>b. ctrl_of b @ data_of b) bs)) = filter P (map snd (concat bs))"
    by (induction bs) (simp_all add: one)
  then show ?thesis by (simp add: w l)
qed

section \<open>Properties\<close>


definition qs_demo :: queue_sys where
  "qs_demo = \<lparr>qs_queue = (queue_new 65536)\<lparr>q_pushed := 1, q_written := 1, q_ready := True\<rparr>,
     qs_log = [(False, frame_new 1 CMD_SYN 3)], qs_inflight = [],
     qs_wire = [frame_new 1 CMD_SYN 3], qs_parked = False, qs_done = False\<rparr>"

lemma qs_demo_reach: "queue_reach 65536 qs_demo"
proof -
  let ?f = "frame_new 1 CMD_SYN 3"
  let ?q1 = "(queue_new 65536)\<lparr>q_data := [?f], q_pushed := 1, q_ready := True\<rparr>"
  let ?s1 = "(queue_sys_init 65536)\<lparr>qs_queue := ?q1, qs_log := [(False, ?f)]\<rparr>"
  let ?q2 = "(queue_new 65536)\<lparr>q_pushed := 1, q_ready := True\<rparr>"
  let ?s2 = "?s1\<lparr>qs_queue := ?q2, qs_inflight := [?f]\<rparr>"
  have 1: "queue_step (queue_sys_init 65536) ?s1"
    using queue_step.qs_push_data [of ?f "queue_sys_init 65536" 1 ?q1]
    by (simp add: force_push_data_def queue_sys_init_def queue_new_def frame_new_def)
  have 2: "queue_step ?s1 ?s2"
    using queue_step.qs_take [of ?s1 "[?f]" "[]" ?q2]
    by (simp add: take_batch_def queue_sys_init_def queue_new_def)
  have 3: "queue_step ?s2 qs_demo"
    using queue_step.qs_written [of ?s2 "[]" "?q2\<lparr>q_written := 1\<rparr>"]
    by (simp add: mark_written_def queue_sys_init_def queue_new_def qs_demo_def)
  show ?thesis by (intro queue_reach.intros(2) [OF _ 3] queue_reach.intros(2) [OF _ 2]
        queue_reach.intros(2) [OF queue_reach.intros(1) 1])
qed


text \<open>On the wire the SYN, PSH and FIN frames of a stream are a prefix of the frames pushed
  for it, in push order: keepalives may overtake them, but a FIN never overtakes data and
  no frame is lost, repeated or reordered.\<close>

theorem stream_order_on_wire:
  assumes "queue_reach limit s"
  shows "prefix (filter (\<lambda>f. fr_sid f = sid \<and> fr_cmd f \<noteq> CMD_NOP) (qs_wire s))
                (filter (\<lambda>f. fr_sid f = sid \<and> fr_cmd f \<noteq> CMD_NOP) (map snd (qs_log s)))"
proof -
  let ?P = "\<lambda>f. fr_sid f = sid \<and> fr_cmd f \<noteq> CMD_NOP"
  let ?n = "length (qs_wire s) + length (qs_inflight s)"
  have "filter ?P (qs_wire s @ qs_inflight s) = filter ?P (map snd (take ?n (qs_log s)))"
    using queue_reach_order [OF assms] queue_reach_inv [OF assms]
    by (intro data_order) (auto simp: queue_inv_def)
  moreover have "map snd (qs_log s) = map snd (take ?n (qs_log s)) @ map snd (drop ?n (qs_log s))"
    by (metis append_take_drop_id map_append)
  ultimately have "filter ?P (map snd (qs_log s)) =
      filter ?P (qs_wire s) @ filter ?P (qs_inflight s) @ filter ?P (map snd (drop ?n (qs_log s)))"
    by (simp only: filter_append append_assoc [symmetric])
  then show ?thesis by (simp only: prefix_def, blast)
qed

theorem stream_order_on_wire_witness:
  "prefix (filter (\<lambda>f. fr_sid f = 3 \<and> fr_cmd f \<noteq> CMD_NOP) (qs_wire qs_demo))
          (filter (\<lambda>f. fr_sid f = 3 \<and> fr_cmd f \<noteq> CMD_NOP) (map snd (qs_log qs_demo)))"
  by (rule stream_order_on_wire [OF qs_demo_reach])


definition qs_parked_demo :: queue_sys where
  "qs_parked_demo = (queue_sys_init 65536)\<lparr>qs_parked := True, qs_log := [(False, frame_new 1 CMD_SYN 3)],
     qs_queue := snd (force_push_data (frame_new 1 CMD_SYN 3) (queue_new 65536))\<rparr>"

lemma qs_parked_demo_reach: "queue_reach 65536 qs_parked_demo"
proof -
  let ?s = "(queue_sys_init 65536)\<lparr>qs_parked := True\<rparr>"
  have 1: "queue_step (queue_sys_init 65536) ?s"
    using queue_step.qs_park [of "queue_sys_init 65536" "[]" "queue_new 65536"]
    by (simp add: take_batch_def queue_sys_init_def queue_new_def)
  have 2: "queue_step ?s qs_parked_demo"
    using queue_step.qs_push_data [of "frame_new 1 CMD_SYN 3" ?s 1 "qs_queue qs_parked_demo"]
    by (simp add: qs_parked_demo_def force_push_data_def queue_sys_init_def queue_new_def frame_new_def)
  show ?thesis by (intro queue_reach.intros(2) [OF _ 2] queue_reach.intros(2) [OF queue_reach.intros(1) 1])
qed


end
