(* ===== verification/MuxStream.thy ===== *)
theory MuxStream
  imports MuxQueue
begin

text \<open>
  The receive buffer of one multiplexed stream (\<^verbatim>\<open>StreamState\<close> and \<^verbatim>\<open>StreamShared\<close> in
  \<^verbatim>\<open>src/src/mux.rs\<close>) and the copy loop of \<^verbatim>\<open>MuxStream::poll_read\<close>. The interface of a byte
  FIFO is the locale \<open>byte_fifo\<close>; its client lemma says that any sequence of pushes and
  reads neither loses, repeats nor reorders bytes. A Rust panic (a slice out of range, a
  counter below zero) is the result \<open>None\<close>.
\<close>

section \<open>Byte FIFOs\<close>

datatype 'b fifo_op = FPush "'b list" | FPull nat

text \<open>Run a sequence of operations, collecting what is read; \<open>None\<close> if one of them panics.\<close>

fun fifo_run ::
    "('b list \<Rightarrow> 's \<Rightarrow> 's) \<Rightarrow> (nat \<Rightarrow> 's \<Rightarrow> ('b list \<times> 's) option) \<Rightarrow> 'b fifo_op list \<Rightarrow> 's
     \<Rightarrow> ('b list \<times> 's) option" where
  "fifo_run push pull [] s = Some ([], s)"
| "fifo_run push pull (FPush d # ops) s = fifo_run push pull ops (push d s)"
| "fifo_run push pull (FPull n # ops) s =
     (case pull n s of
        None \<Rightarrow> None
      | Some (bs, s') \<Rightarrow> map_option (\<lambda>(cs, t). (bs @ cs, t)) (fifo_run push pull ops s'))"

fun fifo_pushed :: "'b fifo_op list \<Rightarrow> 'b list" where
  "fifo_pushed [] = []"
| "fifo_pushed (FPush d # ops) = d @ fifo_pushed ops"
| "fifo_pushed (FPull n # ops) = fifo_pushed ops"

locale byte_fifo =
  fixes content :: "'s \<Rightarrow> 'b list"
    and inv :: "'s \<Rightarrow> bool"
    and push :: "'b list \<Rightarrow> 's \<Rightarrow> 's"
    and pull :: "nat \<Rightarrow> 's \<Rightarrow> ('b list \<times> 's) option"
  assumes push_content: "inv s \<Longrightarrow> content (push d s) = content s @ d"
    and push_inv: "inv s \<Longrightarrow> inv (push d s)"
    and pull_content: "inv s \<Longrightarrow>
          \<exists>s'. pull n s = Some (take n (content s), s') \<and> content s' = drop n (content s) \<and> inv s'"
begin

lemma run_conserves:
  "inv s \<Longrightarrow> \<exists>out s'. fifo_run push pull ops s = Some (out, s') \<and> inv s' \<and>
     out @ content s' = content s @ fifo_pushed ops"
proof (induction ops arbitrary: s)
  case (Cons op ops)
  show ?case
  proof (cases op)
    case (FPush d)
    then show ?thesis using Cons push_inv push_content by (fastforce simp: Cons.prems)
  next
    case (FPull n)
    obtain s' where s': "pull n s = Some (take n (content s), s')" "content s' = drop n (content s)" "inv s'"
      using pull_content Cons.prems by blast
    obtain out t where "fifo_run push pull ops s' = Some (out, t)" "inv t"
        "out @ content t = content s' @ fifo_pushed ops"
      using Cons.IH [OF s'(3)] by blast
    then show ?thesis using FPull s' by (simp add: append_assoc [symmetric] del: append_assoc)
        (simp add: s'(2))
  qed
qed simp

end

section \<open>Stream state\<close>

record stream_state =
  st_chunks :: "bytes list"
  st_head :: nat
  st_buffered :: nat
  st_fin :: bool
  st_dead :: bool
  st_read_waker :: "waker option"

record stream_shared =
  ss_id :: u32
  ss_state :: stream_state

definition stream_shared_new :: "u32 \<Rightarrow> stream_shared" where
  "stream_shared_new sid =
     \<lparr>ss_id = sid, ss_state = \<lparr>st_chunks = [], st_head = 0, st_buffered = 0, st_fin = False,
        st_dead = False, st_read_waker = None\<rparr>\<rparr>"

text \<open>Each operation takes the reader's waker out of the state and wakes it.\<close>

definition push_bytes :: "bytes \<Rightarrow> stream_state \<Rightarrow> waker option \<times> stream_state" where
  "push_bytes data st =
     (st_read_waker st,
      st\<lparr>st_buffered := st_buffered st + length data, st_chunks := st_chunks st @ [data],
         st_read_waker := None\<rparr>)"

definition set_fin :: "stream_state \<Rightarrow> waker option \<times> stream_state" where
  "set_fin st = (st_read_waker st, st\<lparr>st_fin := True, st_read_waker := None\<rparr>)"

definition set_dead :: "stream_state \<Rightarrow> waker option \<times> stream_state" where
  "set_dead st = (st_read_waker st, st\<lparr>st_dead := True, st_read_waker := None\<rparr>)"

definition recycle :: "stream_state \<Rightarrow> nat \<times> stream_state" where
  "recycle st = (st_buffered st, st\<lparr>st_chunks := [], st_head := 0, st_buffered := 0\<rparr>)"

text \<open>
  The copy loop of \<^verbatim>\<open>poll_read\<close> for a buffer with \<open>room\<close> bytes left: the bytes copied and the
  new state. \<open>None\<close> is the panic of an out-of-range slice or of a negative \<open>buffered\<close>.
\<close>

function read_loop :: "nat \<Rightarrow> stream_state \<Rightarrow> (bytes \<times> stream_state) option" where
  "read_loop room st =
     (if room = 0 then Some ([], st)
      else case st_chunks st of
        [] \<Rightarrow> Some ([], st)
      | front # rest \<Rightarrow>
          if st_head st > length front then None
          else
            let avail = drop (st_head st) front;
                n = min (length avail) room;
                chunk_done = (st_head st + n = length front);
                st1 = st\<lparr>st_head := st_head st + n, st_buffered := st_buffered st - n\<rparr>;
                st2 = (if chunk_done then st1\<lparr>st_chunks := rest, st_head := 0\<rparr> else st1)
            in if st_buffered st < n then None
               else map_option (\<lambda>(bs, t). (take n avail @ bs, t)) (read_loop (room - n) st2))"
  by pat_completeness auto
termination
  by (relation "measure (\<lambda>(room, st). room + length (st_chunks st))") (auto simp: min_def)

declare read_loop.simps [simp del]

section \<open>Invariant and content\<close>

definition stream_content :: "stream_state \<Rightarrow> bytes" where
  "stream_content st = drop (st_head st) (concat (st_chunks st))"

definition stream_inv :: "stream_state \<Rightarrow> bool" where
  "stream_inv st \<longleftrightarrow>
     (case st_chunks st of [] \<Rightarrow> st_head st = 0 | front # _ \<Rightarrow> st_head st \<le> length front) \<and>
     st_buffered st = length (stream_content st)"

lemma stream_inv_new [simp]:
  "stream_inv (ss_state (stream_shared_new sid))" "stream_content (ss_state (stream_shared_new sid)) = []"
  by (simp_all add: stream_inv_def stream_content_def stream_shared_new_def)

lemma stream_head_le: "stream_inv st \<Longrightarrow> st_head st \<le> length (concat (st_chunks st))"
  by (auto simp: stream_inv_def split: list.splits)

lemma push_bytes_content:
  "stream_inv st \<Longrightarrow> stream_content (snd (push_bytes d st)) = stream_content st @ d"
  using stream_head_le [of st] by (simp add: stream_content_def push_bytes_def)

lemma push_bytes_inv: "stream_inv st \<Longrightarrow> stream_inv (snd (push_bytes d st))"
  using push_bytes_content [of st d]
  by (auto simp: stream_inv_def push_bytes_def split: list.splits)

lemma flag_ops_content [simp]:
  "stream_content (snd (set_fin st)) = stream_content st"
  "stream_content (snd (set_dead st)) = stream_content st"
  "stream_inv (snd (set_fin st)) = stream_inv st" "stream_inv (snd (set_dead st)) = stream_inv st"
  "st_buffered (snd (set_fin st)) = st_buffered st" "st_buffered (snd (set_dead st)) = st_buffered st"
  by (simp_all add: set_fin_def set_dead_def stream_content_def stream_inv_def split: list.splits)

lemma recycle_inv [simp]:
  "stream_inv (snd (recycle st))" "stream_content (snd (recycle st)) = []"
  "st_buffered (snd (recycle st)) = 0" "fst (recycle st) = st_buffered st"
  by (simp_all add: recycle_def stream_inv_def stream_content_def)

lemma push_bytes_buffered [simp]:
  "st_buffered (snd (push_bytes d st)) = st_buffered st + length d"
  "st_fin (snd (push_bytes d st)) = st_fin st"
  by (simp_all add: push_bytes_def)

text \<open>One round of the copy loop moves the front chunk's bytes.\<close>

lemma read_loop_round:
  assumes "stream_inv st" "st_chunks st = front # rest"
    and "n = min (length (drop (st_head st) front)) room"
    and "st1 = st\<lparr>st_head := st_head st + n, st_buffered := st_buffered st - n\<rparr>"
    and "st2 = (if st_head st + n = length front then st1\<lparr>st_chunks := rest, st_head := 0\<rparr> else st1)"
  shows "stream_inv st2" "stream_content st2 = drop n (stream_content st)" "n \<le> st_buffered st"
    and "take n (drop (st_head st) front) = take n (stream_content st)"
proof -
  have h: "st_head st \<le> length front" using assms(1,2) by (simp add: stream_inv_def)
  have c: "stream_content st = drop (st_head st) front @ concat rest"
    using assms(2) h by (simp add: stream_content_def)
  have b: "st_buffered st = length front - st_head st + length (concat rest)"
    using assms(1) c by (simp add: stream_inv_def)
  then show "n \<le> st_buffered st" using assms(3) by simp
  show t: "take n (drop (st_head st) front) = take n (stream_content st)" using assms(3) by (simp add: c)
  show "stream_content st2 = drop n (stream_content st)"
    using assms(2-5) h by (auto simp: c stream_content_def min_def add.commute split: if_splits)
  then show "stream_inv st2"
    using assms(2-5) h b by (auto simp: stream_inv_def c min_def split: if_splits list.splits)
qed

lemma read_loop_correct:
  "stream_inv st \<Longrightarrow>
   \<exists>st'. read_loop room st = Some (take room (stream_content st), st') \<and> stream_inv st' \<and>
     stream_content st' = drop room (stream_content st) \<and>
     st_fin st' = st_fin st \<and> st_dead st' = st_dead st \<and> st_read_waker st' = st_read_waker st"
proof (induction room st rule: read_loop.induct)
  case (1 room st)
  show ?case
  proof (cases "room = 0 \<or> st_chunks st = []")
    case True
    then show ?thesis using 1(2)
      by (subst read_loop.simps) (auto simp: stream_content_def stream_inv_def)
  next
    case False
    then obtain front rest where ch: "st_chunks st = front # rest" and room: "room \<noteq> 0"
      by (cases "st_chunks st") auto
    define n where "n = min (length (drop (st_head st) front)) room"
    define st1 where "st1 = st\<lparr>st_head := st_head st + n, st_buffered := st_buffered st - n\<rparr>"
    define st2 where "st2 = (if st_head st + n = length front
       then st1\<lparr>st_chunks := rest, st_head := 0\<rparr> else st1)"
    note r = read_loop_round [OF 1(2) ch n_def st1_def st2_def]
    have h: "\<not> st_head st > length front" using 1(2) ch by (simp add: stream_inv_def)
    have nb: "\<not> st_buffered st < n" using r(3) by simp
    then obtain st' where st': "read_loop (room - n) st2 = Some (take (room - n) (stream_content st2), st')"
        "stream_inv st'" "stream_content st' = drop (room - n) (stream_content st2)"
        "st_fin st' = st_fin st2" "st_dead st' = st_dead st2" "st_read_waker st' = st_read_waker st2"
      using 1(1) [OF room ch h refl refl refl refl refl, folded n_def, folded st1_def, folded st2_def] r(1)
      by blast
    have eq: "read_loop room st =
        map_option (\<lambda>(bs, t). (take n (drop (st_head st) front) @ bs, t)) (read_loop (room - n) st2)"
      by (subst read_loop.simps, simp only: room ch h list.case if_False Let_def)
        (fold n_def, fold st1_def, fold st2_def, simp only: nb if_False)
    have n: "n \<le> room" by (simp add: n_def)
    have f: "st_fin st2 = st_fin st" "st_dead st2 = st_dead st" "st_read_waker st2 = st_read_waker st"
      by (simp_all add: st2_def st1_def)
    have "take n (stream_content st) @ take (room - n) (drop n (stream_content st)) = take room (stream_content st)"
      using n by (metis take_add le_add_diff_inverse)
    then show ?thesis using st' eq r(2,4) f n by simp
  qed
qed

interpretation stream_fifo: byte_fifo stream_content stream_inv "\<lambda>d st. snd (push_bytes d st)" read_loop
proof
  fix st d n assume "stream_inv st"
  then show "stream_content (snd (push_bytes d st)) = stream_content st @ d"
    and "stream_inv (snd (push_bytes d st))"
    and "\<exists>s'. read_loop n st = Some (take n (stream_content st), s') \<and>
           stream_content s' = drop n (stream_content st) \<and> stream_inv s'"
    using push_bytes_content push_bytes_inv read_loop_correct by blast+
qed

section \<open>Properties\<close>

text \<open>Reading a stream never panics and never loses, repeats or reorders bytes: after any
  sequence of received payloads and reads of any sizes on a fresh stream, the bytes handed
  to the application followed by the bytes still buffered are exactly the payloads in order,
  and the buffer counter is exact.\<close>

theorem stream_bytes_in_order:
  "\<exists>out st. fifo_run (\<lambda>d st. snd (push_bytes d st)) read_loop ops (ss_state (stream_shared_new sid))
       = Some (out, st) \<and>
     out @ stream_content st = fifo_pushed ops \<and> st_buffered st = length (stream_content st)"
proof -
  obtain out st where "fifo_run (\<lambda>d st. snd (push_bytes d st)) read_loop ops
      (ss_state (stream_shared_new sid)) = Some (out, st)" "stream_inv st"
      "out @ stream_content st = fifo_pushed ops"
    using stream_fifo.run_conserves [OF stream_inv_new(1), of ops sid] by auto
  then show ?thesis by (auto simp: stream_inv_def)
qed

end
