(* ===== verification/MuxSession.thy ===== *)
theory MuxSession
  imports MuxStream "HOL-Library.AList"
begin

text \<open>
  The session of \<^verbatim>\<open>src/src/mux.rs\<close>: the state the tasks and stream handles share
  (\<^verbatim>\<open>SessionShared\<close>), stream opening, the reader, writer and keepalive tasks, and the read,
  write, flush, shutdown and drop operations of \<^verbatim>\<open>MuxStream\<close>.

  An \<^verbatim>\<open>Arc<StreamShared>\<close> is an index into \<open>ses_heap\<close>: the map from stream ids, the handles
  and the reader may hold the same index, as they share the same object. Every waker that
  is woken is appended to \<open>ses_woken\<close>. The bucket is an \<^verbatim>\<open>i64\<close>, written as an \<open>int\<close>: its bounds
  are part of the invariant.
\<close>

section \<open>State\<close>

record mux_stream =
  ms_id :: u32
  ms_state :: nat
  ms_version :: u8
  ms_frame_size :: nat
  ms_last_push :: nat
  ms_fin_sent :: bool

record session =
  ses_config :: mux_config
  ses_streams :: "(u32 \<times> nat) list"
  ses_next_stream_id :: u32
  ses_go_away :: bool
  ses_closed :: bool
  ses_error :: "(error_kind \<times> string) option"
  ses_bucket :: int
  ses_bucket_notify :: bool
  ses_data_ready :: bool
  ses_queue :: write_queue
  ses_heap :: "stream_shared list"
  ses_accept :: "mux_stream list"
  ses_accept_open :: bool
  ses_woken :: "waker list"

text \<open>\<^verbatim>\<open>MuxSession::new\<close>: the shared state of a session whose config verifies.\<close>

definition session_new :: "mux_config \<Rightarrow> bool \<Rightarrow> io_error + session" where
  "session_new config is_client =
     (case mux_config_verify config of
        Inl e \<Rightarrow> Inl e
      | Inr _ \<Rightarrow> Inr
          \<lparr>ses_config = config, ses_streams = [],
           ses_next_stream_id = (if is_client then 1 else 0), ses_go_away = False,
           ses_closed = False, ses_error = None,
           ses_bucket = usize_as_i64 (max_receive_buffer config), ses_bucket_notify = False,
           ses_data_ready = False, ses_queue = queue_new (send_queue_limit config),
           ses_heap = [], ses_accept = [], ses_accept_open = True, ses_woken = []\<rparr>)"

definition wake :: "waker option \<Rightarrow> session \<Rightarrow> session" where
  "wake w s = (case w of None \<Rightarrow> s | Some k \<Rightarrow> s\<lparr>ses_woken := ses_woken s @ [k]\<rparr>)"

text \<open>Run an operation of a stream object and wake the waker it takes out.\<close>

definition on_stream :: "nat \<Rightarrow> (stream_state \<Rightarrow> waker option \<times> stream_state) \<Rightarrow> session \<Rightarrow> session" where
  "on_stream a f s =
     (if a < length (ses_heap s)
      then let sh = ses_heap s ! a; (w, st) = f (ss_state sh)
           in wake w (s\<lparr>ses_heap := (ses_heap s)[a := sh\<lparr>ss_state := st\<rparr>]\<rparr>)
      else s)"

abbreviation stream_at :: "session \<Rightarrow> nat \<Rightarrow> stream_state" where
  "stream_at s a \<equiv> ss_state (ses_heap s ! a)"

section \<open>Shared operations\<close>

definition session_error :: "session \<Rightarrow> io_error" where
  "session_error s = (case ses_error s of Some (k, m) \<Rightarrow> IoError k m | None \<Rightarrow> closed_err)"

text \<open>\<^verbatim>\<open>SessionShared::fail\<close>: the first error is kept, the teardown runs once.\<close>

definition session_fail :: "io_error \<Rightarrow> session \<Rightarrow> session" where
  "session_fail err s =
     (let s = (case ses_error s of
                 None \<Rightarrow> s\<lparr>ses_error := Some (err_kind err, err_msg err)\<rparr>
               | Some _ \<Rightarrow> s)
      in if ses_closed s then s
         else let (ws, q) = queue_close (ses_queue s);
                  s = s\<lparr>ses_closed := True, ses_queue := q, ses_woken := ses_woken s @ ws\<rparr>;
                  as = map snd (ses_streams s);
                  s = s\<lparr>ses_streams := []\<rparr>;
                  s = fold (\<lambda>a. on_stream a set_dead) as s
              in s\<lparr>ses_bucket_notify := True\<rparr>)"

definition next_id :: "session \<Rightarrow> (io_error + u32) \<times> session" where
  "next_id s =
     (if ses_go_away s then (Inl (IoError Other ''smux: stream id overflow, no more streams''), s)
      else let sid = ses_next_stream_id s + 2;
               s = s\<lparr>ses_next_stream_id := sid\<rparr>
           in if sid = sid mod 2
              then (Inl (IoError Other ''smux: stream id overflow, no more streams''),
                    s\<lparr>ses_go_away := True\<rparr>)
              else (Inr sid, s))"

definition spend_tokens :: "nat \<Rightarrow> session \<Rightarrow> session" where
  "spend_tokens n s = s\<lparr>ses_bucket := ses_bucket s - int n\<rparr>"

definition return_tokens :: "nat \<Rightarrow> session \<Rightarrow> session" where
  "return_tokens n s =
     (if n = 0 then s
      else let old = ses_bucket s; s = s\<lparr>ses_bucket := old + int n\<rparr>
           in if old \<le> 0 \<and> old + int n > 0 then s\<lparr>ses_bucket_notify := True\<rparr> else s)"

text \<open>\<^verbatim>\<open>HashMap::remove\<close> reports whether the id was present.\<close>

definition remove_stream :: "u32 \<Rightarrow> session \<Rightarrow> nat option \<times> session" where
  "remove_stream sid s =
     (map_of (ses_streams s) sid, s\<lparr>ses_streams := AList.delete sid (ses_streams s)\<rparr>)"

section \<open>Stream handles\<close>

definition mux_stream_new :: "nat \<Rightarrow> session \<Rightarrow> nat \<Rightarrow> mux_stream" where
  "mux_stream_new a s last_push =
     \<lparr>ms_id = ss_id (ses_heap s ! a), ms_state = a, ms_version = cfg_version (ses_config s),
      ms_frame_size = max_frame_size (ses_config s), ms_last_push = last_push, ms_fin_sent = False\<rparr>"

text \<open>A new stream object and its entry in the id map.\<close>

definition add_stream :: "u32 \<Rightarrow> session \<Rightarrow> session" where
  "add_stream sid s =
     s\<lparr>ses_heap := ses_heap s @ [stream_shared_new sid],
       ses_streams := AList.update sid (length (ses_heap s)) (ses_streams s)\<rparr>"

definition open_stream :: "session \<Rightarrow> (io_error + mux_stream) \<times> session" where
  "open_stream s =
     (if ses_closed s then (Inl (session_error s), s)
      else case next_id s of
        (Inl e, s) \<Rightarrow> (Inl e, s)
      | (Inr sid, s) \<Rightarrow>
          let a = length (ses_heap s); s = add_stream sid s
          in case force_push_data (frame_new (cfg_version (ses_config s)) CMD_SYN sid) (ses_queue s) of
               (Inl e, q) \<Rightarrow> (Inl e, snd (remove_stream sid (s\<lparr>ses_queue := q\<rparr>)))
             | (Inr seq, q) \<Rightarrow> let s = s\<lparr>ses_queue := q\<rparr> in (Inr (mux_stream_new a s seq), s))"

definition ms_is_closed :: "mux_stream \<Rightarrow> session \<Rightarrow> bool" where
  "ms_is_closed h s = (st_fin (stream_at s (ms_state h)) \<or> st_dead (stream_at s (ms_state h)) \<or> ses_closed s)"

definition send_fin :: "mux_stream \<Rightarrow> session \<Rightarrow> mux_stream \<times> session" where
  "send_fin h s =
     (if ms_fin_sent h then (h, s)
      else let h = h\<lparr>ms_fin_sent := True\<rparr>
           in case force_push_data (frame_new (ms_version h) CMD_FIN (ms_id h)) (ses_queue s) of
                (Inr seq, q) \<Rightarrow> (h\<lparr>ms_last_push := seq\<rparr>, s\<lparr>ses_queue := q\<rparr>)
              | (Inl _, q) \<Rightarrow> (h, s\<lparr>ses_queue := q\<rparr>))"

text \<open>
  \<^verbatim>\<open>poll_read\<close> into a buffer with \<open>room\<close> bytes: the bytes put into it. An empty success is
  end of file (or an empty buffer); \<open>None\<close> is a panic.
\<close>

definition ms_poll_read ::
    "waker \<Rightarrow> nat \<Rightarrow> mux_stream \<Rightarrow> session \<Rightarrow> ((io_error + bytes) poll \<times> session) option" where
  "ms_poll_read w room h s =
     (if room = 0 then Some (Ready (Inr []), s)
      else
        let a = ms_state h
        in case read_loop room (stream_at s a) of
             None \<Rightarrow> None
           | Some (bs, st) \<Rightarrow>
               let s = on_stream a (\<lambda>_. (None, st)) s
               in Some (if bs \<noteq> [] then (Ready (Inr bs), return_tokens (length bs) s)
                        else if st_fin st then (Ready (Inr []), s)
                        else if st_dead st \<or> ses_closed s then (Ready (Inl (session_error s)), s)
                        else (Pending, on_stream a (\<lambda>st. (None, st\<lparr>st_read_waker := Some w\<rparr>)) s)))"

definition ms_poll_write ::
    "waker \<Rightarrow> bytes \<Rightarrow> mux_stream \<Rightarrow> session \<Rightarrow> (io_error + nat) poll \<times> mux_stream \<times> session" where
  "ms_poll_write w buf h s =
     (if buf = [] then (Ready (Inr 0), h, s)
      else if ms_fin_sent h
      then (Ready (Inl (IoError BrokenPipe ''smux: stream is closed for writing'')), h, s)
      else if ses_closed s then (Ready (Inl (session_error s)), h, s)
      else if st_dead (stream_at s (ms_state h)) then (Ready (Inl (session_error s)), h, s)
      else case poll_reserve w (ses_queue s) of
        (Pending, q) \<Rightarrow> (Pending, h, s\<lparr>ses_queue := q\<rparr>)
      | (Ready (Inl e), q) \<Rightarrow> (Ready (Inl e), h, s\<lparr>ses_queue := q\<rparr>)
      | (Ready (Inr _), q) \<Rightarrow>
          let n = min (length buf) (ms_frame_size h);
              frame = frame_with_data (ms_version h) CMD_PSH (ms_id h) (take n buf)
          in case force_push_data frame q of
               (Inr seq, q) \<Rightarrow> (Ready (Inr n), h\<lparr>ms_last_push := seq\<rparr>, s\<lparr>ses_queue := q\<rparr>)
             | (Inl e, q) \<Rightarrow> (Ready (Inl e), h, s\<lparr>ses_queue := q\<rparr>))"

definition ms_poll_flush :: "waker \<Rightarrow> mux_stream \<Rightarrow> session \<Rightarrow> (io_error + unit) poll \<times> session" where
  "ms_poll_flush w h s =
     (let (r, q) = poll_flushed w (ms_last_push h) (ses_queue s) in (r, s\<lparr>ses_queue := q\<rparr>))"

definition ms_poll_shutdown ::
    "waker \<Rightarrow> mux_stream \<Rightarrow> session \<Rightarrow> (io_error + unit) poll \<times> mux_stream \<times> session" where
  "ms_poll_shutdown w h s =
     (if \<not> ms_fin_sent h \<and> ses_closed s then (Ready (Inr ()), h\<lparr>ms_fin_sent := True\<rparr>, s)
      else let (h, s) = (if ms_fin_sent h then (h, s) else send_fin h s);
               (r, q) = poll_flushed w (ms_last_push h) (ses_queue s);
               s = s\<lparr>ses_queue := q\<rparr>
           in case r of Ready (Inl _) \<Rightarrow> (Ready (Inr ()), h, s) | _ \<Rightarrow> (r, h, s))"

text \<open>\<^verbatim>\<open>Drop for MuxStream\<close>, its steps run without interruption.\<close>

definition ms_drop :: "mux_stream \<Rightarrow> session \<Rightarrow> session" where
  "ms_drop h s =
     (let (h, s) = send_fin h s;
          (present, s) = remove_stream (ms_id h) s
      in if present \<noteq> None
         then let refund = fst (recycle (stream_at s (ms_state h)));
                  s = on_stream (ms_state h) (\<lambda>st. (None, snd (recycle st))) s
              in return_tokens refund s
         else s)"

section \<open>The tasks\<close>

text \<open>What one attempt of \<^verbatim>\<open>deliver_accept\<close> does; \<open>None\<close> means it sleeps and tries again.\<close>

definition deliver_accept :: "mux_stream \<Rightarrow> session \<Rightarrow> bool option \<times> session" where
  "deliver_accept h s =
     (if \<not> ses_accept_open s then (Some False, ms_drop h s)
      else if length (ses_accept s) < DEFAULT_ACCEPT_BACKLOG
      then (Some True, s\<lparr>ses_accept := ses_accept s @ [h]\<rparr>)
      else if ses_closed s then (Some False, ms_drop h s)
      else (None, s))"

datatype reader_status = RContinue | RStop | RWaitCredit | RDeliver mux_stream

text \<open>\<^verbatim>\<open>read_exact\<close> on the bytes the peer sends before it closes the transport.\<close>

definition read_exact :: "nat \<Rightarrow> bytes \<Rightarrow> io_error + bytes \<times> bytes" where
  "read_exact n inp =
     (if n \<le> length inp then Inr (take n inp, drop n inp) else Inl (IoError UnexpectedEof ''early eof''))"

text \<open>One round of the reader's loop over the remaining input \<open>inp\<close>.\<close>

definition reader_iter :: "bytes \<Rightarrow> session \<Rightarrow> reader_status \<times> bytes \<times> session" where
  "reader_iter inp s =
     (if ses_bucket s \<le> 0 then (if ses_closed s then RStop else RWaitCredit, inp, s)
      else case read_exact HEADER_SIZE inp of
        Inl e \<Rightarrow> (RStop, inp, session_fail e s)
      | Inr (header, inp) \<Rightarrow>
          let s = s\<lparr>ses_data_ready := True\<rparr>;
              hdr = header_decode header
          in if h_version hdr \<noteq> cfg_version (ses_config s)
             then (RStop, inp, session_fail (IoError InvalidData
                     (''smux: invalid protocol version '' @ show_nat (unat (h_version hdr)))) s)
             else if h_cmd hdr = CMD_NOP then (RContinue, inp, s)
             else if h_cmd hdr = CMD_SYN
             then (if map_of (ses_streams s) (h_sid hdr) \<noteq> None then (RContinue, inp, s)
                   else let a = length (ses_heap s);
                            s = add_stream (h_sid hdr) s;
                            h = mux_stream_new a s 0
                        in case deliver_accept h s of
                             (Some True, s) \<Rightarrow> (RContinue, inp, s)
                           | (Some False, s) \<Rightarrow> (RStop, inp, s)
                           | (None, s) \<Rightarrow> (RDeliver h, inp, s))
             else if h_cmd hdr = CMD_FIN
             then (case map_of (ses_streams s) (h_sid hdr) of
                     Some a \<Rightarrow> (RContinue, inp, on_stream a set_fin s)
                   | None \<Rightarrow> (RContinue, inp, s))
             else if h_cmd hdr = CMD_PSH
             then (let len = unat (h_length hdr)
                   in if len > 0
                      then (case read_exact len inp of
                              Inl e \<Rightarrow> (RStop, inp, session_fail e s)
                            | Inr (data, inp) \<Rightarrow>
                                (case map_of (ses_streams s) (h_sid hdr) of
                                   Some a \<Rightarrow> (RContinue, inp, on_stream a (push_bytes data) (spend_tokens len s))
                                 | None \<Rightarrow> (RContinue, inp, s)))
                      else (RContinue, inp, s))
             else if h_cmd hdr = CMD_UPD
             then (case read_exact UPD_SIZE inp of
                     Inl e \<Rightarrow> (RStop, inp, session_fail e s)
                   | Inr (upd, inp) \<Rightarrow> (RContinue, inp, s))
             else (RStop, inp, session_fail (IoError InvalidData
                     (''smux: invalid protocol, unknown command '' @ show_nat (unat (h_cmd hdr)))) s))"

text \<open>The reader's loop: \<open>fuel\<close> rounds at most.\<close>

fun reader_run :: "nat \<Rightarrow> bytes \<Rightarrow> session \<Rightarrow> reader_status \<times> bytes \<times> session" where
  "reader_run 0 inp s = (RContinue, inp, s)"
| "reader_run (Suc fuel) inp s =
     (case reader_iter inp s of
        (RContinue, inp', s') \<Rightarrow> reader_run fuel inp' s'
      | r \<Rightarrow> r)"

fun encode_batch :: "mux_frame list \<Rightarrow> bytes \<Rightarrow> io_error + bytes" where
  "encode_batch [] out = Inr out"
| "encode_batch (f # fs) out =
     (case frame_encode_into f out of Inl e \<Rightarrow> Inl e | Inr out \<Rightarrow> encode_batch fs out)"

datatype writer_status = WContinue bytes | WWait | WStop

text \<open>
  One round of the writer's loop; \<open>io\<close> is the outcome of \<^verbatim>\<open>write_all\<close> and \<^verbatim>\<open>flush\<close> on the
  transport, and the bytes of a successful round are part of the status.
\<close>

definition writer_iter :: "io_error option \<Rightarrow> session \<Rightarrow> writer_status \<times> session" where
  "writer_iter io s =
     (case take_batch (ses_queue s) of
        (None, _, q) \<Rightarrow> (if q_closed q then WStop else WWait, s\<lparr>ses_queue := q\<rparr>)
      | (Some batch, ws, q) \<Rightarrow>
          let s = s\<lparr>ses_queue := q, ses_woken := ses_woken s @ ws\<rparr>
          in case encode_batch batch [] of
               Inl e \<Rightarrow> (WStop, session_fail e s)
             | Inr out \<Rightarrow>
                 (case io of
                    Some e \<Rightarrow> (WStop, session_fail e s)
                  | None \<Rightarrow>
                      let (ws, q) = mark_written (length batch) (ses_queue s)
                      in (WContinue out, s\<lparr>ses_queue := q, ses_woken := ses_woken s @ ws\<rparr>)))"

text \<open>The two branches of \<^verbatim>\<open>keepalive_task\<close>; the flag says whether the task goes on.\<close>

definition keepalive_ping :: "session \<Rightarrow> bool \<times> session" where
  "keepalive_ping s =
     (case push_ctrl (frame_new (cfg_version (ses_config s)) CMD_NOP 0) (ses_queue s) of
        (False, q) \<Rightarrow> (False, s\<lparr>ses_queue := q\<rparr>)
      | (True, q) \<Rightarrow> (\<not> ses_closed s, s\<lparr>ses_queue := q, ses_bucket_notify := True\<rparr>))"

definition keepalive_deadline :: "session \<Rightarrow> bool \<times> session" where
  "keepalive_deadline s =
     (let ready = ses_data_ready s; s = s\<lparr>ses_data_ready := False\<rparr>
      in if \<not> ready \<and> ses_bucket s > 0
         then (False, session_fail (IoError TimedOut ''smux: keepalive timeout'') s)
         else (\<not> ses_closed s, s))"

definition session_close :: "session \<Rightarrow> session" where
  "session_close s = session_fail (IoError BrokenPipe ''smux: session closed'') s"

definition accept_stream :: "session \<Rightarrow> mux_stream option \<times> session" where
  "accept_stream s = (case ses_accept s of [] \<Rightarrow> (None, s) | h # hs \<Rightarrow> (Some h, s\<lparr>ses_accept := hs\<rparr>))"

definition num_streams :: "session \<Rightarrow> nat" where
  "num_streams s = length (ses_streams s)"

section \<open>Frame lemmas\<close>

lemma wake_fields [simp]:
  "ses_config (wake w s) = ses_config s" "ses_streams (wake w s) = ses_streams s"
  "ses_bucket (wake w s) = ses_bucket s" "ses_heap (wake w s) = ses_heap s"
  "ses_queue (wake w s) = ses_queue s" "ses_closed (wake w s) = ses_closed s"
  "ses_accept (wake w s) = ses_accept s" "ses_accept_open (wake w s) = ses_accept_open s"
  "ses_error (wake w s) = ses_error s" "ses_next_stream_id (wake w s) = ses_next_stream_id s"
  "ses_go_away (wake w s) = ses_go_away s"
  by (simp_all add: wake_def split: option.splits)

lemma on_stream_fields [simp]:
  "ses_config (on_stream a f s) = ses_config s" "ses_streams (on_stream a f s) = ses_streams s"
  "ses_bucket (on_stream a f s) = ses_bucket s" "length (ses_heap (on_stream a f s)) = length (ses_heap s)"
  "ses_queue (on_stream a f s) = ses_queue s" "ses_closed (on_stream a f s) = ses_closed s"
  "ses_accept (on_stream a f s) = ses_accept s" "ses_accept_open (on_stream a f s) = ses_accept_open s"
  "ses_error (on_stream a f s) = ses_error s" "ses_next_stream_id (on_stream a f s) = ses_next_stream_id s"
  "ses_go_away (on_stream a f s) = ses_go_away s"
  by (simp_all add: on_stream_def Let_def split: prod.splits)

lemma on_stream_heap:
  "a < length (ses_heap s) \<Longrightarrow>
   ses_heap (on_stream a f s) = (ses_heap s)[a := (ses_heap s ! a)\<lparr>ss_state := snd (f (stream_at s a))\<rparr>]"
  by (simp add: on_stream_def Let_def split: prod.splits)

lemma on_stream_at:
  "a < length (ses_heap s) \<Longrightarrow>
   stream_at (on_stream a f s) b = (if b = a then snd (f (stream_at s a)) else stream_at s b)"
  by (auto simp: on_stream_heap nth_list_update)

lemma on_stream_id [simp]: "ss_id (ses_heap (on_stream a f s) ! b) = ss_id (ses_heap s ! b)"
  by (cases "a < length (ses_heap s)"; cases "b = a")
    (simp_all add: on_stream_heap, simp_all add: on_stream_def)

lemma fold_set_dead_fields [simp]:
  "ses_config (fold (\<lambda>a. on_stream a f) as s) = ses_config s"
  "ses_streams (fold (\<lambda>a. on_stream a f) as s) = ses_streams s"
  "ses_bucket (fold (\<lambda>a. on_stream a f) as s) = ses_bucket s"
  "ses_queue (fold (\<lambda>a. on_stream a f) as s) = ses_queue s"
  "ses_closed (fold (\<lambda>a. on_stream a f) as s) = ses_closed s"
  "ses_accept (fold (\<lambda>a. on_stream a f) as s) = ses_accept s"
  "ses_accept_open (fold (\<lambda>a. on_stream a f) as s) = ses_accept_open s"
  "ses_error (fold (\<lambda>a. on_stream a f) as s) = ses_error s"
  "ses_next_stream_id (fold (\<lambda>a. on_stream a f) as s) = ses_next_stream_id s"
  "length (ses_heap (fold (\<lambda>a. on_stream a f) as s)) = length (ses_heap s)"
  "ss_id (ses_heap (fold (\<lambda>a. on_stream a f) as s) ! b) = ss_id (ses_heap s ! b)"
  by (induction as arbitrary: s) simp_all

lemma snd_set_dead: "snd (set_dead st) = st\<lparr>st_dead := True, st_read_waker := None\<rparr>"
  by (simp add: set_dead_def)

lemma fold_set_dead_at:
  "stream_at (fold (\<lambda>a. on_stream a set_dead) as s) b =
     (if b \<in> set as \<and> b < length (ses_heap s) then (stream_at s b)\<lparr>st_dead := True, st_read_waker := None\<rparr>
      else stream_at s b)"
proof (induction as arbitrary: s)
  case (Cons a as)
  show ?case
  proof (cases "a < length (ses_heap s)")
    case True
    then show ?thesis by (auto simp: Cons.IH on_stream_at snd_set_dead)
  next
    case False
    then have "on_stream a set_dead s = s" by (simp add: on_stream_def)
    with False show ?thesis by (auto simp: Cons.IH)
  qed
qed simp

lemma session_fail_fields [simp]:
  "ses_config (session_fail e s) = ses_config s" "ses_bucket (session_fail e s) = ses_bucket s"
  "length (ses_heap (session_fail e s)) = length (ses_heap s)"
  "ses_accept (session_fail e s) = ses_accept s" "ses_accept_open (session_fail e s) = ses_accept_open s"
  "ses_next_stream_id (session_fail e s) = ses_next_stream_id s" "ses_closed (session_fail e s)"
  "ss_id (ses_heap (session_fail e s) ! b) = ss_id (ses_heap s ! b)"
  by (simp_all add: session_fail_def Let_def split: option.splits prod.splits)

lemma session_fail_at:
  "stream_at (session_fail e s) b =
     (if \<not> ses_closed s \<and> b \<in> snd ` set (ses_streams s) \<and> b < length (ses_heap s)
      then (stream_at s b)\<lparr>st_dead := True, st_read_waker := None\<rparr> else stream_at s b)"
  by (auto simp: session_fail_def Let_def fold_set_dead_at split: option.splits prod.splits)

lemma session_fail_streams:
  "ses_streams (session_fail e s) = (if ses_closed s then ses_streams s else [])"
  by (simp add: session_fail_def Let_def split: option.splits prod.splits)

lemma return_tokens_fields [simp]:
  "ses_config (return_tokens n s) = ses_config s" "ses_streams (return_tokens n s) = ses_streams s"
  "ses_bucket (return_tokens n s) = ses_bucket s + int n" "ses_heap (return_tokens n s) = ses_heap s"
  "ses_queue (return_tokens n s) = ses_queue s" "ses_closed (return_tokens n s) = ses_closed s"
  "ses_accept (return_tokens n s) = ses_accept s" "ses_accept_open (return_tokens n s) = ses_accept_open s"
  "ses_next_stream_id (return_tokens n s) = ses_next_stream_id s"
  by (simp_all add: return_tokens_def Let_def)

section \<open>Well-formed sessions\<close>

text \<open>
  Every stream object's buffer is consistent, and the id map has one entry per id, pointing
  to distinct objects that carry that id.
\<close>

definition session_wf :: "session \<Rightarrow> bool" where
  "session_wf s \<longleftrightarrow>
     (\<forall>a < length (ses_heap s). stream_inv (stream_at s a)) \<and>
     distinct (map fst (ses_streams s)) \<and>
     (\<forall>k a. map_of (ses_streams s) k = Some a \<longrightarrow> a < length (ses_heap s) \<and> ss_id (ses_heap s ! a) = k)"

lemma session_wf_at: "session_wf s \<Longrightarrow> a < length (ses_heap s) \<Longrightarrow> stream_inv (stream_at s a)"
  by (simp add: session_wf_def)

lemma session_wf_map:
  "session_wf s \<Longrightarrow> map_of (ses_streams s) k = Some a \<Longrightarrow> a < length (ses_heap s) \<and> ss_id (ses_heap s ! a) = k"
  by (simp add: session_wf_def)

lemma session_wf_inj:
  "session_wf s \<Longrightarrow> map_of (ses_streams s) k = Some a \<Longrightarrow> map_of (ses_streams s) k' = Some a \<Longrightarrow> k = k'"
  using session_wf_map by metis

lemma session_wf_cong:
  assumes "ses_streams t = ses_streams s" "length (ses_heap t) = length (ses_heap s)"
    and "\<And>a. a < length (ses_heap s) \<Longrightarrow> ss_id (ses_heap t ! a) = ss_id (ses_heap s ! a)"
    and "\<And>a. a < length (ses_heap s) \<Longrightarrow> stream_inv (stream_at s a) \<Longrightarrow> stream_inv (stream_at t a)"
  shows "session_wf s \<Longrightarrow> session_wf t"
  using assms unfolding session_wf_def by auto

lemma session_wf_on_stream:
  assumes "session_wf s" "stream_inv (stream_at s a) \<Longrightarrow> stream_inv (snd (f (stream_at s a)))"
  shows "session_wf (on_stream a f s)"
proof (cases "a < length (ses_heap s)")
  case True
  show ?thesis
  proof (rule session_wf_cong [OF _ _ _ _ assms(1)])
    fix b assume "b < length (ses_heap s)" "stream_inv (stream_at s b)"
    then show "stream_inv (stream_at (on_stream a f s) b)" using True assms(2) by (auto simp: on_stream_at)
  qed simp_all
qed (use assms in \<open>simp add: on_stream_def\<close>)

lemma session_wf_add_stream:
  assumes "session_wf s"
  shows "session_wf (add_stream sid s)"
proof -
  have "stream_inv (stream_at (add_stream sid s) a)" if "a < length (ses_heap (add_stream sid s))" for a
    using assms that by (auto simp: add_stream_def session_wf_def nth_append less_Suc_eq)
  moreover have "a < length (ses_heap (add_stream sid s)) \<and> ss_id (ses_heap (add_stream sid s) ! a) = k"
    if "map_of (ses_streams (add_stream sid s)) k = Some a" for k a
    using assms that session_wf_map [OF assms, of k a]
    by (auto simp: add_stream_def update_conv' nth_append stream_shared_new_def split: if_splits)
  ultimately show ?thesis using assms
    by (simp add: session_wf_def add_stream_def distinct_update)
qed

lemma session_wf_remove: "session_wf s \<Longrightarrow> session_wf (snd (remove_stream sid s))"
  by (auto simp: session_wf_def remove_stream_def delete_conv' distinct_delete split: if_splits)

lemma session_wf_fail: "session_wf s \<Longrightarrow> session_wf (session_fail e s)"
proof -
  have "stream_inv (st\<lparr>st_dead := True, st_read_waker := None\<rparr>) = stream_inv st" for st
    using flag_ops_content(4) [of st] by (simp add: snd_set_dead)
  then show "session_wf s \<Longrightarrow> session_wf (session_fail e s)"
    by (simp add: session_wf_def session_fail_at session_fail_streams)
qed

lemma poll_read_cases:
  assumes "session_wf s" "ms_state h < length (ses_heap s)" "0 < room"
  defines "st \<equiv> stream_at s (ms_state h)"
  shows "\<exists>r t. ms_poll_read w room h s = Some (r, t) \<and>
     r = (if stream_content st \<noteq> [] then Ready (Inr (take room (stream_content st)))
          else if st_fin st then Ready (Inr [])
          else if st_dead st \<or> ses_closed s then Ready (Inl (session_error s))
          else Pending) \<and>
     stream_content (stream_at t (ms_state h)) = drop room (stream_content st) \<and>
     ses_bucket t = ses_bucket s + int (min room (length (stream_content st))) \<and>
     st_read_waker (stream_at t (ms_state h)) = (if r = Pending then Some w else st_read_waker st)"
proof -
  have inv: "stream_inv st" using session_wf_at [OF assms(1,2)] by (simp add: st_def)
  obtain st' where l: "read_loop room st = Some (take room (stream_content st), st')"
      "stream_content st' = drop room (stream_content st)" "st_fin st' = st_fin st"
      "st_dead st' = st_dead st" "st_read_waker st' = st_read_waker st"
    using read_loop_correct [OF inv, of room] by auto
  have se: "session_error (on_stream a f s) = session_error s" for a f by (simp add: session_error_def)
  show ?thesis
    using l assms(2,3) by (auto simp: ms_poll_read_def Let_def on_stream_at se stream_content_def
        simp flip: st_def split: if_splits)
qed

section \<open>Properties\<close>

text \<open>What a read returns: buffered bytes first, in order and as many as fit, with their credit
  given back; end of file only after the last byte and a FIN; the session's error on a dead
  stream; otherwise the task is parked with its waker registered. No other stream changes.\<close>

theorem poll_read_spec:
  assumes "session_wf s" "ms_state h < length (ses_heap s)" "0 < room"
  defines "st \<equiv> stream_at s (ms_state h)"
  shows "\<exists>r t. ms_poll_read w room h s = Some (r, t) \<and>
     r = (if stream_content st \<noteq> [] then Ready (Inr (take room (stream_content st)))
          else if st_fin st then Ready (Inr [])
          else if st_dead st \<or> ses_closed s then Ready (Inl (session_error s))
          else Pending) \<and>
     stream_content (stream_at t (ms_state h)) = drop room (stream_content st) \<and>
     ses_bucket t = ses_bucket s + int (min room (length (stream_content st))) \<and>
     st_read_waker (stream_at t (ms_state h)) = (if r = Pending then Some w else st_read_waker st)"
  using poll_read_cases [OF assms(1-3)] unfolding st_def by blast

definition example_session :: session where
  "example_session = on_stream 0 (push_bytes [104, 105]) (add_stream 3 (projr (session_new mux_config_default False)))"

definition example_handle :: mux_stream where
  "example_handle = mux_stream_new 0 example_session 0"

lemma example_session_wf:
  "session_wf example_session" "ms_state example_handle < length (ses_heap example_session)"
  "stream_content (stream_at example_session (ms_state example_handle)) = [104, 105]"
  "\<not> ses_closed example_session"
proof -
  have n: "session_new mux_config_default False \<noteq> Inl e" for e
    by (simp add: session_new_def mux_config_verify_def mux_config_default_def
      VERSION_1_def VERSION_2_def MAX_FRAME_SIZE_def MAX_FRAME_DATA_def)
  obtain s where s: "session_new mux_config_default False = Inr s" using n by (metis old.sum.exhaust)
  then have f: "ses_heap s = []" "ses_streams s = []" "\<not> ses_closed s"
    by (auto simp: session_new_def split: sum.splits)
  then have wf: "session_wf (add_stream 3 s)" by (intro session_wf_add_stream) (simp add: session_wf_def)
  then show "session_wf example_session"
    unfolding example_session_def s using push_bytes_inv by (auto intro: session_wf_on_stream)
  have l: "length (ses_heap (add_stream 3 s)) = 1" using f by (simp add: add_stream_def)
  then show "ms_state example_handle < length (ses_heap example_session)"
    by (simp add: example_handle_def example_session_def s mux_stream_new_def)
  have "stream_at (add_stream 3 s) 0 = ss_state (stream_shared_new 3)" using f by (simp add: add_stream_def)
  then show "stream_content (stream_at example_session (ms_state example_handle)) = [104, 105]"
    using l by (simp add: example_handle_def example_session_def s mux_stream_new_def on_stream_at push_bytes_content)
  show "\<not> ses_closed example_session" using f by (simp add: example_session_def s add_stream_def)
qed

theorem poll_read_spec_witness:
  "\<exists>t. ms_poll_read 7 1 example_handle example_session = Some (Ready (Inr [104]), t) \<and>
     stream_content (stream_at t (ms_state example_handle)) = [105]"
  using poll_read_spec [OF example_session_wf(1,2), of 1 7] by (auto simp: example_session_wf(3))

text \<open>Once a session has failed, nothing waits on it: reads, writes, flushes and shutdowns on any
  handle complete at once, opening a stream gives the first recorded error, and failing again
  changes nothing.\<close>

theorem failed_session_never_pends:
  fixes s :: session and e :: io_error
  assumes "session_wf s" "ms_state h < length (ses_heap s)" "\<not> ses_closed s"
  defines "t \<equiv> session_fail e s"
  shows "(\<exists>r u. ms_poll_read w n h t = Some (r, u) \<and> r \<noteq> Pending) \<and>
    fst (ms_poll_write w buf h t) \<noteq> Pending \<and> fst (ms_poll_flush w h t) \<noteq> Pending \<and>
    fst (ms_poll_shutdown w h t) \<noteq> Pending \<and> open_stream t = (Inl (session_error t), t) \<and>
    session_error t = (case ses_error s of None \<Rightarrow> e | Some (k, m) \<Rightarrow> IoError k m) \<and>
    session_fail e' t = t"
proof -
  have c: "ses_closed t" by (simp add: t_def)
  have q: "q_closed (ses_queue t)" using assms(3)
    by (auto simp: t_def session_fail_def queue_close_def Let_def split: option.splits prod.splits if_splits)
  have er: "ses_error t = Some (case ses_error s of None \<Rightarrow> (err_kind e, err_msg e) | Some x \<Rightarrow> x)" using assms(3)
    by (auto simp: t_def session_fail_def Let_def split: option.splits prod.splits)
  have "\<exists>r u. ms_poll_read w n h t = Some (r, u) \<and> r \<noteq> Pending"
  proof (cases "n = 0")
    case False
    then show ?thesis using poll_read_cases [of t h n w] session_wf_fail [OF assms(1)] assms(2) c
      by (fastforce simp: t_def)
  qed (simp add: ms_poll_read_def)
  moreover have "fst (ms_poll_write w buf h t) \<noteq> Pending" using c by (simp add: ms_poll_write_def)
  moreover have "fst (ms_poll_flush w h t) \<noteq> Pending"
    using q by (simp add: ms_poll_flush_def poll_flushed_def)
  moreover have "fst (ms_poll_shutdown w h t) \<noteq> Pending"
    using q c by (simp add: ms_poll_shutdown_def poll_flushed_def)
  moreover have "open_stream t = (Inl (session_error t), t)" using c by (simp add: open_stream_def)
  moreover have "session_error t = (case ses_error s of None \<Rightarrow> e | Some (k, m) \<Rightarrow> IoError k m)"
    using er by (cases e) (auto simp: session_error_def split: option.splits)
  moreover have "session_fail e' t = t" using er c by (simp add: session_fail_def)
  ultimately show ?thesis by blast
qed

theorem failed_session_never_pends_witness:
  "fst (ms_poll_flush 7 example_handle (session_fail closed_err example_session)) \<noteq> Pending"
  using failed_session_never_pends [OF example_session_wf(1,2,4)] by blast

end
