(* ===== verification/MuxReceive.thy ===== *)
theory MuxReceive
  imports MuxSession
begin

text \<open>
  What a session does with the frames it receives, as a refinement: the reader task applied
  to the wire bytes of a frame sequence acts on the session exactly as the frames act on a
  map from stream ids to received bytes and end-of-stream marks. Together with the writer
  task this gives delivery from one session to its peer.
\<close>

section \<open>Specification\<close>

type_synonym recv_map = "u32 \<rightharpoonup> bytes \<times> bool"

definition recv_view :: "session \<Rightarrow> recv_map" where
  "recv_view s = (\<lambda>k. map_option (\<lambda>a. (stream_content (stream_at s a), st_fin (stream_at s a)))
                        (map_of (ses_streams s) k))"

definition recv_frame :: "mux_frame \<Rightarrow> recv_map \<Rightarrow> recv_map" where
  "recv_frame f m =
     (case m (fr_sid f) of
        None \<Rightarrow> if fr_cmd f = CMD_SYN then m(fr_sid f \<mapsto> ([], False)) else m
      | Some (bs, fin) \<Rightarrow>
          if fr_cmd f = CMD_PSH then m(fr_sid f \<mapsto> (bs @ fr_data f, fin))
          else if fr_cmd f = CMD_FIN then m(fr_sid f \<mapsto> (bs, True))
          else m)"

text \<open>The frames a version 1 session sends: its version, no window updates, valid payloads.\<close>

definition v1_frame :: "u8 \<Rightarrow> mux_frame \<Rightarrow> bool" where
  "v1_frame v f \<longleftrightarrow> frame_ok f \<and> fr_cmd f \<noteq> CMD_UPD \<and> fr_version f = v"

definition payload :: "mux_frame list \<Rightarrow> nat" where
  "payload fs = sum_list (map (\<lambda>f. length (fr_data f)) fs)"

definition frame_bytes :: "mux_frame \<Rightarrow> bytes" where
  "frame_bytes f = header_encode (frame_header f) @ fr_data f"

section \<open>One frame\<close>

lemma read_exact_append: "length xs = n \<Longrightarrow> read_exact n (xs @ ys) = Inr (xs, ys)"
  by (simp add: read_exact_def)

lemma recv_view_on_stream:
  assumes "session_wf s" "map_of (ses_streams s) k = Some a"
  shows "recv_view (on_stream a f s) =
    (recv_view s)(k \<mapsto> (stream_content (snd (f (stream_at s a))), st_fin (snd (f (stream_at s a)))))"
proof
  fix k'
  show "recv_view (on_stream a f s) k' =
    ((recv_view s)(k \<mapsto> (stream_content (snd (f (stream_at s a))), st_fin (snd (f (stream_at s a)))))) k'"
  proof (cases "map_of (ses_streams s) k'")
    case (Some b)
    then show ?thesis using assms session_wf_map [OF assms(1)] session_wf_inj [OF assms(1)]
      by (auto simp: recv_view_def on_stream_at)
  qed (use assms in \<open>auto simp: recv_view_def\<close>)
qed

lemma recv_view_add_stream:
  assumes "session_wf s" "map_of (ses_streams s) k = None"
  shows "recv_view (add_stream k s) = (recv_view s)(k \<mapsto> ([], False))"
proof
  fix k'
  show "recv_view (add_stream k s) k' = ((recv_view s)(k \<mapsto> ([], False))) k'"
    using session_wf_map [OF assms(1), of k']
    by (cases "map_of (ses_streams s) k'")
      (auto simp: recv_view_def add_stream_def update_conv' nth_append stream_shared_new_def
        stream_content_def)
qed

lemma recv_view_None: "recv_view s k = None \<longleftrightarrow> map_of (ses_streams s) k = None"
  by (simp add: recv_view_def)

text \<open>What the reader keeps while it accepts frames.\<close>

definition reader_frame_ok :: "session \<Rightarrow> nat \<Rightarrow> session \<Rightarrow> bool" where
  "reader_frame_ok s n t \<longleftrightarrow> session_wf t \<and> ses_config t = ses_config s \<and>
     ses_bucket s - int n \<le> ses_bucket t \<and> ses_accept_open t = ses_accept_open s \<and>
     length (ses_accept t) \<le> Suc (length (ses_accept s))"

lemma reader_iter_frame:
  assumes wf: "session_wf s" and f: "v1_frame (cfg_version (ses_config s)) f"
    and b: "0 < ses_bucket s" and acc: "ses_accept_open s" "length (ses_accept s) < DEFAULT_ACCEPT_BACKLOG"
  shows "\<exists>t. reader_iter (frame_bytes f @ rest) s = (RContinue, rest, t) \<and>
           recv_view t = recv_frame f (recv_view s) \<and> reader_frame_ok s (length (fr_data f)) t"
proof -
  let ?s = "s\<lparr>ses_data_ready := True\<rparr>"
  have wf': "session_wf ?s" and v': "recv_view ?s = recv_view s"
    using wf by (simp_all add: session_wf_def recv_view_def)
  have hd: "read_exact HEADER_SIZE (frame_bytes f @ rest) = Inr (header_encode (frame_header f), fr_data f @ rest)"
    by (simp add: frame_bytes_def read_exact_append HEADER_SIZE_def)
  have v: "fr_version f = cfg_version (ses_config s)" and ok: "frame_ok f" and upd: "fr_cmd f \<noteq> CMD_UPD"
    using f by (simp_all add: v1_frame_def)
  have nb: "\<not> ses_bucket s \<le> 0" using b by simp
  note start = reader_iter_def hd nb v Let_def
  consider (nop) "fr_cmd f = CMD_NOP" | (syn) "fr_cmd f = CMD_SYN" | (fin) "fr_cmd f = CMD_FIN"
    | (psh) "fr_cmd f = CMD_PSH" using frame_ok_cmd [OF ok] upd by auto
  then show ?thesis
  proof cases
    case nop
    then have "fr_data f = []" using ok by (auto simp: frame_ok_def)
    then show ?thesis using nop b wf' v' acc
      by (auto simp: start recv_frame_def reader_frame_ok_def split: option.splits)
  next
    case syn
    then have d: "fr_data f = []" using ok by (auto simp: frame_ok_def)
    show ?thesis
    proof (cases "map_of (ses_streams s) (fr_sid f)")
      case None
      let ?t = "add_stream (fr_sid f) ?s"
      let ?h = "mux_stream_new (length (ses_heap s)) ?t 0"
      have acc': "ses_accept_open ?t" "ses_accept ?t = ses_accept s" "ses_config ?t = ses_config s"
        "ses_bucket ?t = ses_bucket s" using acc by (simp_all add: add_stream_def)
      then have "reader_iter (frame_bytes f @ rest) s = (RContinue, rest, ?t\<lparr>ses_accept := ses_accept s @ [?h]\<rparr>)"
        using syn b None acc d by (simp add: start deliver_accept_def)
      moreover have "session_wf (?t\<lparr>ses_accept := ses_accept s @ [?h]\<rparr>)"
        using session_wf_add_stream [OF wf'] by (simp add: session_wf_def)
      moreover have "recv_view (?t\<lparr>ses_accept := ses_accept s @ [?h]\<rparr>) = recv_frame f (recv_view s)"
        using recv_view_add_stream [OF wf', of "fr_sid f"] None syn
        by (simp add: recv_view_def recv_frame_def)
      ultimately show ?thesis using acc' acc(1) by (simp add: reader_frame_ok_def)
    next
      case (Some a)
      then show ?thesis using syn b wf' v' acc d
        by (auto simp: start recv_frame_def reader_frame_ok_def recv_view_def)
    qed
  next
    case fin
    then have d: "fr_data f = []" using ok by (auto simp: frame_ok_def)
    show ?thesis
    proof (cases "map_of (ses_streams s) (fr_sid f)")
      case None
      then show ?thesis using fin b wf' v' d
        by (simp add: start recv_frame_def recv_view_None reader_frame_ok_def)
          (simp add: recv_view_def)
    next
      case (Some a)
      have "recv_view (on_stream a set_fin ?s) = recv_frame f (recv_view s)"
        using recv_view_on_stream [OF wf', of "fr_sid f" a set_fin] Some fin v'
        by (auto simp: recv_frame_def recv_view_def set_fin_def stream_content_def)
      moreover have "session_wf (on_stream a set_fin ?s)"
        by (rule session_wf_on_stream [OF wf']) simp
      ultimately show ?thesis using Some fin b d by (simp add: start reader_frame_ok_def)
    qed
  next
    case psh
    have len: "unat (h_length (frame_header f)) = length (fr_data f)" using frame_ok_want [OF ok] psh by simp
    show ?thesis
    proof (cases "fr_data f = []")
      case True
      then show ?thesis using psh b wf' v' len
        by (auto simp: start recv_frame_def recv_view_def reader_frame_ok_def split: option.splits)
    next
      case False
      have body: "read_exact (length (fr_data f)) (fr_data f @ rest) = Inr (fr_data f, rest)"
        by (simp add: read_exact_append)
      show ?thesis
      proof (cases "map_of (ses_streams s) (fr_sid f)")
        case None
        then show ?thesis using psh b wf' v' len False body
          by (simp add: start recv_frame_def recv_view_None reader_frame_ok_def)
            (simp add: recv_view_def)
      next
        case (Some a)
        let ?u = "spend_tokens (length (fr_data f)) ?s"
        have wfu: "session_wf ?u" and vu: "recv_view ?u = recv_view s" and fu: "ses_streams ?u = ses_streams s"
          "stream_at ?u a = stream_at s a" "ses_bucket ?u = ses_bucket s - int (length (fr_data f))"
          "ses_config ?u = ses_config s" "ses_accept_open ?u = ses_accept_open s" "ses_accept ?u = ses_accept s"
          using wf' v' by (simp_all add: spend_tokens_def session_wf_def recv_view_def)
        have inv: "stream_inv (stream_at s a)"
          using wf session_wf_map [OF wf Some] by (simp add: session_wf_def)
        have "recv_view (on_stream a (push_bytes (fr_data f)) ?u) = recv_frame f (recv_view s)"
        proof -
          have "recv_view s (fr_sid f) = Some (stream_content (stream_at s a), st_fin (stream_at s a))"
            using Some by (simp add: recv_view_def)
          then show ?thesis
            using recv_view_on_stream [OF wfu, of "fr_sid f" a "push_bytes (fr_data f)"] Some psh vu fu(1,2)
            by (simp add: recv_frame_def push_bytes_content [OF inv])
        qed
        moreover have "session_wf (on_stream a (push_bytes (fr_data f)) ?u)"
          by (rule session_wf_on_stream [OF wfu]) (rule push_bytes_inv)
        ultimately show ?thesis using Some psh b len False body fu
          by (simp add: start reader_frame_ok_def)
      qed
    qed
  qed
qed

section \<open>A sequence of frames\<close>

definition receiver_ready :: "session \<Rightarrow> mux_frame list \<Rightarrow> bool" where
  "receiver_ready s fs \<longleftrightarrow> session_wf s \<and> int (payload fs) < ses_bucket s \<and> ses_accept_open s \<and>
     length (ses_accept s) + length fs \<le> DEFAULT_ACCEPT_BACKLOG"

lemma reader_run_frames:
  assumes "receiver_ready s fs" "list_all (v1_frame (cfg_version (ses_config s))) fs"
  shows "\<exists>t. reader_run (length fs) (concat (map frame_bytes fs) @ rest) s = (RContinue, rest, t) \<and>
           session_wf t \<and> recv_view t = fold recv_frame fs (recv_view s)"
  using assms
proof (induction fs arbitrary: s)
  case Nil
  then show ?case by (simp add: receiver_ready_def)
next
  case (Cons f fs)
  note r = Cons.prems(1) [unfolded receiver_ready_def payload_def]
  obtain t where t: "reader_iter (frame_bytes f @ concat (map frame_bytes fs) @ rest) s =
      (RContinue, concat (map frame_bytes fs) @ rest, t)"
    "recv_view t = recv_frame f (recv_view s)" "reader_frame_ok s (length (fr_data f)) t"
    using reader_iter_frame [of s f "concat (map frame_bytes fs) @ rest"] r Cons.prems(2) by force
  have "receiver_ready t fs" "list_all (v1_frame (cfg_version (ses_config t))) fs"
    using t(3) r Cons.prems(2) by (auto simp: receiver_ready_def reader_frame_ok_def payload_def)
  from Cons.IH [OF this] t show ?case by auto
qed

section \<open>The writer\<close>

lemma encode_batch_ok:
  "list_all frame_ok fs \<Longrightarrow> encode_batch fs out = Inr (out @ concat (map frame_bytes fs))"
proof (induction fs arbitrary: out)
  case (Cons f fs)
  then have "frame_encode_into f out = Inr (out @ frame_bytes f)"
    using frame_ok_length [of f] by (simp add: frame_encode_into_def frame_bytes_def)
  with Cons show ?case by simp
qed simp

lemma writer_iter_sends:
  assumes "list_all frame_ok (q_ctrl (ses_queue s) @ q_data (ses_queue s))"
    and "q_ctrl (ses_queue s) @ q_data (ses_queue s) \<noteq> []"
  shows "\<exists>t. writer_iter None s =
           (WContinue (concat (map frame_bytes (q_ctrl (ses_queue s) @ q_data (ses_queue s)))), t) \<and>
           q_ctrl (ses_queue t) = [] \<and> q_data (ses_queue t) = [] \<and>
           q_written (ses_queue t) = q_written (ses_queue s) +
             length (q_ctrl (ses_queue s) @ q_data (ses_queue s))"
  using assms by (auto simp: writer_iter_def take_batch_def encode_batch_ok mark_written_def Let_def)

section \<open>Properties\<close>

text \<open>C1. Delivery between two sessions: when the writer of one session sends its queue and the
  reader of the peer, with enough credit and accept room, takes the bytes from the
  transport, the peer consumes exactly these bytes, stays well formed, and its streams hold
  exactly what the queued frames say, in order: SYN opens, PSH appends, FIN ends.\<close>

theorem mux_delivery:
  assumes "list_all (v1_frame (cfg_version (ses_config r))) (q_ctrl (ses_queue s) @ q_data (ses_queue s))"
    and "q_ctrl (ses_queue s) @ q_data (ses_queue s) \<noteq> []"
    and "receiver_ready r (q_ctrl (ses_queue s) @ q_data (ses_queue s))"
  shows "\<exists>out s' r'. writer_iter None s = (WContinue out, s') \<and>
           reader_run (length (q_ctrl (ses_queue s) @ q_data (ses_queue s))) (out @ rest) r
             = (RContinue, rest, r') \<and>
           session_wf r' \<and>
           recv_view r' = fold recv_frame (q_ctrl (ses_queue s) @ q_data (ses_queue s)) (recv_view r)"
proof -
  let ?fs = "q_ctrl (ses_queue s) @ q_data (ses_queue s)"
  have "list_all frame_ok ?fs" using assms(1) by (auto simp: list_all_iff v1_frame_def)
  then obtain s' where "writer_iter None s = (WContinue (concat (map frame_bytes ?fs)), s')"
    using writer_iter_sends assms(2) by blast
  moreover obtain r' where "reader_run (length ?fs) (concat (map frame_bytes ?fs) @ rest) r = (RContinue, rest, r')"
      "session_wf r'" "recv_view r' = fold recv_frame ?fs (recv_view r)"
    using reader_run_frames [OF assms(3,1)] by blast
  ultimately show ?thesis by blast
qed

text \<open>A client that opens a stream, writes two bytes and shuts it down, and a fresh server.\<close>

definition demo_client :: session where
  "demo_client =
     (case open_stream (projr (session_new mux_config_default True)) of
        (Inl _, s) \<Rightarrow> s
      | (Inr h, s) \<Rightarrow> (case ms_poll_write 0 [104, 105] h s of (_, h, s) \<Rightarrow> snd (send_fin h s)))"

definition demo_server :: session where
  "demo_server = projr (session_new mux_config_default False)"

lemma demo_client_queue:
  "q_ctrl (ses_queue demo_client) = []"
  "q_data (ses_queue demo_client) =
     [frame_new 1 CMD_SYN 3, frame_with_data 1 CMD_PSH 3 [104, 105], frame_new 1 CMD_FIN 3]"
  by (simp_all add: demo_client_def session_new_def mux_config_verify_def mux_config_default_def
      open_stream_def next_id_def add_stream_def force_push_data_def queue_new_def Let_def
      mux_stream_new_def stream_shared_new_def ms_poll_write_def poll_reserve_def send_queue_limit_def
      send_fin_def VERSION_1_def VERSION_2_def MAX_FRAME_SIZE_def MAX_FRAME_DATA_def
      frame_with_data_def frame_new_def)

lemma demo_server_fields:
  "ses_streams demo_server = []" "ses_heap demo_server = []" "ses_bucket demo_server = 4194304"
  "ses_accept_open demo_server" "ses_accept demo_server = []" "cfg_version (ses_config demo_server) = 1"
  by (simp_all add: demo_server_def session_new_def mux_config_verify_def mux_config_default_def
      VERSION_1_def VERSION_2_def MAX_FRAME_SIZE_def MAX_FRAME_DATA_def usize_as_i64_small)

theorem mux_delivery_witness:
  "\<exists>out s' r'. writer_iter None demo_client = (WContinue out, s') \<and>
     reader_run 3 out demo_server = (RContinue, [], r') \<and> recv_view r' 3 = Some ([104, 105], True)"
proof -
  have f: "list_all (v1_frame (cfg_version (ses_config demo_server)))
      (q_ctrl (ses_queue demo_client) @ q_data (ses_queue demo_client))"
    by (simp add: demo_client_queue demo_server_fields v1_frame_def frame_ok_def frame_new_def
        frame_with_data_def MAX_FRAME_DATA_def)
  have r: "receiver_ready demo_server (q_ctrl (ses_queue demo_client) @ q_data (ses_queue demo_client))"
    by (simp add: receiver_ready_def demo_client_queue demo_server_fields session_wf_def payload_def
        frame_new_def frame_with_data_def DEFAULT_ACCEPT_BACKLOG_def)
  have v: "fold recv_frame (q_ctrl (ses_queue demo_client) @ q_data (ses_queue demo_client))
      (recv_view demo_server) 3 = Some ([104, 105], True)"
    by (simp add: demo_client_queue recv_frame_def recv_view_def demo_server_fields frame_new_def
        frame_with_data_def)
  have n: "length (q_ctrl (ses_queue demo_client) @ q_data (ses_queue demo_client)) = 3"
    and ne: "q_ctrl (ses_queue demo_client) @ q_data (ses_queue demo_client) \<noteq> []"
    by (simp_all add: demo_client_queue)
  obtain out s' r' where "writer_iter None demo_client = (WContinue out, s')"
    "reader_run 3 (out @ []) demo_server = (RContinue, [], r')"
    "recv_view r' = fold recv_frame (q_ctrl (ses_queue demo_client) @ q_data (ses_queue demo_client))
      (recv_view demo_server)"
    using mux_delivery [OF f ne r, of "[]", unfolded n] by blast
  with v show ?thesis by (metis append_Nil2)
qed

end
