(* ===== verification/MuxSystem.thy ===== *)
theory MuxSystem
  imports MuxReceive
begin

text \<open>
  A whole session under concurrency: the reader, writer and keepalive tasks, and the tasks
  that open, accept, read, write, shut down and drop streams, interleaved in any order. The
  operations that run under one lock are single steps. Two operations of the code touch
  the shared state several times without holding a lock across them, and are split where
  another task can run in between: the reader's handling of a PSH frame (look the stream
  up, spend credit, queue the bytes) and the drop of a stream handle (queue the FIN, remove
  the id, empty the buffer, refund the credit).
\<close>

section \<open>Steps\<close>

datatype reader_pc = PcIdle | PcGot nat bytes | PcSpent nat bytes | PcDeliver mux_stream | PcDone

datatype drop_pc = DropRemove mux_stream | DropRecycle mux_stream | DropRefund nat

record mux_sys =
  my_ses :: session
  my_handles :: "mux_stream list"
  my_reader :: reader_pc
  my_drops :: "drop_pc list"

text \<open>The stream and payload the reader has in hand after it read a PSH frame for an open stream.\<close>

definition psh_target :: "bytes \<Rightarrow> session \<Rightarrow> (nat \<times> bytes \<times> bytes) option" where
  "psh_target inp s =
     (if ses_bucket s \<le> 0 then None
      else case read_exact HEADER_SIZE inp of
        Inl _ \<Rightarrow> None
      | Inr (header, inp) \<Rightarrow>
          let hdr = header_decode header
          in if h_version hdr = cfg_version (ses_config s) \<and> h_cmd hdr = CMD_PSH \<and> unat (h_length hdr) > 0
             then (case read_exact (unat (h_length hdr)) inp of
                     Inl _ \<Rightarrow> None
                   | Inr (data, inp) \<Rightarrow>
                       map_option (\<lambda>a. (a, data, inp)) (map_of (ses_streams s) (h_sid hdr)))
             else None)"

definition reader_next :: "reader_status \<Rightarrow> reader_pc" where
  "reader_next r = (case r of RContinue \<Rightarrow> PcIdle | RWaitCredit \<Rightarrow> PcIdle | RStop \<Rightarrow> PcDone
                            | RDeliver h \<Rightarrow> PcDeliver h)"

inductive mux_step :: "mux_sys \<Rightarrow> mux_sys \<Rightarrow> bool" where
  m_open: "open_stream (my_ses y) = (Inr h, s) \<Longrightarrow>
     mux_step y (y\<lparr>my_ses := s, my_handles := my_handles y @ [h]\<rparr>)"
| m_open_err: "open_stream (my_ses y) = (Inl e, s) \<Longrightarrow> mux_step y (y\<lparr>my_ses := s\<rparr>)"
| m_accept: "accept_stream (my_ses y) = (Some h, s) \<Longrightarrow>
     mux_step y (y\<lparr>my_ses := s, my_handles := my_handles y @ [h]\<rparr>)"
| m_read: "\<lbrakk>h \<in> set (my_handles y); ms_poll_read w n h (my_ses y) = Some (r, s)\<rbrakk> \<Longrightarrow>
     mux_step y (y\<lparr>my_ses := s\<rparr>)"
| m_write: "\<lbrakk>i < length (my_handles y); ms_poll_write w buf (my_handles y ! i) (my_ses y) = (r, h, s)\<rbrakk> \<Longrightarrow>
     mux_step y (y\<lparr>my_ses := s, my_handles := (my_handles y)[i := h]\<rparr>)"
| m_flush: "\<lbrakk>h \<in> set (my_handles y); ms_poll_flush w h (my_ses y) = (r, s)\<rbrakk> \<Longrightarrow>
     mux_step y (y\<lparr>my_ses := s\<rparr>)"
| m_shutdown: "\<lbrakk>i < length (my_handles y); ms_poll_shutdown w (my_handles y ! i) (my_ses y) = (r, h, s)\<rbrakk> \<Longrightarrow>
     mux_step y (y\<lparr>my_ses := s, my_handles := (my_handles y)[i := h]\<rparr>)"
| m_drop: "\<lbrakk>i < length (my_handles y); send_fin (my_handles y ! i) (my_ses y) = (h, s)\<rbrakk> \<Longrightarrow>
     mux_step y (y\<lparr>my_ses := s, my_handles := take i (my_handles y) @ drop (Suc i) (my_handles y),
                   my_drops := my_drops y @ [DropRemove h]\<rparr>)"
| m_drop_remove: "\<lbrakk>j < length (my_drops y); my_drops y ! j = DropRemove h;
      remove_stream (ms_id h) (my_ses y) = (p, s)\<rbrakk> \<Longrightarrow>
     mux_step y (y\<lparr>my_ses := s,
        my_drops := (my_drops y)[j := (if p \<noteq> None then DropRecycle h else DropRefund 0)]\<rparr>)"
| m_drop_recycle: "\<lbrakk>j < length (my_drops y); my_drops y ! j = DropRecycle h;
      n = fst (recycle (stream_at (my_ses y) (ms_state h)))\<rbrakk> \<Longrightarrow>
     mux_step y (y\<lparr>my_ses := on_stream (ms_state h) (\<lambda>st. (None, snd (recycle st))) (my_ses y),
        my_drops := (my_drops y)[j := DropRefund n]\<rparr>)"
| m_drop_refund: "\<lbrakk>j < length (my_drops y); my_drops y ! j = DropRefund n\<rbrakk> \<Longrightarrow>
     mux_step y (y\<lparr>my_ses := return_tokens n (my_ses y),
        my_drops := take j (my_drops y) @ drop (Suc j) (my_drops y)\<rparr>)"
| m_reader: "\<lbrakk>my_reader y = PcIdle; psh_target inp (my_ses y) = None;
      reader_iter inp (my_ses y) = (r, inp', s)\<rbrakk> \<Longrightarrow>
     mux_step y (y\<lparr>my_ses := s, my_reader := reader_next r\<rparr>)"
| m_reader_got: "\<lbrakk>my_reader y = PcIdle; psh_target inp (my_ses y) = Some (a, d, inp')\<rbrakk> \<Longrightarrow>
     mux_step y (y\<lparr>my_ses := (my_ses y)\<lparr>ses_data_ready := True\<rparr>, my_reader := PcGot a d\<rparr>)"
| m_reader_spend: "my_reader y = PcGot a d \<Longrightarrow>
     mux_step y (y\<lparr>my_ses := spend_tokens (length d) (my_ses y), my_reader := PcSpent a d\<rparr>)"
| m_reader_push: "my_reader y = PcSpent a d \<Longrightarrow>
     mux_step y (y\<lparr>my_ses := on_stream a (push_bytes d) (my_ses y), my_reader := PcIdle\<rparr>)"
| m_deliver: "\<lbrakk>my_reader y = PcDeliver h; deliver_accept h (my_ses y) = (Some b, s)\<rbrakk> \<Longrightarrow>
     mux_step y (y\<lparr>my_ses := s, my_reader := (if b then PcIdle else PcDone)\<rparr>)"
| m_writer: "writer_iter io (my_ses y) = (r, s) \<Longrightarrow> mux_step y (y\<lparr>my_ses := s\<rparr>)"
| m_ping: "keepalive_ping (my_ses y) = (b, s) \<Longrightarrow> mux_step y (y\<lparr>my_ses := s\<rparr>)"
| m_deadline: "keepalive_deadline (my_ses y) = (b, s) \<Longrightarrow> mux_step y (y\<lparr>my_ses := s\<rparr>)"
| m_close: "mux_step y (y\<lparr>my_ses := session_close (my_ses y)\<rparr>)"

definition mux_init :: "session \<Rightarrow> mux_sys" where
  "mux_init s = \<lparr>my_ses = s, my_handles = [], my_reader = PcIdle, my_drops = []\<rparr>"

inductive mux_reach :: "mux_config \<Rightarrow> bool \<Rightarrow> mux_sys \<Rightarrow> bool" for cfg is_client where
  mr_init: "session_new cfg is_client = Inr s \<Longrightarrow> mux_reach cfg is_client (mux_init s)"
| mr_step: "mux_reach cfg is_client y \<Longrightarrow> mux_step y z \<Longrightarrow> mux_reach cfg is_client z"

text \<open>The three steps of the reader on a PSH frame are the reader's round without interruption.\<close>

lemma psh_target_iter:
  assumes "psh_target inp s = Some (a, d, rest)"
  shows "reader_iter inp s =
    (RContinue, rest, on_stream a (push_bytes d) (spend_tokens (length d) (s\<lparr>ses_data_ready := True\<rparr>)))"
  using assms
  by (auto simp: psh_target_def reader_iter_def Let_def read_exact_def split: sum.splits if_splits)

section \<open>Credit accounting\<close>

definition held :: "session \<Rightarrow> nat" where
  "held s = sum_list (map (\<lambda>sh. st_buffered (ss_state sh)) (ses_heap s))"

definition credit_of :: "session \<Rightarrow> int" where
  "credit_of s = ses_bucket s + int (held s)"

definition handle_ok :: "mux_config \<Rightarrow> session \<Rightarrow> mux_stream \<Rightarrow> bool" where
  "handle_ok cfg s h \<longleftrightarrow> ms_state h < length (ses_heap s) \<and> ms_version h = cfg_version cfg \<and>
     ms_frame_size h = max_frame_size cfg"

definition ses_ok :: "mux_config \<Rightarrow> session \<Rightarrow> bool" where
  "ses_ok cfg s \<longleftrightarrow> ses_config s = cfg \<and> session_wf s \<and>
     list_all (v1_frame (cfg_version cfg)) (q_ctrl (ses_queue s) @ q_data (ses_queue s)) \<and>
     list_all (handle_ok cfg s) (ses_accept s)"

text \<open>What an operation that moves no credit out of the bucket keeps.\<close>

definition ses_keeps :: "mux_config \<Rightarrow> session \<Rightarrow> session \<Rightarrow> bool" where
  "ses_keeps cfg s t \<longleftrightarrow> ses_ok cfg t \<and> credit_of t = credit_of s \<and>
     length (ses_heap s) \<le> length (ses_heap t) \<and> ses_bucket s \<le> ses_bucket t"

lemma handle_ok_mono: "handle_ok cfg s h \<Longrightarrow> length (ses_heap s) \<le> length (ses_heap t) \<Longrightarrow> handle_ok cfg t h"
  by (auto simp: handle_ok_def)

lemma ses_keeps_trans: "ses_keeps cfg s t \<Longrightarrow> ses_keeps cfg t u \<Longrightarrow> ses_keeps cfg s u"
  by (auto simp: ses_keeps_def)

lemma ses_keeps_refl: "ses_ok cfg s \<Longrightarrow> ses_keeps cfg s s"
  by (simp add: ses_keeps_def)

lemma held_on_stream:
  assumes "a < length (ses_heap s)"
  shows "int (held (on_stream a f s)) =
    int (held s) + int (st_buffered (snd (f (stream_at s a)))) - int (st_buffered (stream_at s a))"
proof -
  let ?g = "\<lambda>sh. st_buffered (ss_state sh)"
  have m: "map ?g (ses_heap (on_stream a f s)) = (map ?g (ses_heap s))[a := st_buffered (snd (f (stream_at s a)))]"
    using assms by (simp add: on_stream_heap map_update)
  have "st_buffered (stream_at s a) \<le> sum_list (map ?g (ses_heap s))"
    using assms elem_le_sum_list [of a "map ?g (ses_heap s)"] by simp
  then show ?thesis using assms by (simp add: held_def m sum_list_update)
qed

text \<open>A change of the queue, of flags or of the accept queue only.\<close>

lemma ses_keeps_light:
  assumes "ses_ok cfg s" "ses_config t = ses_config s" "ses_streams t = ses_streams s"
    and "ses_heap t = ses_heap s" "ses_bucket t = ses_bucket s"
    and "list_all (v1_frame (cfg_version cfg)) (q_ctrl (ses_queue t) @ q_data (ses_queue t))"
    and "list_all (handle_ok cfg s) (ses_accept t)"
  shows "ses_keeps cfg s t"
proof -
  have "session_wf t" using assms by (simp add: ses_ok_def session_wf_def)
  then show ?thesis using assms
    by (simp add: ses_keeps_def ses_ok_def credit_of_def held_def handle_ok_def list_all_iff)
qed

lemma ses_keeps_on_stream:
  assumes "ses_ok cfg s" "a < length (ses_heap s)"
    and "st_buffered (snd (f (stream_at s a))) = st_buffered (stream_at s a)"
    and "stream_inv (stream_at s a) \<Longrightarrow> stream_inv (snd (f (stream_at s a)))"
  shows "ses_keeps cfg s (on_stream a f s)"
proof -
  have "session_wf (on_stream a f s)" using assms by (intro session_wf_on_stream) (simp_all add: ses_ok_def)
  then show ?thesis using assms held_on_stream [of a s f]
    by (simp add: ses_keeps_def ses_ok_def credit_of_def list_all_iff handle_ok_def)
qed

text \<open>Each operation in turn.\<close>

abbreviation queue_frames :: "write_queue \<Rightarrow> mux_frame list" where
  "queue_frames q \<equiv> q_ctrl q @ q_data q"

lemma queue_frames_ops:
  "force_push_data f q = (r, q') \<Longrightarrow> set (queue_frames q') \<subseteq> insert f (set (queue_frames q))"
  "push_ctrl f q = (b, q') \<Longrightarrow> set (queue_frames q') \<subseteq> insert f (set (queue_frames q))"
  "poll_reserve w q = (pr, q') \<Longrightarrow> queue_frames q' = queue_frames q"
  "poll_flushed w n q = (pf, q') \<Longrightarrow> queue_frames q' = queue_frames q"
  "queue_close q = (ws, q') \<Longrightarrow> queue_frames q' = queue_frames q"
  "take_batch q = (ob, ws, q') \<Longrightarrow> set (queue_frames q') \<subseteq> set (queue_frames q)"
  "mark_written n q = (ws, q') \<Longrightarrow> queue_frames q' = queue_frames q"
  by (auto simp: force_push_data_def push_ctrl_def poll_reserve_def poll_flushed_def queue_close_def
      take_batch_def mark_written_def split: if_splits)

lemma v1_frame_new:
  "cmd \<in> {CMD_SYN, CMD_FIN, CMD_NOP} \<Longrightarrow> v1_frame v (frame_new v cmd sid)"
  by (auto simp: v1_frame_def frame_ok_def frame_new_def)

lemma session_fail_queue: "queue_frames (ses_queue (session_fail e s)) = queue_frames (ses_queue s)"
proof -
  obtain ws q where q: "queue_close (ses_queue s) = (ws, q)" by fastforce
  then show ?thesis using queue_frames_ops(5) [OF q]
    by (simp add: session_fail_def Let_def split: option.splits)
qed

lemma held_fail: "held (session_fail e s) = held s"
proof -
  have "map (\<lambda>sh. st_buffered (ss_state sh)) (ses_heap (session_fail e s)) =
        map (\<lambda>sh. st_buffered (ss_state sh)) (ses_heap s)"
    by (rule nth_equalityI) (simp_all add: session_fail_at)
  then show ?thesis by (simp add: held_def)
qed

lemma keeps_fail: "ses_ok cfg s \<Longrightarrow> ses_keeps cfg s (session_fail e s)"
  using session_wf_fail [of s e] session_fail_queue [of e s]
  by (simp add: ses_keeps_def ses_ok_def credit_of_def held_fail handle_ok_def list_all_iff
      flip: list_all_append)

lemma keeps_queue:
  assumes "ses_ok cfg s" "list_all (v1_frame (cfg_version cfg)) (queue_frames q)"
  shows "ses_keeps cfg s (s\<lparr>ses_queue := q\<rparr>)"
  using assms by (intro ses_keeps_light) (simp_all add: ses_ok_def)

lemma ok_frames: "ses_ok cfg s \<Longrightarrow> list_all (v1_frame (cfg_version cfg)) (queue_frames (ses_queue s))"
  by (simp add: ses_ok_def)

lemma frames_push:
  "list_all P (queue_frames q) \<Longrightarrow> P f \<Longrightarrow> force_push_data f q = (r, q') \<Longrightarrow> list_all P (queue_frames q')"
  using queue_frames_ops(1) by (fastforce simp: list_all_iff)

lemma keeps_add_stream:
  assumes "ses_ok cfg s"
  shows "ses_keeps cfg s (add_stream sid s)"
proof -
  have "held (add_stream sid s) = held s" by (simp add: held_def add_stream_def stream_shared_new_def)
  then show ?thesis using assms session_wf_add_stream [of s sid]
    by (simp add: ses_keeps_def ses_ok_def credit_of_def list_all_iff handle_ok_def)
      (auto simp: add_stream_def less_SucI)
qed

lemma keeps_remove: "ses_ok cfg s \<Longrightarrow> ses_keeps cfg s (snd (remove_stream sid s))"
  using session_wf_remove [of s sid]
  by (simp add: ses_keeps_def ses_ok_def credit_of_def held_def list_all_iff handle_ok_def)
    (simp add: remove_stream_def)

lemma keeps_next_id: "ses_ok cfg s \<Longrightarrow> next_id s = (r, t) \<Longrightarrow> ses_keeps cfg s t"
  by (rule ses_keeps_light) (auto simp: ses_ok_def next_id_def Let_def split: if_splits)

lemma keeps_open:
  assumes ok: "ses_ok cfg s" and op: "open_stream s = (r, t)"
  shows "ses_keeps cfg s t \<and> (\<forall>h. r = Inr h \<longrightarrow> handle_ok cfg t h)"
proof (cases "ses_closed s \<or> (\<exists>e u. next_id s = (Inl e, u))")
  case True
  then show ?thesis using ok op keeps_next_id [OF ok] ses_keeps_refl [OF ok]
    by (auto simp: open_stream_def split: if_splits)
next
  case False
  then obtain sid u where u: "next_id s = (Inr sid, u)" by (metis old.sum.exhaust surj_pair)
  let ?v = "add_stream sid u"
  have ku: "ses_keeps cfg s u" using keeps_next_id ok u by blast
  then have kv: "ses_keeps cfg s ?v" using keeps_add_stream ses_keeps_trans ses_keeps_def by blast
  then have okv: "ses_ok cfg ?v" by (simp add: ses_keeps_def)
  obtain x q where q: "force_push_data (frame_new (cfg_version (ses_config ?v)) CMD_SYN sid) (ses_queue ?v) = (x, q)"
    by fastforce
  have "list_all (v1_frame (cfg_version cfg)) (queue_frames q)"
    using frames_push [OF ok_frames [OF okv] _ q] okv v1_frame_new [of CMD_SYN]
    by (simp add: ses_ok_def)
  then have kq: "ses_keeps cfg s (?v\<lparr>ses_queue := q\<rparr>)"
    using kv okv keeps_queue ses_keeps_trans by blast
  have kr: "ses_keeps cfg s (snd (remove_stream sid (?v\<lparr>ses_queue := q\<rparr>)))"
    using kq keeps_remove ses_keeps_trans ses_keeps_def by blast
  show ?thesis
  proof (cases x)
    case (Inl e)
    then show ?thesis using op False u q kr by (auto simp: open_stream_def Let_def)
  next
    case (Inr seq)
    then have "r = Inr (mux_stream_new (length (ses_heap u)) (?v\<lparr>ses_queue := q\<rparr>) seq)"
      "t = ?v\<lparr>ses_queue := q\<rparr>" using op False u q by (auto simp: open_stream_def Let_def)
    then show ?thesis using kq okv
      by (simp add: handle_ok_def mux_stream_new_def ses_ok_def) (simp add: add_stream_def)
  qed
qed

lemma keeps_send_fin:
  assumes "ses_ok cfg s" "ms_version h = cfg_version cfg" "send_fin h s = (h', t)"
  shows "ses_keeps cfg s t" "ms_state h' = ms_state h" "ms_version h' = ms_version h"
    "ms_frame_size h' = ms_frame_size h" "ms_id h' = ms_id h" "ses_heap t = ses_heap s"
    "ses_streams t = ses_streams s"
proof -
  obtain x q where q: "force_push_data (frame_new (ms_version h) CMD_FIN (ms_id h)) (ses_queue s) = (x, q)"
    by fastforce
  have "list_all (v1_frame (cfg_version cfg)) (queue_frames q)"
    using frames_push [OF ok_frames [OF assms(1)] _ q] v1_frame_new [of CMD_FIN] assms(2) by simp
  then have kq: "ses_keeps cfg s (s\<lparr>ses_queue := q\<rparr>)" using keeps_queue assms(1) by blast
  show "ses_keeps cfg s t" using assms(1,3) kq q ses_keeps_refl
    by (auto simp: send_fin_def Let_def split: if_splits sum.splits)
  show "ms_state h' = ms_state h" "ms_version h' = ms_version h"
    "ms_frame_size h' = ms_frame_size h" "ms_id h' = ms_id h" "ses_heap t = ses_heap s"
    "ses_streams t = ses_streams s"
    using assms(3) by (auto simp: send_fin_def Let_def split: if_splits sum.splits prod.splits)
qed

lemma ses_keeps_ok: "ses_keeps cfg s t \<Longrightarrow> ses_ok cfg t"
  by (simp add: ses_keeps_def)

lemma keeps_read:
  assumes ok: "ses_ok cfg s" and h: "handle_ok cfg s h" and rd: "ms_poll_read w room h s = Some (r, t)"
  shows "ses_keeps cfg s t"
proof (cases "room = 0")
  case False
  let ?a = "ms_state h"
  have a: "?a < length (ses_heap s)" using h by (simp add: handle_ok_def)
  have inv: "stream_inv (stream_at s ?a)" using ok a by (simp add: ses_ok_def session_wf_def)
  obtain bs st where l: "read_loop room (stream_at s ?a) = Some (bs, st)" "stream_inv st"
      "stream_content (stream_at s ?a) = bs @ stream_content st"
    using read_loop_correct [OF inv, of room] by (metis append_take_drop_id)
  let ?u = "on_stream ?a (\<lambda>_. (None, st)) s"
  have st: "int (st_buffered st) = int (st_buffered (stream_at s ?a)) - int (length bs)"
    using inv l(2,3) by (simp add: stream_inv_def)
  have "session_wf ?u" using ok l by (intro session_wf_on_stream) (simp_all add: ses_ok_def)
  then have oku: "ses_ok cfg ?u" using ok by (simp add: ses_ok_def list_all_iff handle_ok_def)
  have hu: "int (held ?u) = int (held s) - int (length bs)"
    using held_on_stream [OF a, of "\<lambda>_. (None, st)"] st by simp
  have kr: "ses_keeps cfg s (return_tokens n ?u)" if "n = length bs" for n
    using oku hu that
    by (simp add: ses_keeps_def ses_ok_def credit_of_def list_all_iff handle_ok_def session_wf_def held_def)
  have ku: "ses_keeps cfg s ?u" if "bs = []"
    using kr [of 0] that by (simp add: return_tokens_def)
  have kw: "ses_keeps cfg s (on_stream ?a (\<lambda>st. (None, st\<lparr>st_read_waker := Some w\<rparr>)) ?u)" if "bs = []"
    using a by (intro ses_keeps_trans [OF ku [OF that]] ses_keeps_on_stream oku)
      (simp_all add: stream_inv_def stream_content_def split: list.splits)
  show ?thesis using rd False l(1) kr ku kw
    by (auto simp: ms_poll_read_def Let_def split: if_splits)
qed (use assms in \<open>auto simp: ms_poll_read_def ses_keeps_refl\<close>)

lemma frames_reserve:
  "list_all P (queue_frames q) \<Longrightarrow> poll_reserve w q = (r, q') \<Longrightarrow> list_all P (queue_frames q')"
  "list_all P (queue_frames q) \<Longrightarrow> poll_flushed w n q = (f, q') \<Longrightarrow> list_all P (queue_frames q')"
  using queue_frames_ops(3,4) by metis+

lemma v1_frame_psh:
  "length d \<le> 65535 \<Longrightarrow> v1_frame v (frame_with_data v CMD_PSH sid d)"
  by (auto simp: v1_frame_def frame_ok_def frame_with_data_def MAX_FRAME_DATA_def)

lemma keeps_write:
  assumes ok: "ses_ok cfg s" and h: "handle_ok cfg s h" and fs: "max_frame_size cfg \<le> 65535"
    and wr: "ms_poll_write w buf h s = (r, h', t)"
  shows "ses_keeps cfg s t \<and> handle_ok cfg t h'"
proof -
  obtain pr q where q: "poll_reserve w (ses_queue s) = (pr, q)" by fastforce
  let ?f = "frame_with_data (ms_version h) CMD_PSH (ms_id h) (take (min (length buf) (ms_frame_size h)) buf)"
  obtain x q2 where q2: "force_push_data ?f q = (x, q2)" by fastforce
  have lq: "list_all (v1_frame (cfg_version cfg)) (queue_frames q)"
    by (rule frames_reserve(1) [OF ok_frames [OF ok] q])
  have "v1_frame (cfg_version cfg) ?f" using h fs by (auto simp: handle_ok_def intro: v1_frame_psh)
  then have lq2: "list_all (v1_frame (cfg_version cfg)) (queue_frames q2)" using frames_push [OF lq _ q2] by blast
  have k: "ses_keeps cfg s (s\<lparr>ses_queue := q\<rparr>)" "ses_keeps cfg s (s\<lparr>ses_queue := q2\<rparr>)" "ses_keeps cfg s s"
    using keeps_queue [OF ok lq] keeps_queue [OF ok lq2] ses_keeps_refl [OF ok] by auto
  show ?thesis using wr q q2 k h
    by (auto simp: ms_poll_write_def Let_def handle_ok_def split: if_splits poll.splits sum.splits)
qed

lemma keeps_flush: "ses_ok cfg s \<Longrightarrow> ms_poll_flush w h s = (r, t) \<Longrightarrow> ses_keeps cfg s t"
  using frames_reserve(2) [OF ok_frames] keeps_queue
  by (fastforce simp: ms_poll_flush_def Let_def split: prod.splits)

lemma keeps_shutdown:
  assumes ok: "ses_ok cfg s" and h: "handle_ok cfg s h" and sh: "ms_poll_shutdown w h s = (r, h', t)"
  shows "ses_keeps cfg s t \<and> handle_ok cfg t h'"
proof (cases "ses_closed s \<and> \<not> ms_fin_sent h")
  case True
  then show ?thesis using sh ok h by (auto simp: ms_poll_shutdown_def handle_ok_def ses_keeps_refl)
next
  case False
  obtain g u where g: "(if ms_fin_sent h then (h, s) else send_fin h s) = (g, u)" by fastforce
  have ku: "ses_keeps cfg s u" "handle_ok cfg u g"
    using g ok h keeps_send_fin [OF ok, of h g u] ses_keeps_refl [OF ok]
    by (auto simp: handle_ok_def split: if_splits)
  obtain x q where q: "poll_flushed w (ms_last_push g) (ses_queue u) = (x, q)" by fastforce
  have "ses_keeps cfg u (u\<lparr>ses_queue := q\<rparr>)"
    using frames_reserve(2) [OF ok_frames [OF ses_keeps_ok [OF ku(1)]] q] keeps_queue ses_keeps_ok ku(1) by blast
  then show ?thesis using sh False g q ku ses_keeps_trans [of cfg s u]
    by (auto simp: ms_poll_shutdown_def Let_def handle_ok_def split: poll.splits sum.splits)
qed

lemma keeps_recycle_refund:
  assumes ok: "ses_ok cfg s" and a: "a < length (ses_heap s)"
  shows "ses_ok cfg (on_stream a (\<lambda>st. (None, snd (recycle st))) s)"
    and "credit_of (on_stream a (\<lambda>st. (None, snd (recycle st))) s) =
           credit_of s - int (st_buffered (stream_at s a))"
proof -
  have "session_wf (on_stream a (\<lambda>st. (None, snd (recycle st))) s)"
    using ok by (intro session_wf_on_stream) (simp_all add: ses_ok_def)
  then show "ses_ok cfg (on_stream a (\<lambda>st. (None, snd (recycle st))) s)"
    using ok by (simp add: ses_ok_def list_all_iff handle_ok_def)
  show "credit_of (on_stream a (\<lambda>st. (None, snd (recycle st))) s) =
           credit_of s - int (st_buffered (stream_at s a))"
    using held_on_stream [OF a, of "\<lambda>st. (None, snd (recycle st))"] by (simp add: credit_of_def)
qed

lemma ok_return_tokens: "ses_ok cfg s \<Longrightarrow> ses_ok cfg (return_tokens n s)"
  by (simp add: ses_ok_def session_wf_def handle_ok_def list_all_iff)

lemma credit_return_tokens: "credit_of (return_tokens n s) = credit_of s + int n"
  by (simp add: credit_of_def held_def)

lemma keeps_drop:
  assumes ok: "ses_ok cfg s" and h: "handle_ok cfg s h"
  shows "ses_keeps cfg s (ms_drop h s)"
proof -
  obtain g u where g: "send_fin h s = (g, u)" by fastforce
  obtain p v where v: "remove_stream (ms_id g) u = (p, v)" by fastforce
  have hv: "ms_version h = cfg_version cfg" using h by (simp add: handle_ok_def)
  note f = keeps_send_fin [OF ok hv g]
  have kv: "ses_keeps cfg s v"
    using f(1) keeps_remove [OF ses_keeps_ok [OF f(1)], of "ms_id g"] v ses_keeps_trans by (metis snd_conv)
  have a: "ms_state g < length (ses_heap v)"
    using h f(2,6) kv by (simp add: handle_ok_def ses_keeps_def)
  let ?w = "on_stream (ms_state g) (\<lambda>st. (None, snd (recycle st))) v"
  have "ses_keeps cfg s (return_tokens (st_buffered (stream_at v (ms_state g))) ?w)"
    using keeps_recycle_refund [OF ses_keeps_ok [OF kv] a] kv
    by (simp add: ses_keeps_def ok_return_tokens credit_return_tokens)
  then show ?thesis using g v kv by (simp add: ms_drop_def Let_def)
qed

lemma keeps_accept_push:
  "ses_ok cfg s \<Longrightarrow> handle_ok cfg s h \<Longrightarrow> ses_keeps cfg s (s\<lparr>ses_accept := ses_accept s @ [h]\<rparr>)"
  by (rule ses_keeps_light) (simp_all add: ses_ok_def)

lemma keeps_deliver:
  assumes "ses_ok cfg s" "handle_ok cfg s h" "deliver_accept h s = (b, t)"
  shows "ses_keeps cfg s t"
  using assms keeps_drop keeps_accept_push ses_keeps_refl
  by (auto simp: deliver_accept_def split: if_splits)

lemma keeps_accept:
  "ses_ok cfg s \<Longrightarrow> accept_stream s = (Some h, t) \<Longrightarrow> ses_keeps cfg s t \<and> handle_ok cfg t h"
  by (auto simp: accept_stream_def ses_ok_def handle_ok_def split: list.splits intro!: ses_keeps_light)

lemma keeps_writer:
  assumes ok: "ses_ok cfg s" and wr: "writer_iter io s = (r, t)"
  shows "ses_keeps cfg s t"
proof -
  obtain ob ws q where q: "take_batch (ses_queue s) = (ob, ws, q)" by (metis prod_cases3)
  have "list_all (v1_frame (cfg_version cfg)) (queue_frames q)"
    using ok_frames [OF ok] queue_frames_ops(6) [OF q] by (auto simp: list_all_iff)
  then have k: "ses_keeps cfg s (s\<lparr>ses_queue := q, ses_woken := x\<rparr>)" "ses_keeps cfg s (s\<lparr>ses_queue := q\<rparr>)" for x
    using ok by (auto intro!: ses_keeps_light simp: ses_ok_def)
  obtain ws2 q2 where q2: "mark_written (length (the ob)) q = (ws2, q2)" by fastforce
  have k2: "ses_keeps cfg s (s\<lparr>ses_queue := q2, ses_woken := x\<rparr>)" for x
    using ok queue_frames_ops(7) [OF q2] ses_keeps_ok [OF k(2)]
    by (intro ses_keeps_light) (simp_all add: ses_ok_def)
  have kf: "ses_keeps cfg s (session_fail e (s\<lparr>ses_queue := q, ses_woken := x\<rparr>))" for e x
    using k keeps_fail ses_keeps_ok ses_keeps_trans by blast
  show ?thesis using wr q q2 k k2 kf
    by (auto simp: writer_iter_def Let_def split: option.splits sum.splits)
qed

lemma keeps_ping: "ses_ok cfg s \<Longrightarrow> keepalive_ping s = (b, t) \<Longrightarrow> ses_keeps cfg s t"
proof -
  assume ok: "ses_ok cfg s" and k: "keepalive_ping s = (b, t)"
  obtain x q where q: "push_ctrl (frame_new (cfg_version (ses_config s)) CMD_NOP 0) (ses_queue s) = (x, q)"
    by fastforce
  have "list_all (v1_frame (cfg_version cfg)) (queue_frames q)"
    using ok_frames [OF ok] queue_frames_ops(2) [OF q] v1_frame_new [of CMD_NOP] ok
    by (fastforce simp: list_all_iff ses_ok_def)
  then show "ses_keeps cfg s t" using k q ok
    by (auto simp: keepalive_ping_def ses_ok_def split: bool.splits intro!: ses_keeps_light)
qed

lemma keeps_deadline: "ses_ok cfg s \<Longrightarrow> keepalive_deadline s = (b, t) \<Longrightarrow> ses_keeps cfg s t"
proof -
  assume ok: "ses_ok cfg s" and k: "keepalive_deadline s = (b, t)"
  have "ses_keeps cfg s (s\<lparr>ses_data_ready := False\<rparr>)"
    using ok by (intro ses_keeps_light) (simp_all add: ses_ok_def)
  then show "ses_keeps cfg s t" using k keeps_fail ses_keeps_ok ses_keeps_trans
    by (fastforce simp: keepalive_deadline_def Let_def split: if_splits)
qed

lemma keeps_reader_syn:
  assumes ok: "ses_ok cfg s" and d: "deliver_accept h (add_stream sid s) = (b, t)"
    and h: "h = mux_stream_new (length (ses_heap s)) (add_stream sid s) 0"
  shows "ses_keeps cfg s t \<and> (b = None \<longrightarrow> handle_ok cfg t h)"
proof -
  have k: "ses_keeps cfg s (add_stream sid s)" by (rule keeps_add_stream [OF ok])
  have hk: "handle_ok cfg (add_stream sid s) h"
    using ses_keeps_ok [OF k] h
    by (simp add: handle_ok_def mux_stream_new_def ses_ok_def) (simp add: add_stream_def)
  have "ses_keeps cfg (add_stream sid s) t" by (rule keeps_deliver [OF ses_keeps_ok [OF k] hk d])
  then show ?thesis using k hk ses_keeps_trans handle_ok_mono by (metis ses_keeps_def)
qed

lemma keeps_reader:
  assumes ok: "ses_ok cfg s" and np: "psh_target inp s = None" and it: "reader_iter inp s = (r, inp', t)"
  shows "ses_keeps cfg s t \<and> (\<forall>h. r = RDeliver h \<longrightarrow> handle_ok cfg t h)"
proof (cases "ses_bucket s \<le> 0 \<or> (\<exists>e. read_exact HEADER_SIZE inp = Inl e)")
  case True
  then show ?thesis using it ok
    by (auto simp: reader_iter_def ses_keeps_refl keeps_fail split: if_splits)
next
  case False
  then obtain header rest where rd: "read_exact HEADER_SIZE inp = Inr (header, rest)" and b: "\<not> ses_bucket s \<le> 0"
    by (metis old.sum.exhaust surj_pair)
  let ?u = "s\<lparr>ses_data_ready := True\<rparr>"
  let ?hdr = "header_decode header"
  have ku: "ses_keeps cfg s ?u" using ok by (intro ses_keeps_light) (simp_all add: ses_ok_def)
  note oku = ses_keeps_ok [OF ku]
  have kf: "ses_keeps cfg s (session_fail e ?u)" for e
    using keeps_fail [OF oku] ku ses_keeps_trans by blast
  have kfin: "ses_keeps cfg s (on_stream a set_fin ?u)" if "map_of (ses_streams s) (h_sid ?hdr) = Some a" for a
    using that oku session_wf_map [of s "h_sid ?hdr" a] ok
    by (intro ses_keeps_trans [OF ku] ses_keeps_on_stream) (simp_all add: ses_ok_def)
  obtain d v where d: "deliver_accept (mux_stream_new (length (ses_heap ?u)) (add_stream (h_sid ?hdr) ?u) 0)
      (add_stream (h_sid ?hdr) ?u) = (d, v)" by fastforce
  note syn = keeps_reader_syn [OF oku d refl]
  have kv: "ses_keeps cfg s v" using syn ku ses_keeps_trans by blast
  show ?thesis
  proof (cases "h_version ?hdr = cfg_version (ses_config s) \<and> h_cmd ?hdr = CMD_PSH")
    case True
    then show ?thesis using it rd b np ku kf
      by (auto simp: reader_iter_def psh_target_def Let_def split: if_splits sum.splits option.splits)
  next
    case ncmd: False
    show ?thesis
    proof (cases "h_cmd ?hdr = CMD_SYN")
      case True
      then show ?thesis using it rd b ncmd ku kf d kv syn
        by (auto simp: reader_iter_def Let_def split: if_splits option.splits bool.splits)
    next
      case False
      then show ?thesis using it rd b ncmd ku kf kfin
        by (auto simp: reader_iter_def Let_def split: if_splits sum.splits option.splits)
    qed
  qed
qed

section \<open>The invariant of the whole session\<close>

definition drop_ok :: "mux_config \<Rightarrow> session \<Rightarrow> drop_pc \<Rightarrow> bool" where
  "drop_ok cfg s d = (case d of DropRemove h \<Rightarrow> handle_ok cfg s h | DropRecycle h \<Rightarrow> handle_ok cfg s h
                               | DropRefund n \<Rightarrow> True)"

definition drop_credit :: "drop_pc \<Rightarrow> nat" where
  "drop_credit d = (case d of DropRefund n \<Rightarrow> n | _ \<Rightarrow> 0)"

definition pc_credit :: "reader_pc \<Rightarrow> nat" where
  "pc_credit pc = (case pc of PcSpent a d \<Rightarrow> length d | _ \<Rightarrow> 0)"

definition pc_ok :: "mux_config \<Rightarrow> session \<Rightarrow> reader_pc \<Rightarrow> bool" where
  "pc_ok cfg s pc =
     (case pc of PcGot a d \<Rightarrow> a < length (ses_heap s) \<and> length d \<le> 65535 \<and> ses_bucket s > 0
               | PcSpent a d \<Rightarrow> a < length (ses_heap s) \<and> length d \<le> 65535
               | PcDeliver h \<Rightarrow> handle_ok cfg s h
               | _ \<Rightarrow> True)"

definition in_flight :: "mux_sys \<Rightarrow> nat" where
  "in_flight y = pc_credit (my_reader y) + sum_list (map drop_credit (my_drops y))"

definition mux_inv :: "mux_config \<Rightarrow> mux_sys \<Rightarrow> bool" where
  "mux_inv cfg y \<longleftrightarrow>
     ses_ok cfg (my_ses y) \<and> list_all (handle_ok cfg (my_ses y)) (my_handles y) \<and>
     list_all (drop_ok cfg (my_ses y)) (my_drops y) \<and> pc_ok cfg (my_ses y) (my_reader y) \<and>
     credit_of (my_ses y) + int (in_flight y) = usize_as_i64 (max_receive_buffer cfg) \<and>
     ses_bucket (my_ses y) > min (usize_as_i64 (max_receive_buffer cfg)) 0 - 65535"

lemmas mux_pc_defs = drop_ok_def drop_credit_def pc_credit_def pc_ok_def in_flight_def

lemma drop_ok_mono: "drop_ok cfg s d \<Longrightarrow> length (ses_heap s) \<le> length (ses_heap t) \<Longrightarrow> drop_ok cfg t d"
  by (auto simp: drop_ok_def handle_ok_mono split: drop_pc.splits)

lemma pc_ok_mono: "pc_ok cfg s pc \<Longrightarrow> ses_keeps cfg s t \<Longrightarrow> pc_ok cfg t pc"
  by (auto simp: pc_ok_def ses_keeps_def intro: handle_ok_mono split: reader_pc.splits)

text \<open>A step whose effect on the session moves no credit, in terms of the new task states.\<close>

lemma mux_inv_keeps:
  assumes "mux_inv cfg y" "ses_keeps cfg (my_ses y) s" "list_all (handle_ok cfg s) hs"
    and "pc_ok cfg s pc" "list_all (drop_ok cfg s) ds"
    and "pc_credit pc + sum_list (map drop_credit ds) = in_flight y"
  shows "mux_inv cfg \<lparr>my_ses = s, my_handles = hs, my_reader = pc, my_drops = ds\<rparr>"
  using assms by (auto simp: mux_inv_def ses_keeps_def in_flight_def)

lemma mux_inv_ses:
  assumes "mux_inv cfg y" "ses_keeps cfg (my_ses y) s"
  shows "mux_inv cfg (y\<lparr>my_ses := s\<rparr>)"
    and "list_all (handle_ok cfg s) (my_handles y)" "list_all (drop_ok cfg s) (my_drops y)"
    and "pc_ok cfg s (my_reader y)"
proof -
  have l: "length (ses_heap (my_ses y)) \<le> length (ses_heap s)" using assms by (simp add: ses_keeps_def)
  show hs: "list_all (handle_ok cfg s) (my_handles y)" "list_all (drop_ok cfg s) (my_drops y)"
    "pc_ok cfg s (my_reader y)"
    using assms handle_ok_mono [OF _ l] drop_ok_mono [OF _ l] pc_ok_mono
    by (auto simp: mux_inv_def list_all_iff)
  show "mux_inv cfg (y\<lparr>my_ses := s\<rparr>)"
    using mux_inv_keeps [OF assms hs(1,3,2)] by (cases y) (simp add: in_flight_def)
qed

lemma mux_inv_handles:
  assumes "mux_inv cfg y" "ses_keeps cfg (my_ses y) s" "set hs \<subseteq> insert h (set (my_handles y))" "handle_ok cfg s h"
  shows "mux_inv cfg (y\<lparr>my_ses := s, my_handles := hs\<rparr>)"
proof -
  have "list_all (handle_ok cfg s) hs"
    using assms(3,4) mux_inv_ses(2) [OF assms(1,2)] by (auto simp: list_all_iff)
  then show ?thesis using mux_inv_ses(1) [OF assms(1,2)] by (simp add: mux_inv_def in_flight_def)
qed

lemma mux_inv_reader:
  assumes "mux_inv cfg y" "ses_keeps cfg (my_ses y) s" "pc_ok cfg s pc" "pc_credit pc = pc_credit (my_reader y)"
  shows "mux_inv cfg (y\<lparr>my_ses := s, my_reader := pc\<rparr>)"
  using mux_inv_ses(1) [OF assms(1,2)] assms(3,4) by (simp add: mux_inv_def in_flight_def)

lemma sum_list_remove_nth:
  "j < length xs \<Longrightarrow> sum_list (map f (take j xs @ drop (Suc j) xs)) + f (xs ! j) = (sum_list (map f xs) :: nat)"
  by (subst (3) id_take_nth_drop [of j xs]) simp_all

lemma sum_list_update_map:
  "j < length xs \<Longrightarrow> sum_list (map f (xs[j := x])) + f (xs ! j) = (sum_list (map f xs) + f x :: nat)"
  using elem_le_sum_list [of j "map f xs"] by (simp add: map_update sum_list_update)

lemma set_remove_nth: "set (take j xs @ drop (Suc j) xs) \<subseteq> set xs"
  by (auto dest: in_set_takeD in_set_dropD)

text \<open>The steps of a drop and of the reader on a PSH frame, which do move credit.\<close>

lemma mux_inv_drop_start:
  assumes inv: "mux_inv cfg y" and i: "i < length (my_handles y)"
    and f: "send_fin (my_handles y ! i) (my_ses y) = (h, s)"
  shows "mux_inv cfg (y\<lparr>my_ses := s, my_handles := take i (my_handles y) @ drop (Suc i) (my_handles y),
                   my_drops := my_drops y @ [DropRemove h]\<rparr>)"
proof -
  have hi: "handle_ok cfg (my_ses y) (my_handles y ! i)"
    using inv i by (simp add: mux_inv_def list_all_length)
  have ok: "ses_ok cfg (my_ses y)" using inv by (simp add: mux_inv_def)
  have v: "ms_version (my_handles y ! i) = cfg_version cfg" using hi by (simp add: handle_ok_def)
  note k = keeps_send_fin [OF ok v f]
  have h: "handle_ok cfg s h" using k hi by (simp add: handle_ok_def)
  have "list_all (handle_ok cfg s) (take i (my_handles y) @ drop (Suc i) (my_handles y))"
    using mux_inv_ses(2) [OF inv k(1)] set_remove_nth by (metis list_all_iff subsetD)
  then show ?thesis using mux_inv_ses(1,3) [OF inv k(1)] h
    by (simp add: mux_inv_def mux_pc_defs)
qed

lemma mux_inv_drop_remove:
  assumes inv: "mux_inv cfg y" and j: "j < length (my_drops y)" "my_drops y ! j = DropRemove h"
    and r: "remove_stream (ms_id h) (my_ses y) = (p, s)"
  shows "mux_inv cfg (y\<lparr>my_ses := s,
        my_drops := (my_drops y)[j := (if p \<noteq> None then DropRecycle h else DropRefund 0)]\<rparr>)"
proof -
  let ?d = "if p \<noteq> None then DropRecycle h else DropRefund 0"
  have k: "ses_keeps cfg (my_ses y) s"
    using keeps_remove [of cfg "my_ses y" "ms_id h"] r inv by (simp add: mux_inv_def)
  note m = mux_inv_ses [OF inv k]
  have "drop_ok cfg s (my_drops y ! j)" using m(3) j(1) by (simp add: list_all_length)
  then have "drop_ok cfg s ?d" using j(2) by (simp add: drop_ok_def)
  then have "list_all (drop_ok cfg s) ((my_drops y)[j := ?d])"
    using m(3) set_update_subset_insert [of "my_drops y" j ?d] by (auto simp: list_all_iff)
  moreover have "sum_list (map drop_credit ((my_drops y)[j := ?d])) = sum_list (map drop_credit (my_drops y))"
    using sum_list_update_map [OF j(1), of drop_credit ?d] j(2) by (simp add: drop_credit_def)
  ultimately show ?thesis using m(1) by (simp add: mux_inv_def in_flight_def)
qed

lemma mux_inv_drop_recycle:
  assumes inv: "mux_inv cfg y" and j: "j < length (my_drops y)" "my_drops y ! j = DropRecycle h"
  shows "mux_inv cfg (y\<lparr>my_ses := on_stream (ms_state h) (\<lambda>st. (None, snd (recycle st))) (my_ses y),
        my_drops := (my_drops y)[j := DropRefund (st_buffered (stream_at (my_ses y) (ms_state h)))]\<rparr>)"
proof -
  let ?n = "st_buffered (stream_at (my_ses y) (ms_state h))"
  let ?t = "on_stream (ms_state h) (\<lambda>st. (None, snd (recycle st))) (my_ses y)"
  let ?ds = "(my_drops y)[j := DropRefund ?n]"
  have ok: "ses_ok cfg (my_ses y)" using inv by (simp add: mux_inv_def)
  have "drop_ok cfg (my_ses y) (my_drops y ! j)" using inv j(1) by (simp add: mux_inv_def list_all_length)
  then have a: "ms_state h < length (ses_heap (my_ses y))" using j(2) by (simp add: drop_ok_def handle_ok_def)
  note k = keeps_recycle_refund [OF ok a]
  have "drop_ok cfg ?t d" if "d \<in> set ?ds" for d
    using that inv set_update_subset_insert [of "my_drops y" j "DropRefund ?n"] drop_ok_mono [of cfg "my_ses y" d ?t]
    by (auto simp: mux_inv_def list_all_iff drop_ok_def)
  then have ds: "list_all (drop_ok cfg ?t) ?ds" by (simp add: list_all_iff)
  have c: "sum_list (map drop_credit ?ds) = sum_list (map drop_credit (my_drops y)) + ?n"
    using sum_list_update_map [OF j(1), of drop_credit "DropRefund ?n"] j(2) by (simp add: drop_credit_def)
  have "pc_ok cfg ?t (my_reader y)" "list_all (handle_ok cfg ?t) (my_handles y)"
    using inv by (auto simp: mux_inv_def pc_ok_def handle_ok_def list_all_iff split: reader_pc.splits)
  then show ?thesis using inv k ds c by (simp add: mux_inv_def in_flight_def)
qed

lemma mux_inv_drop_refund:
  assumes inv: "mux_inv cfg y" and j: "j < length (my_drops y)" "my_drops y ! j = DropRefund n"
  shows "mux_inv cfg (y\<lparr>my_ses := return_tokens n (my_ses y),
        my_drops := take j (my_drops y) @ drop (Suc j) (my_drops y)\<rparr>)"
proof -
  let ?t = "return_tokens n (my_ses y)"
  let ?ds = "take j (my_drops y) @ drop (Suc j) (my_drops y)"
  have c: "sum_list (map drop_credit ?ds) + n = sum_list (map drop_credit (my_drops y))"
    using sum_list_remove_nth [OF j(1), of drop_credit] j(2) by (simp add: drop_credit_def)
  have o: "drop_ok cfg ?t d = drop_ok cfg (my_ses y) d" "handle_ok cfg ?t h = handle_ok cfg (my_ses y) h" for d h
    by (simp_all add: drop_ok_def handle_ok_def split: drop_pc.splits)
  have "list_all (drop_ok cfg ?t) ?ds"
    using inv set_remove_nth [of j "my_drops y"] unfolding mux_inv_def list_all_iff o by blast
  moreover have "list_all (handle_ok cfg ?t) (my_handles y)" "pc_ok cfg ?t (my_reader y)"
    using inv by (auto simp: mux_inv_def list_all_iff o pc_ok_def split: reader_pc.splits)
  ultimately show ?thesis using inv c
    by (simp add: mux_inv_def in_flight_def credit_return_tokens ok_return_tokens del: map_append)
qed

lemma psh_target_props:
  assumes "psh_target inp s = Some (a, d, rest)"
  shows "\<exists>k. map_of (ses_streams s) k = Some a" "length d \<le> 65535" "0 < length d" "ses_bucket s > 0"
proof -
  show "\<exists>k. map_of (ses_streams s) k = Some a" "ses_bucket s > 0" "0 < length d"
    using assms by (auto simp: psh_target_def Let_def read_exact_def split: if_splits sum.splits)
  have "length d \<le> unat (h_length (header_decode (take HEADER_SIZE inp)))"
    using assms by (auto simp: psh_target_def Let_def read_exact_def split: if_splits sum.splits)
  also have "\<dots> \<le> 65535" using unsigned_less [of "h_length (header_decode (take HEADER_SIZE inp))", where ?'a = nat] by simp
  finally show "length d \<le> 65535" .
qed

lemma mux_inv_psh:
  assumes inv: "mux_inv cfg y"
  shows "my_reader y = PcIdle \<Longrightarrow> psh_target inp (my_ses y) = Some (a, d, inp') \<Longrightarrow>
      mux_inv cfg (y\<lparr>my_ses := (my_ses y)\<lparr>ses_data_ready := True\<rparr>, my_reader := PcGot a d\<rparr>)"
    and "my_reader y = PcGot a d \<Longrightarrow>
      mux_inv cfg (y\<lparr>my_ses := spend_tokens (length d) (my_ses y), my_reader := PcSpent a d\<rparr>)"
    and "my_reader y = PcSpent a d \<Longrightarrow>
      mux_inv cfg (y\<lparr>my_ses := on_stream a (push_bytes d) (my_ses y), my_reader := PcIdle\<rparr>)"
proof -
  have ok: "ses_ok cfg (my_ses y)" using inv by (simp add: mux_inv_def)
  show "mux_inv cfg (y\<lparr>my_ses := (my_ses y)\<lparr>ses_data_ready := True\<rparr>, my_reader := PcGot a d\<rparr>)"
    if "my_reader y = PcIdle" "psh_target inp (my_ses y) = Some (a, d, inp')"
  proof (rule mux_inv_reader [OF inv])
    show "ses_keeps cfg (my_ses y) ((my_ses y)\<lparr>ses_data_ready := True\<rparr>)"
      using ok by (intro ses_keeps_light) (simp_all add: ses_ok_def)
  qed (use that psh_target_props [OF that(2)] session_wf_map [of "my_ses y"] ok in
        \<open>auto simp: pc_ok_def pc_credit_def ses_ok_def\<close>)
  show "mux_inv cfg (y\<lparr>my_ses := spend_tokens (length d) (my_ses y), my_reader := PcSpent a d\<rparr>)"
    if "my_reader y = PcGot a d"
    using inv that by (auto simp: mux_inv_def mux_pc_defs ses_ok_def session_wf_def handle_ok_def list_all_iff
        credit_of_def held_def spend_tokens_def split: drop_pc.splits)
  show "mux_inv cfg (y\<lparr>my_ses := on_stream a (push_bytes d) (my_ses y), my_reader := PcIdle\<rparr>)"
    if "my_reader y = PcSpent a d"
  proof -
    have a: "a < length (ses_heap (my_ses y))" using inv that by (simp add: mux_inv_def pc_ok_def)
    have "session_wf (on_stream a (push_bytes d) (my_ses y))"
      using ok push_bytes_inv by (intro session_wf_on_stream) (simp_all add: ses_ok_def)
    then show ?thesis using inv that held_on_stream [OF a, of "push_bytes d"]
      by (auto simp: mux_inv_def mux_pc_defs ses_ok_def handle_ok_def list_all_iff
          credit_of_def split: drop_pc.splits)
  qed
qed

lemma mux_inv_step:
  assumes "mux_inv cfg y" "mux_step y z" "max_frame_size cfg \<le> 65535"
  shows "mux_inv cfg z"
proof -
  have ok: "ses_ok cfg (my_ses y)" using assms(1) by (simp add: mux_inv_def)
  have hs: "handle_ok cfg (my_ses y) h" if "h \<in> set (my_handles y)" for h
    using assms(1) that by (simp add: mux_inv_def list_all_iff)
  have up: "set ((my_handles y)[i := h]) \<subseteq> insert h (set (my_handles y))" for i h
    by (rule set_update_subset_insert)
  show ?thesis using assms(2)
  proof cases
    case (m_open h s)
    then show ?thesis using keeps_open [OF ok m_open(2)]
      by (auto intro!: mux_inv_handles [OF assms(1)])
  next
    case (m_accept h s)
    then show ?thesis using keeps_accept [OF ok m_accept(2)]
      by (auto intro!: mux_inv_handles [OF assms(1)])
  next
    case (m_write i w buf r h s)
    then show ?thesis using keeps_write [OF ok hs assms(3) m_write(3)] up
      by (auto intro!: mux_inv_handles [OF assms(1), where h = h] dest: subsetD)
  next
    case (m_shutdown i w r h s)
    then show ?thesis using keeps_shutdown [OF ok hs m_shutdown(3)] up
      by (auto intro!: mux_inv_handles [OF assms(1), where h = h] dest: subsetD)
  next
    case (m_reader inp r inp' s)
    then show ?thesis using keeps_reader [OF ok m_reader(3,4)]
      by (auto intro!: mux_inv_reader [OF assms(1)] simp: reader_next_def pc_ok_def pc_credit_def
          split: reader_status.splits)
  next
    case (m_drop_remove j h p s)
    then show ?thesis using mux_inv_drop_remove [OF assms(1) m_drop_remove(2,3,4)] by simp
  next
    case (m_deliver h b s)
    moreover have "handle_ok cfg (my_ses y) h" using m_deliver assms(1) by (simp add: mux_inv_def pc_ok_def)
    ultimately show ?thesis using keeps_deliver [OF ok _ m_deliver(3)]
      by (auto intro!: mux_inv_reader [OF assms(1)] simp: pc_ok_def pc_credit_def)
  qed (use assms(1) ok hs in \<open>auto intro!: mux_inv_ses(1) mux_inv_drop_start mux_inv_drop_remove
      mux_inv_drop_recycle mux_inv_drop_refund mux_inv_psh
      intro: keeps_open [THEN conjunct1] keeps_read keeps_flush keeps_writer keeps_ping keeps_deadline
      simp: session_close_def keeps_fail\<close>)
qed

lemma session_new_fields:
  assumes "session_new cfg is_client = Inr s"
  shows "mux_config_verify cfg = Inr ()" "ses_config s = cfg" "ses_heap s = []" "ses_streams s = []"
    "ses_accept s = []" "ses_queue s = queue_new (send_queue_limit cfg)"
    "ses_bucket s = usize_as_i64 (max_receive_buffer cfg)" "\<not> ses_closed s" "\<not> ses_go_away s"
    "ses_next_stream_id s = (if is_client then 1 else 0)"
  using assms by (auto simp: session_new_def split: sum.splits)

lemma mux_inv_init: "session_new cfg is_client = Inr s \<Longrightarrow> mux_inv cfg (mux_init s)"
  by (simp add: mux_inv_def mux_init_def mux_pc_defs ses_ok_def session_wf_def credit_of_def held_def
      session_new_fields queue_new_def)

lemma mux_reach_inv: "mux_reach cfg is_client y \<Longrightarrow> mux_inv cfg y \<and> max_frame_size cfg \<le> 65535"
proof (induction rule: mux_reach.induct)
  case (mr_init s)
  then show ?case using mux_inv_init [OF mr_init] session_new_fields(1) [OF mr_init]
    by (auto simp: mux_config_verify_ok MAX_FRAME_DATA_def)
next
  case (mr_step y z)
  then show ?case using mux_inv_step by blast
qed

section \<open>Stream ids\<close>

text \<open>
  The ids a session hands out, in terms of the number of streams it has opened: the first
  id is 3 for a client and 2 for a server, each further id is two more, and the counter never
  wraps round to an id in use.
\<close>

definition id_of :: "bool \<Rightarrow> nat \<Rightarrow> nat" where
  "id_of is_client n = (if is_client then 1 else 0) + 2 * n"

fun next_ids :: "nat \<Rightarrow> session \<Rightarrow> (io_error + u32) list \<times> session" where
  "next_ids 0 s = ([], s)"
| "next_ids (Suc n) s = (let (rs, t) = next_ids n s; (r, u) = next_id t in (rs @ [r], u))"

lemma next_id_exact:
  assumes "\<not> ses_go_away s"
  shows "next_id s =
    (let sid = ses_next_stream_id s + 2
     in if unat (ses_next_stream_id s) + 2 < 2 ^ 32 then (Inr sid, s\<lparr>ses_next_stream_id := sid\<rparr>)
        else (Inl (IoError Other ''smux: stream id overflow, no more streams''),
              s\<lparr>ses_next_stream_id := sid, ses_go_away := True\<rparr>))"
proof -
  let ?n = "ses_next_stream_id s"
  have u: "unat (?n + 2) = (unat ?n + 2) mod 2 ^ 32" by (simp add: unat_word_ariths)
  have lt: "unat ?n < 2 ^ 32" using unsigned_less [of ?n, where ?'a = nat] by simp
  have "(?n + 2 = (?n + 2) mod 2) \<longleftrightarrow> unat (?n + 2) < 2"
    by (simp add: word_unat_eq_iff unat_mod_distrib) presburger
  also have "\<dots> \<longleftrightarrow> \<not> unat ?n + 2 < 2 ^ 32" using lt unfolding u by (auto simp: mod_if)
  finally show ?thesis using assms by (simp add: next_id_def Let_def)
qed

abbreviation id_overflow :: io_error where
  "id_overflow \<equiv> IoError Other ''smux: stream id overflow, no more streams''"

lemma next_ids_run:
  assumes s: "ses_next_stream_id s = (if ic then 1 else 0)" "\<not> ses_go_away s"
    and run: "next_ids k s = (rs, t)"
  shows "rs = map (\<lambda>n. if id_of ic (Suc n) < 2 ^ 32 then Inr (of_nat (id_of ic (Suc n))) else Inl id_overflow) [0..<k] \<and>
    (if id_of ic k < 2 ^ 32 then \<not> ses_go_away t \<and> unat (ses_next_stream_id t) = id_of ic k else ses_go_away t)"
  using run
proof (induction k arbitrary: rs t)
  case 0
  then show ?case using s by (simp add: id_of_def)
next
  case (Suc k)
  obtain rs' t' where k: "next_ids k s = (rs', t')" by fastforce
  obtain r where r: "next_id t' = (r, t)" "rs = rs' @ [r]"
    using Suc.prems k by (auto simp: Let_def split: prod.splits)
  note ih = Suc.IH [OF k]
  have st: "id_of ic (Suc k) = id_of ic k + 2" by (simp add: id_of_def)
  show ?case
  proof (cases "id_of ic k < 2 ^ 32")
    case True
    then have t': "\<not> ses_go_away t'" "unat (ses_next_stream_id t') = id_of ic k" using ih by auto
    then have w: "ses_next_stream_id t' + 2 = of_nat (id_of ic (Suc k))"
      unfolding st by (simp flip: t'(2))
    have u: "unat (of_nat (id_of ic (Suc k)) :: u32) = id_of ic (Suc k)" if "id_of ic (Suc k) < 2 ^ 32"
      using that by (simp add: unat_of_nat take_bit_eq_mod)
    show ?thesis using r ih t'(1) next_id_exact [OF t'(1)] u
      unfolding w t'(2) st [symmetric] by (auto simp: Let_def split: if_splits)
  next
    case False
    then show ?thesis using r ih by (auto simp: next_id_def st)
  qed
qed

section \<open>Properties\<close>

text \<open>C27. The ids a session gives its streams: the n-th is 2n + 1 on the client and 2n on the server,
  so both sides never clash and no id repeats, until the 32-bit counter is used up; from then
  on every request is refused.\<close>

theorem stream_ids_exact:
  assumes "session_new cfg is_client = Inr s"
  shows "fst (next_ids k s) =
    map (\<lambda>n. if id_of is_client (Suc n) < 2 ^ 32 then Inr (of_nat (id_of is_client (Suc n)))
              else Inl (IoError Other ''smux: stream id overflow, no more streams'')) [0..<k]"
  using next_ids_run [of s is_client k "fst (next_ids k s)" "snd (next_ids k s)"] session_new_fields(9,10) [OF assms]
  by simp

theorem stream_ids_exact_witness:
  "fst (next_ids 2 (projr (session_new mux_config_default True))) = [Inr 3, Inr 5]"
proof -
  have "session_new mux_config_default True = Inr (projr (session_new mux_config_default True))"
    by (simp add: session_new_def mux_config_verify_def mux_config_default_def
      VERSION_1_def VERSION_2_def MAX_FRAME_SIZE_def MAX_FRAME_DATA_def)
  from stream_ids_exact [OF this, of 2] show ?thesis by (simp add: id_of_def upt_rec)
qed

end
