(* ===== verification/MuxCredit.thy ===== *)
theory MuxCredit
  imports MuxSystem
begin

text \<open>
  Where receive credit can go: the race between the reader task and the drop of a stream
  handle. An object that nothing refers to any more can never be read or emptied again, so
  the credit for the bytes queued on it is lost to the session.
\<close>

section \<open>Objects nothing refers to\<close>

text \<open>
  The objects that a map entry, a handle, a queued handle or a task refers to. An object
  outside this set is freed by the code; in the model it keeps its last state for ever.
\<close>

definition ses_refs :: "session \<Rightarrow> nat set" where
  "ses_refs s = snd ` set (ses_streams s) \<union> ms_state ` set (ses_accept s)"

definition drop_refs :: "drop_pc \<Rightarrow> nat set" where
  "drop_refs d = (case d of DropRemove h \<Rightarrow> {ms_state h} | DropRecycle h \<Rightarrow> {ms_state h} | _ \<Rightarrow> {})"

definition pc_refs :: "reader_pc \<Rightarrow> nat set" where
  "pc_refs pc = (case pc of PcGot a _ \<Rightarrow> {a} | PcSpent a _ \<Rightarrow> {a} | PcDeliver h \<Rightarrow> {ms_state h} | _ \<Rightarrow> {})"

definition mux_refs :: "mux_sys \<Rightarrow> nat set" where
  "mux_refs y = ses_refs (my_ses y) \<union> ms_state ` set (my_handles y) \<union>
     (\<Union>d \<in> set (my_drops y). drop_refs d) \<union> pc_refs (my_reader y)"

definition orphan :: "nat \<Rightarrow> mux_sys \<Rightarrow> bool" where
  "orphan a y \<longleftrightarrow> a < length (ses_heap (my_ses y)) \<and> a \<notin> mux_refs y"

text \<open>An operation leaves the object \<open>a\<close> alone, and refers to no older object it did not refer to.\<close>

definition spares :: "nat \<Rightarrow> session \<Rightarrow> session \<Rightarrow> bool" where
  "spares a s t \<longleftrightarrow> a < length (ses_heap s) \<and> length (ses_heap s) \<le> length (ses_heap t) \<and>
     stream_at t a = stream_at s a \<and> (a \<notin> ses_refs s \<longrightarrow> a \<notin> ses_refs t)"

lemma spares_refl: "a < length (ses_heap s) \<Longrightarrow> spares a s s"
  by (simp add: spares_def)

lemma spares_trans: "spares a s t \<Longrightarrow> spares a t u \<Longrightarrow> spares a s u"
  by (auto simp: spares_def)

lemma spares_light:
  "a < length (ses_heap s) \<Longrightarrow> ses_heap t = ses_heap s \<Longrightarrow> ses_refs t \<subseteq> ses_refs s \<Longrightarrow> spares a s t"
  by (auto simp: spares_def)

lemma spares_on_stream:
  "a < length (ses_heap s) \<Longrightarrow> b \<noteq> a \<Longrightarrow> spares a s (on_stream b f s)"
  by (cases "b < length (ses_heap s)") (simp_all add: spares_def on_stream_at ses_refs_def, simp add: on_stream_def)

lemma spares_fail: "a < length (ses_heap s) \<Longrightarrow> a \<notin> ses_refs s \<Longrightarrow> spares a s (session_fail e s)"
  by (auto simp: spares_def session_fail_at session_fail_streams ses_refs_def)

lemma spares_return: "a < length (ses_heap s) \<Longrightarrow> spares a s (return_tokens n s)"
  by (simp add: spares_def ses_refs_def)

lemma spares_remove: "a < length (ses_heap s) \<Longrightarrow> spares a s (snd (remove_stream sid s))"
  by (auto intro!: spares_light simp: remove_stream_def ses_refs_def AList.delete_eq)

lemma set_alist_update: "set (AList.update k v al) \<subseteq> insert (k, v) (set al)"
  by (induction al) auto

lemma spares_add_stream: "a < length (ses_heap s) \<Longrightarrow> spares a s (add_stream sid s)"
  using set_alist_update [of sid "length (ses_heap s)" "ses_streams s"]
  by (fastforce simp: spares_def add_stream_def ses_refs_def nth_append)

lemma spares_send_fin: "a < length (ses_heap s) \<Longrightarrow> send_fin h s = (h', t) \<Longrightarrow> spares a s t \<and> ms_state h' = ms_state h"
  by (auto intro!: spares_light simp: send_fin_def ses_refs_def Let_def split: if_splits sum.splits prod.splits)

lemma spares_drop:
  assumes "a < length (ses_heap s)" "ms_state h \<noteq> a"
  shows "spares a s (ms_drop h s)"
proof -
  obtain g u where g: "send_fin h s = (g, u)" by fastforce
  obtain p v where v: "remove_stream (ms_id g) u = (p, v)" by fastforce
  have "spares a s u" "ms_state g \<noteq> a" using spares_send_fin [OF assms(1) g] assms(2) by auto
  moreover have "spares a u v" using calculation spares_remove [of a u "ms_id g"] v by (simp add: spares_def)
  ultimately have sv: "spares a s v" using spares_trans by blast
  then have "a < length (ses_heap v)" by (simp add: spares_def)
  then have "spares a v (return_tokens n (on_stream (ms_state g) f v))" for n f
    using spares_on_stream spares_return \<open>ms_state g \<noteq> a\<close> by (metis spares_trans on_stream_fields(4))
  then show ?thesis using sv g v spares_trans by (auto simp: ms_drop_def Let_def)
qed

lemma spares_deliver:
  assumes "a < length (ses_heap s)" "ms_state h \<noteq> a" "deliver_accept h s = (b, t)"
  shows "spares a s t"
  using assms spares_drop spares_refl
  by (auto simp: deliver_accept_def split: if_splits) (auto simp: spares_def ses_refs_def)

lemma spares_same_heap:
  "a < length (ses_heap s) \<Longrightarrow> ses_heap t = ses_heap s \<Longrightarrow> ses_streams t = ses_streams s \<Longrightarrow>
   set (ses_accept t) \<subseteq> set (ses_accept s) \<Longrightarrow> spares a s t"
  by (rule spares_light) (auto simp: ses_refs_def)

lemma spares_open:
  assumes a: "a < length (ses_heap s)" and op: "open_stream s = (r, t)"
  shows "spares a s t \<and> (\<forall>h. r = Inr h \<longrightarrow> ms_state h \<noteq> a)"
proof -
  obtain x u where u: "next_id s = (x, u)" by fastforce
  have su: "spares a s u" using a u
    by (intro spares_same_heap) (auto simp: next_id_def Let_def split: if_splits)
  have sv: "spares a s ((add_stream sid u)\<lparr>ses_queue := q\<rparr>)" for sid q
    using spares_add_stream [of a u sid] su by (auto simp: spares_def ses_refs_def)
  have sr: "spares a s (snd (remove_stream sid' ((add_stream sid u)\<lparr>ses_queue := q\<rparr>)))" for sid sid' q
    using sv spares_remove spares_trans by (metis spares_def less_le_trans)
  have "a < length (ses_heap u)" using su by (auto simp: spares_def)
  then show ?thesis using op u su sv sr a spares_refl [OF a]
    by (auto simp: open_stream_def Let_def mux_stream_new_def split: if_splits sum.splits prod.splits)
qed

lemma spares_read:
  assumes "a < length (ses_heap s)" "ms_state h \<noteq> a" "ms_poll_read w n h s = Some (r, t)"
  shows "spares a s t"
proof -
  have k: "spares a s (on_stream (ms_state h) f s)" for f
    by (rule spares_on_stream [OF assms(1,2)])
  have k2: "spares a s (return_tokens m (on_stream (ms_state h) f s))" for f m
    using k spares_return spares_trans assms(1) by (metis on_stream_fields(4))
  have k3: "spares a s (on_stream (ms_state h) g (on_stream (ms_state h) f s))" for f g
    using k spares_on_stream spares_trans assms(1,2) by (metis on_stream_fields(4))
  show ?thesis using assms(3) k k2 k3 spares_refl [OF assms(1)]
    by (auto simp: ms_poll_read_def Let_def split: if_splits option.splits)
qed

lemma spares_queue_ops:
  assumes "a < length (ses_heap s)"
  shows "ms_poll_write w buf h s = (r, h', t) \<Longrightarrow> spares a s t \<and> ms_state h' = ms_state h"
    and "ms_poll_flush w h s = (f, t) \<Longrightarrow> spares a s t"
    and "ms_poll_shutdown w h s = (f, h', t) \<Longrightarrow> spares a s t \<and> ms_state h' = ms_state h"
    and "keepalive_ping s = (b, t) \<Longrightarrow> spares a s t"
    and "accept_stream s = (Some k, t) \<Longrightarrow> spares a s t \<and> ms_state k \<in> ses_refs s"
proof -
  show "spares a s t \<and> ms_state h' = ms_state h" if "ms_poll_write w buf h s = (r, h', t)"
    using that assms by (auto intro!: spares_same_heap simp: ms_poll_write_def Let_def
        split: if_splits prod.splits poll.splits sum.splits)
  show "spares a s t" if "ms_poll_flush w h s = (f, t)"
    using that assms by (auto intro!: spares_same_heap simp: ms_poll_flush_def Let_def split: prod.splits)
  show "spares a s t \<and> ms_state h' = ms_state h" if "ms_poll_shutdown w h s = (f, h', t)"
    using that assms by (auto intro!: spares_same_heap simp: ms_poll_shutdown_def send_fin_def Let_def
        split: if_splits prod.splits poll.splits sum.splits)
  show "spares a s t" if "keepalive_ping s = (b, t)"
    using that assms by (auto intro!: spares_same_heap simp: keepalive_ping_def split: prod.splits bool.splits)
  show "spares a s t \<and> ms_state k \<in> ses_refs s" if "accept_stream s = (Some k, t)"
    using that assms by (auto intro!: spares_same_heap simp: accept_stream_def ses_refs_def split: list.splits)
qed

lemma spares_writer:
  assumes "a < length (ses_heap s)" "a \<notin> ses_refs s" "writer_iter io s = (r, t)"
  shows "spares a s t"
proof -
  have k: "spares a s (s\<lparr>ses_queue := q, ses_woken := x\<rparr>)" "spares a s (s\<lparr>ses_queue := q\<rparr>)" for q x
    using assms(1) by (auto intro!: spares_same_heap)
  have kf: "spares a s (session_fail e (s\<lparr>ses_queue := q, ses_woken := x\<rparr>))" for e q x
    using spares_trans [OF k(1) spares_fail] assms by (simp add: ses_refs_def)
  show ?thesis using assms(3) k kf
    by (auto simp: writer_iter_def Let_def split: option.splits sum.splits prod.splits if_splits)
qed

lemma spares_deadline:
  assumes "a < length (ses_heap s)" "a \<notin> ses_refs s" "keepalive_deadline s = (b, t)"
  shows "spares a s t"
proof -
  have k: "spares a s (s\<lparr>ses_data_ready := x\<rparr>)" for x using assms(1) by (auto intro!: spares_same_heap)
  have "spares a s (session_fail e (s\<lparr>ses_data_ready := x\<rparr>))" for e x
    using spares_trans [OF k spares_fail] assms by (simp add: ses_refs_def)
  then show ?thesis using assms(3) k by (auto simp: keepalive_deadline_def Let_def split: if_splits)
qed

lemma spares_reader:
  assumes a: "a < length (ses_heap s)" "a \<notin> ses_refs s" and it: "reader_iter inp s = (r, inp', t)"
  shows "spares a s t \<and> (\<forall>h. r = RDeliver h \<longrightarrow> ms_state h \<noteq> a)"
proof -
  let ?u = "s\<lparr>ses_data_ready := True\<rparr>"
  have k: "spares a s ?u" using a(1) by (auto intro!: spares_same_heap)
  have kf: "spares a s (session_fail e ?u)" "spares a s (session_fail e s)" for e
    using spares_trans [OF k spares_fail] spares_fail a by (simp_all add: ses_refs_def)
  have ks: "spares a s (on_stream b f ?u)" "spares a s (on_stream b f (spend_tokens n ?u))"
    if "map_of (ses_streams s) x = Some b" for b f n x
  proof -
    have "b \<noteq> a" using map_of_SomeD [OF that] a(2) by (force simp: ses_refs_def)
    moreover have "spares a s (spend_tokens n ?u)" using a(1) by (auto intro!: spares_same_heap simp: spend_tokens_def)
    ultimately show "spares a s (on_stream b f ?u)" "spares a s (on_stream b f (spend_tokens n ?u))"
      using spares_trans [OF k] spares_on_stream [of a] spares_trans a(1)
      by (auto simp: spend_tokens_def intro: spares_trans)
  qed
  have kd: "spares a s v" if d: "deliver_accept h (add_stream sid ?u) = (d, v)" and h: "ms_state h \<noteq> a" for h sid d v
  proof -
    have s1: "spares a s (add_stream sid ?u)" using spares_trans [OF k spares_add_stream] a(1) by simp
    then have "a < length (ses_heap (add_stream sid ?u))" by (simp add: spares_def)
    then show ?thesis by (rule spares_trans [OF s1 spares_deliver [OF _ h d]])
  qed
  show ?thesis using it k kf ks kd a spares_refl [OF a(1)]
    by (auto simp: reader_iter_def Let_def mux_stream_new_def
        split: if_splits sum.splits option.splits prod.splits bool.splits)
qed

lemma orphan_intro:
  assumes "orphan a y" "spares a (my_ses y) s" "a \<notin> ms_state ` set hs" "\<forall>d \<in> set ds. a \<notin> drop_refs d" "a \<notin> pc_refs pc"
  shows "orphan a \<lparr>my_ses = s, my_handles = hs, my_reader = pc, my_drops = ds\<rparr> \<and> stream_at s a = stream_at (my_ses y) a"
  using assms by (auto simp: orphan_def mux_refs_def spares_def)

lemma orphan_step:
  assumes o: "orphan a y" and st: "mux_step y z"
  shows "orphan a z \<and> stream_at (my_ses z) a = stream_at (my_ses y) a"
proof -
  have l: "a < length (ses_heap (my_ses y))" and r: "a \<notin> ses_refs (my_ses y)"
    and hs: "a \<notin> ms_state ` set (my_handles y)" and ds: "\<And>d. d \<in> set (my_drops y) \<Longrightarrow> a \<notin> drop_refs d"
    and pc: "a \<notin> pc_refs (my_reader y)"
    using o by (auto simp: orphan_def mux_refs_def)
  have hn: "ms_state (my_handles y ! i) \<noteq> a" if "i < length (my_handles y)" for i
    using hs that by (metis image_eqI nth_mem)
  have dn: "a \<notin> drop_refs (my_drops y ! j)" if "j < length (my_drops y)" for j using ds that by simp
  have seti: "a \<notin> ms_state ` set ((my_handles y)[i := h])" if "ms_state h \<noteq> a" for i h
    using hs that set_update_subset_insert [of "my_handles y" i h] by auto
  have setd: "\<forall>e \<in> set ((my_drops y)[j := d]). a \<notin> drop_refs e" if "a \<notin> drop_refs d" for j d
    using ds that set_update_subset_insert [of "my_drops y" j d] by auto
  have rem: "a \<notin> ms_state ` set (take i (my_handles y) @ drop (Suc i) (my_handles y))"
      "\<forall>e \<in> set (take i (my_drops y) @ drop (Suc i) (my_drops y)). a \<notin> drop_refs e" for i
    using hs ds set_remove_nth [of i "my_handles y"] set_remove_nth [of i "my_drops y"] by (blast, blast)
  have fin: ?thesis if "spares a (my_ses y) (my_ses z)" "a \<notin> ms_state ` set (my_handles z)"
      "\<forall>d \<in> set (my_drops z). a \<notin> drop_refs d" "a \<notin> pc_refs (my_reader z)"
    using orphan_intro [OF o that] by (cases z) simp
  note refs = seti setd rem hs ds pc
  note q = spares_queue_ops [OF l]
  show ?thesis using st
  proof cases
    case (m_open h s)
    then show ?thesis using spares_open [OF l m_open(2)] refs by (intro fin) auto
  next
    case (m_accept h s)
    then show ?thesis using q(5) [OF m_accept(2)] refs r by (intro fin) auto
  next
    case (m_read h w n r s)
    moreover have "ms_state h \<noteq> a" using m_read(2) hs by auto
    ultimately show ?thesis using spares_read [OF l _ m_read(3)] refs by (intro fin) auto
  next
    case (m_write i w buf r h s)
    then show ?thesis using q(1) [OF m_write(3)] refs hn by (intro fin) auto
  next
    case (m_shutdown i w r h s)
    then show ?thesis using q(3) [OF m_shutdown(3)] refs hn by (intro fin) auto
  next
    case (m_drop i h s)
    then show ?thesis using spares_send_fin [OF l m_drop(3)] rem ds pc hn [OF m_drop(2)]
      by (intro fin) (auto simp: drop_refs_def)
  next
    case (m_drop_remove j h p s)
    then show ?thesis using spares_remove [OF l, of "ms_id h"] setd [of "DropRecycle h" j] setd [of "DropRefund 0" j] hs pc dn [of j]
      by (intro fin) (auto simp: drop_refs_def)
  next
    case (m_drop_recycle j h n)
    then show ?thesis using spares_on_stream [OF l, of "ms_state h"] setd [of "DropRefund n" j] hs pc dn [of j]
      by (intro fin) (auto simp: drop_refs_def)
  next
    case (m_drop_refund j n)
    then show ?thesis using spares_return [OF l] rem hs pc by (intro fin) auto
  next
    case (m_reader inp r inp' s)
    then show ?thesis using spares_reader [OF l r m_reader(4)] refs
      by (intro fin) (auto simp: reader_next_def pc_refs_def split: reader_status.splits)
  next
    case (m_reader_got inp b d inp')
    then have "b \<noteq> a" using psh_target_props(1) [OF m_reader_got(3)] r
      by (force simp: ses_refs_def dest: map_of_SomeD)
    then show ?thesis using m_reader_got refs l
      by (intro fin) (auto simp: pc_refs_def intro: spares_same_heap)
  next
    case (m_reader_push b d)
    then show ?thesis using spares_on_stream [OF l, of b] refs by (intro fin) (auto simp: pc_refs_def)
  next
    case (m_deliver h b s)
    then show ?thesis using spares_deliver [OF l _ m_deliver(3)] refs by (intro fin) (auto simp: pc_refs_def)
  next
    case (m_writer io r s)
    then show ?thesis using spares_writer [OF l r m_writer(2)] refs by (intro fin) auto
  next
    case (m_deadline b s)
    then show ?thesis using spares_deadline [OF l r m_deadline(2)] refs by (intro fin) auto
  next
    case (m_open_err e s)
    then show ?thesis using spares_open [OF l m_open_err(2)] refs by (intro fin) auto
  next
    case (m_flush h w r s)
    then show ?thesis using q(2) [OF m_flush(3)] refs by (intro fin) auto
  next
    case (m_reader_spend b d)
    then show ?thesis using refs l
      by (intro fin) (auto simp: pc_refs_def spend_tokens_def intro: spares_same_heap)
  next
    case (m_ping b s)
    then show ?thesis using q(4) [OF m_ping(2)] refs by (intro fin) auto
  next
    case m_close
    then show ?thesis using spares_fail [OF l r] refs by (intro fin) (auto simp: session_close_def)
  qed
qed

lemma orphan_run:
  assumes "mux_step\<^sup>*\<^sup>* y z" "orphan a y"
  shows "orphan a z \<and> stream_at (my_ses z) a = stream_at (my_ses y) a"
  using assms by (induction rule: rtranclp_induct) (use orphan_step in fastforce)+

lemma mux_reach_run: "mux_step\<^sup>*\<^sup>* y z \<Longrightarrow> mux_reach cfg ic y \<Longrightarrow> mux_reach cfg ic z"
  by (induction rule: rtranclp_induct) (auto intro: mr_step)

lemma held_ge: "a < length (ses_heap s) \<Longrightarrow> st_buffered (stream_at s a) \<le> held s"
  using elem_le_sum_list [of a "map (\<lambda>sh. st_buffered (ss_state sh)) (ses_heap s)"] by (simp add: held_def)

section \<open>A run that leaks\<close>

text \<open>
  A server with two bytes of receive buffer: a stream is opened by the peer and accepted; the
  reader looks it up for a payload of two bytes; the handle is dropped completely; the reader
  then spends the credit and queues the payload.
\<close>

definition leak_cfg :: mux_config where
  "leak_cfg = mux_config_default\<lparr>max_receive_buffer := 2, max_stream_buffer := 1\<rparr>"

definition leak_syn :: bytes where
  "leak_syn = [1, 0, 0, 0, 3, 0, 0, 0]"

definition leak_psh :: bytes where
  "leak_psh = [1, 2, 2, 0, 3, 0, 0, 0, 104, 105]"

definition leak_start :: session where
  "leak_start =
     \<lparr>ses_config = leak_cfg, ses_streams = [], ses_next_stream_id = 0, ses_go_away = False,
      ses_closed = False, ses_error = None, ses_bucket = 2, ses_bucket_notify = False,
      ses_data_ready = False, ses_queue = queue_new (send_queue_limit leak_cfg),
      ses_heap = [], ses_accept = [], ses_accept_open = True, ses_woken = []\<rparr>"

definition leak_handle :: mux_stream where
  "leak_handle = \<lparr>ms_id = 3, ms_state = 0, ms_version = 1, ms_frame_size = max_frame_size leak_cfg,
     ms_last_push = 0, ms_fin_sent = False\<rparr>"

definition leak_open :: session where
  "leak_open = leak_start\<lparr>ses_streams := [(3, 0)], ses_heap := [stream_shared_new 3], ses_data_ready := True\<rparr>"

definition leak_dropped :: session where
  "leak_dropped = (snd (send_fin leak_handle leak_open))\<lparr>ses_streams := []\<rparr>"

definition leak_end :: mux_sys where
  "leak_end = \<lparr>my_ses = on_stream 0 (push_bytes [104, 105]) (spend_tokens 2 leak_dropped),
     my_handles = [], my_reader = PcIdle, my_drops = []\<rparr>"

lemma leak_new: "session_new leak_cfg False = Inr leak_start"
proof -
  have "mux_config_verify leak_cfg = Inr ()"
    unfolding mux_config_verify_ok by (simp add: leak_cfg_def mux_config_default_def VERSION_1_def MAX_FRAME_DATA_def
      MAX_FRAME_SIZE_def)
  then show ?thesis
    by (simp add: session_new_def leak_start_def) (simp add: leak_cfg_def usize_as_i64_small)
qed

lemma leak_headers:
  "header_decode [1, 0, 0, 0, 3, 0, 0, 0] = \<lparr>h_version = 1, h_cmd = CMD_SYN, h_length = 0, h_sid = 3\<rparr>"
  "header_decode [1, 2, 2, 0, 3, 0, 0, 0] = \<lparr>h_version = 1, h_cmd = CMD_PSH, h_length = 2, h_sid = 3\<rparr>"
  by code_simp+

lemmas leak_defs = leak_start_def leak_open_def leak_handle_def leak_cfg_def mux_config_default_def leak_syn_def
  leak_psh_def leak_headers read_exact_def HEADER_SIZE_def Let_def VERSION_1_def stream_shared_new_def

lemma leak_reader_syn:
  "psh_target leak_syn leak_start = None"
  "reader_iter leak_syn leak_start = (RContinue, [], leak_open\<lparr>ses_accept := [leak_handle]\<rparr>)"
  by (simp_all add: leak_defs psh_target_def reader_iter_def deliver_accept_def add_stream_def mux_stream_new_def
      DEFAULT_ACCEPT_BACKLOG_def)

lemma leak_reader_psh: "psh_target leak_psh leak_open = Some (0, [104, 105], [])"
  by (simp add: leak_defs psh_target_def)

lemma leak_send_fin:
  "send_fin leak_handle leak_open = (h, s) \<Longrightarrow>
     leak_dropped = s\<lparr>ses_streams := []\<rparr> \<and> ms_id h = 3 \<and> ms_state h = 0 \<and>
     ses_streams s = [(3, 0)] \<and> ses_heap s = [stream_shared_new 3]"
  by (auto simp: leak_dropped_def send_fin_def Let_def leak_handle_def leak_open_def split: prod.splits sum.splits)

lemma leak_dropped_fields:
  "ses_streams leak_dropped = []" "ses_heap leak_dropped = [stream_shared_new 3]"
  "ses_accept leak_dropped = []" "ses_bucket leak_dropped = 2" "\<not> ses_closed leak_dropped"
  by (auto simp: leak_dropped_def send_fin_def Let_def leak_handle_def leak_open_def leak_start_def
      split: prod.splits sum.splits)

lemma leak_recycle:
  "on_stream 0 (\<lambda>st. (None, snd (recycle st))) leak_dropped = leak_dropped"
  "fst (recycle (stream_at leak_dropped 0)) = 0"
proof -
  have "leak_dropped\<lparr>ses_heap := ses_heap leak_dropped\<rparr> = leak_dropped" by (cases leak_dropped) simp
  then show "on_stream 0 (\<lambda>st. (None, snd (recycle st))) leak_dropped = leak_dropped"
    by (simp add: on_stream_def wake_def recycle_def leak_dropped_fields stream_shared_new_def)
  show "fst (recycle (stream_at leak_dropped 0)) = 0"
    by (simp add: leak_dropped_fields stream_shared_new_def recycle_def)
qed

lemma leak_end_reach: "mux_reach leak_cfg False leak_end"
proof -
  let ?y = "\<lambda>s hs pc ds. \<lparr>my_ses = s, my_handles = hs, my_reader = pc, my_drops = ds\<rparr>"
  have "mux_reach leak_cfg False (?y leak_start [] PcIdle [])"
    using mr_init [OF leak_new] by (simp add: mux_init_def)
  from mr_step [OF this m_reader, of leak_syn RContinue "[]"] leak_reader_syn
  have "mux_reach leak_cfg False (?y (leak_open\<lparr>ses_accept := [leak_handle]\<rparr>) [] PcIdle [])"
    by (simp add: reader_next_def)
  from mr_step [OF this m_accept, of leak_handle leak_open]
  have "mux_reach leak_cfg False (?y leak_open [leak_handle] PcIdle [])"
    by (simp add: accept_stream_def) (simp add: leak_open_def leak_start_def)
  from mr_step [OF this m_reader_got, of leak_psh] leak_reader_psh
  have got: "mux_reach leak_cfg False (?y leak_open [leak_handle] (PcGot 0 [104, 105]) [])"
    by (simp add: leak_open_def)
  obtain h s where f: "send_fin leak_handle leak_open = (h, s)" by fastforce
  note d = leak_send_fin [OF f]
  from mr_step [OF got m_drop, of 0 h s] f
  have "mux_reach leak_cfg False (?y s [] (PcGot 0 [104, 105]) [DropRemove h])" by simp
  from mr_step [OF this m_drop_remove, of 0 h "Some 0" leak_dropped] d
  have "mux_reach leak_cfg False (?y leak_dropped [] (PcGot 0 [104, 105]) [DropRecycle h])"
    by (simp add: remove_stream_def)
  from mr_step [OF this m_drop_recycle, of 0 h 0] d
  have "mux_reach leak_cfg False (?y leak_dropped [] (PcGot 0 [104, 105]) [DropRefund 0])"
    by (simp add: leak_recycle del: recycle_inv(4))
  from mr_step [OF this m_drop_refund, of 0 0]
  have "mux_reach leak_cfg False (?y leak_dropped [] (PcGot 0 [104, 105]) [])"
    by (simp add: return_tokens_def)
  from mr_step [OF this m_reader_spend, of 0 "[104, 105]"]
  have "mux_reach leak_cfg False (?y (spend_tokens 2 leak_dropped) [] (PcSpent 0 [104, 105]) [])" by (simp add: numeral_2_eq_2)
  from mr_step [OF this m_reader_push, of 0 "[104, 105]"]
  show ?thesis by (simp add: leak_end_def)
qed

lemma leak_end_orphan:
  "orphan 0 leak_end" "st_buffered (stream_at (my_ses leak_end) 0) = 2" "\<not> ses_closed (my_ses leak_end)"
  "ses_streams (my_ses leak_end) = []" "my_handles leak_end = []" "my_reader leak_end = PcIdle"
  by (simp_all add: orphan_def mux_refs_def ses_refs_def pc_refs_def leak_end_def spend_tokens_def
      leak_dropped_fields on_stream_at) (simp add: stream_shared_new_def)

section \<open>Properties\<close>



text \<open>The writer task never fails on encoding: in every reachable state each frame in the
  queue has a payload that the 16-bit length field can carry, so a batch always encodes.\<close>

theorem writer_batch_encodes:
  assumes "mux_reach cfg is_client y" "take_batch (ses_queue (my_ses y)) = (Some batch, ws, q)"
  shows "\<exists>out. encode_batch batch [] = Inr out"
proof -
  have "list_all (v1_frame (cfg_version cfg)) (queue_frames (ses_queue (my_ses y)))"
    using mux_reach_inv [OF assms(1)] by (simp add: mux_inv_def ses_ok_def)
  then have "list_all (v1_frame (cfg_version cfg)) batch"
    using assms(2) by (auto simp: take_batch_def split: if_splits)
  then have "list_all frame_ok batch" by (auto simp: list_all_iff v1_frame_def)
  then show ?thesis using encode_batch_ok by blast
qed

lemma leak_end_batch:
  "\<exists>ws q. take_batch (ses_queue (my_ses leak_end)) = (Some [frame_new 1 CMD_FIN 3], ws, q)"
  by (simp add: leak_end_def spend_tokens_def leak_dropped_def send_fin_def leak_open_def leak_start_def
      leak_handle_def force_push_data_def queue_new_def take_batch_def frame_new_def Let_def)

theorem writer_batch_encodes_witness: "\<exists>out. encode_batch [frame_new 1 CMD_FIN 3] [] = Inr out"
  using writer_batch_encodes [OF leak_end_reach] leak_end_batch by blast

text \<open>Credit spent on an object that nothing refers to is lost for good: whatever the tasks do
  from then on, the bucket stays below the receive buffer by the bytes queued on that object.\<close>

theorem orphan_credit_lost:
  assumes "mux_reach cfg is_client y" "orphan a y" "mux_step\<^sup>*\<^sup>* y z" "max_receive_buffer cfg < 2 ^ 63"
  shows "ses_bucket (my_ses z) \<le> int (max_receive_buffer cfg) - int (st_buffered (stream_at (my_ses y) a))"
proof -
  have o: "orphan a z" "stream_at (my_ses z) a = stream_at (my_ses y) a" using orphan_run [OF assms(3,2)] by auto
  have "mux_inv cfg z" using mux_reach_run [OF assms(3,1)] mux_reach_inv by blast
  moreover have "st_buffered (stream_at (my_ses z) a) \<le> held (my_ses z)" using o(1) by (auto simp: orphan_def intro: held_ge)
  ultimately show ?thesis using o(2) usize_as_i64_small [OF assms(4)] by (auto simp: mux_inv_def credit_of_def)
qed

theorem orphan_credit_lost_witness: "ses_bucket (my_ses leak_end) \<le> 0"
  using orphan_credit_lost [OF leak_end_reach leak_end_orphan(1) rtranclp.rtrancl_refl] leak_end_orphan(2)
  by (simp add: leak_cfg_def)

text \<open>C36. Dropping a stream handle while the reader has a payload for it in hand can stall the
  session for good: a run reaches an open session with no streams, no handles and an idle
  reader, from which the reader never reads another byte, whatever happens next.\<close>

theorem drop_race_stalls_session:
  "mux_reach leak_cfg False leak_end \<and> \<not> ses_closed (my_ses leak_end) \<and> num_streams (my_ses leak_end) = 0 \<and>
   my_handles leak_end = [] \<and> my_reader leak_end = PcIdle \<and>
   (\<forall>z inp. mux_step\<^sup>*\<^sup>* leak_end z \<longrightarrow>
      reader_iter inp (my_ses z) = (if ses_closed (my_ses z) then RStop else RWaitCredit, inp, my_ses z))"
proof -
  have "ses_bucket (my_ses z) \<le> 0" if "mux_step\<^sup>*\<^sup>* leak_end z" for z
    using mux_reach_inv [OF mux_reach_run [OF that leak_end_reach]] orphan_run [OF that leak_end_orphan(1)]
      leak_end_orphan(2) held_ge [of 0 "my_ses z"]
    by (auto simp: mux_inv_def credit_of_def orphan_def leak_cfg_def usize_as_i64_small)
  then show ?thesis using leak_end_reach leak_end_orphan by (simp add: num_streams_def reader_iter_def)
qed

theorem drop_race_stalls_session_witness:
  "reader_iter leak_psh (my_ses leak_end) = (RWaitCredit, leak_psh, my_ses leak_end)"
  using drop_race_stalls_session by auto

end
