(* ===== verification/IpAddr.thy ===== *)
theory IpAddr
  imports RustStr
begin

text \<open>
  \<^verbatim>\<open>std::net::IpAddr\<close> and its \<^verbatim>\<open>FromStr\<close>: dotted IPv4 addresses without leading zeros, and IPv6
  addresses with up to eight groups, one \<^verbatim>\<open>::\<close> and an embedded IPv4 tail. The reader functions
  follow the standard library's parser: each takes what it can from the front of the text
  and gives the rest back.
\<close>

datatype ip_addr = V4 u8 u8 u8 u8 | V6 "u16 list"

definition to_digit :: "nat \<Rightarrow> char \<Rightarrow> nat option" where
  "to_digit radix c =
     (let n = (of_char c :: nat);
          d = (if 48 \<le> n \<and> n \<le> 57 then n - 48
               else if 97 \<le> n \<and> n \<le> 122 then n - 87
               else if 65 \<le> n \<and> n \<le> 90 then n - 55
               else radix)
      in if d < radix then Some d else None)"

text \<open>The leading digits of a text and what follows them.\<close>

fun span_digits :: "nat \<Rightarrow> string \<Rightarrow> nat list \<times> string" where
  "span_digits radix [] = ([], [])"
| "span_digits radix (c # s) =
     (case to_digit radix c of
        None \<Rightarrow> ([], c # s)
      | Some d \<Rightarrow> let (ds, r) = span_digits radix s in (d # ds, r))"

definition read_number :: "nat \<Rightarrow> nat \<Rightarrow> bool \<Rightarrow> nat \<Rightarrow> string \<Rightarrow> (nat \<times> string) option" where
  "read_number radix max_digits allow_zero_prefix limit s =
     (let (ds, r) = span_digits radix s;
          v = foldl (\<lambda>a d. a * radix + d) 0 ds
      in if length ds > max_digits \<or> ds = [] then None
         else if \<not> allow_zero_prefix \<and> hd s = CHR ''0'' \<and> length ds > 1 then None
         else if v < limit then Some (v, r) else None)"

definition read_char :: "char \<Rightarrow> string \<Rightarrow> string option" where
  "read_char c s = (case s of x # r \<Rightarrow> if x = c then Some r else None | [] \<Rightarrow> None)"

text \<open>\<^verbatim>\<open>read_separator\<close>: the separator is expected before every item but the first.\<close>

definition read_separator :: "char \<Rightarrow> nat \<Rightarrow> (string \<Rightarrow> ('a \<times> string) option) \<Rightarrow> string \<Rightarrow> ('a \<times> string) option" where
  "read_separator sep i p s =
     (if i = 0 then p s else case read_char sep s of None \<Rightarrow> None | Some r \<Rightarrow> p r)"

definition read_octet :: "nat \<Rightarrow> string \<Rightarrow> (nat \<times> string) option" where
  "read_octet i = read_separator CHR ''.'' i (read_number 10 3 False 256)"

definition read_ipv4 :: "string \<Rightarrow> ((nat \<times> nat \<times> nat \<times> nat) \<times> string) option" where
  "read_ipv4 s =
     (case read_octet 0 s of None \<Rightarrow> None | Some (a, s) \<Rightarrow>
        (case read_octet 1 s of None \<Rightarrow> None | Some (b, s) \<Rightarrow>
           (case read_octet 2 s of None \<Rightarrow> None | Some (c, s) \<Rightarrow>
              (case read_octet 3 s of None \<Rightarrow> None | Some (d, s) \<Rightarrow> Some ((a, b, c, d), s)))))"

text \<open>
  \<^verbatim>\<open>read_groups\<close> from group \<open>i\<close> on, with room for \<open>n\<close> more: the groups, whether they end in an
  embedded IPv4 address, and the rest.
\<close>

fun read_groups :: "nat \<Rightarrow> nat \<Rightarrow> string \<Rightarrow> nat list \<times> bool \<times> string" where
  "read_groups i 0 s = ([], False, s)"
| "read_groups i (Suc n) s =
     (case (if n > 0 then read_separator CHR '':'' i read_ipv4 s else None) of
        Some ((a, b, c, d), r) \<Rightarrow> ([a * 256 + b, c * 256 + d], True, r)
      | None \<Rightarrow>
          (case read_separator CHR '':'' i (read_number 16 4 True 65536) s of
             None \<Rightarrow> ([], False, s)
           | Some (g, r) \<Rightarrow> let (gs, v4, r) = read_groups (Suc i) n r in (g # gs, v4, r)))"

definition read_ipv6 :: "string \<Rightarrow> (nat list \<times> string) option" where
  "read_ipv6 s =
     (let (head, head_ipv4, s) = read_groups 0 8 s
      in if length head = 8 then Some (head, s)
         else if head_ipv4 then None
         else case read_char CHR '':'' s of
           None \<Rightarrow> None
         | Some s \<Rightarrow>
             (case read_char CHR '':'' s of
                None \<Rightarrow> None
              | Some s \<Rightarrow>
                  let limit = 8 - (length head + 1);
                      (tail, _, s) = read_groups 0 limit s
                  in Some (head @ replicate (8 - length head - length tail) 0 @ tail, s)))"

definition parse_ip :: "string \<Rightarrow> ip_addr option" where
  "parse_ip s =
     (case read_ipv4 s of
        Some ((a, b, c, d), r) \<Rightarrow>
          if r = [] then Some (V4 (of_nat a) (of_nat b) (of_nat c) (of_nat d)) else None
      | None \<Rightarrow>
          (case read_ipv6 s of
             Some (gs, r) \<Rightarrow> if r = [] then Some (V6 (map of_nat gs)) else None
           | None \<Rightarrow> None))"

definition show_v4 :: "u8 \<Rightarrow> u8 \<Rightarrow> u8 \<Rightarrow> u8 \<Rightarrow> string" where
  "show_v4 a b c d =
     show_nat (unat a) @ ''.'' @ show_nat (unat b) @ ''.'' @ show_nat (unat c) @ ''.'' @ show_nat (unat d)"

section \<open>Lemmas\<close>

lemma read_groups_length: "read_groups i n s = (gs, v4, r) \<Longrightarrow> length gs \<le> n"
proof (induction i n s arbitrary: gs v4 r rule: read_groups.induct)
  case (2 i n s)
  then show ?case by (fastforce split: option.splits prod.splits if_splits)
qed simp

text \<open>A parsed IPv6 address has eight groups.\<close>

lemma parse_ip_V6: "parse_ip s = Some (V6 gs) \<Longrightarrow> length gs = 8"
proof -
  have "length gs = 8" if r6: "read_ipv6 s = Some (gs, r)" for gs r
  proof -
    obtain head v4 u where h: "read_groups 0 8 s = (head, v4, u)" by (metis prod_cases3)
    note l = read_groups_length [OF h]
    have t: "length tl \<le> 7 - length head" if "read_groups 0 (7 - length head) w = (tl, x, y)" for w tl x y
      by (rule read_groups_length [OF that])
    show ?thesis using r6 h l
      by (auto simp: read_ipv6_def Let_def split: prod.splits if_splits option.splits dest!: t)
  qed
  then show "parse_ip s = Some (V6 gs) \<Longrightarrow> length gs = 8"
    by (auto simp: parse_ip_def split: option.splits prod.splits if_splits)
qed

lemma digit_val_to_digit: "to_digit 10 c = digit_val c"
  by (auto simp: to_digit_def digit_val_def Let_def)

lemma span_digits_app:
  assumes "\<And>c. c \<in> set u \<Longrightarrow> digit_val c \<noteq> None" "v = [] \<or> digit_val (hd v) = None"
  shows "span_digits 10 (u @ v) = (map (the \<circ> digit_val) u, v)"
  using assms
proof (induction u)
  case Nil
  then show ?case by (cases v) (auto simp: digit_val_to_digit)
next
  case (Cons c u)
  then obtain d where "digit_val c = Some d" by fastforce
  with Cons show ?case by (simp add: digit_val_to_digit)
qed

lemma digits_val_foldl:
  "(\<And>c. c \<in> set s \<Longrightarrow> digit_val c \<noteq> None) \<Longrightarrow>
   digits_val acc s = Some (foldl (\<lambda>a d. a * 10 + d) acc (map (the \<circ> digit_val) s))"
  by (induction s arbitrary: acc) (auto simp: mult.commute split: option.splits)

lemma show_nat_small: "n < 1000 \<Longrightarrow> length (show_nat n) \<le> 3"
proof -
  assume "n < 1000"
  then have "n div 10 < 100" "n div 10 div 10 < 10" by simp_all
  then show ?thesis
    by (cases "n < 10"; cases "n div 10 < 10") (simp_all add: show_nat.simps [of n] show_nat.simps [of "n div 10"] show_nat.simps [of "n div 10 div 10"])
qed

lemma show_nat_hd_zero: "hd (show_nat n) = CHR ''0'' \<Longrightarrow> n = 0"
proof (induction n rule: show_nat.induct)
  case (1 n)
  show ?case
  proof (cases "n < 10")
    case True
    then have "hd (show_nat n) = digit_char n" by (simp add: show_nat.simps [of n])
    then have "(of_char (digit_char n) :: nat) = of_char CHR ''0''" using 1(2) by metis
    then show ?thesis using digit_char_code [OF True] by simp
  next
    case False
    then have "hd (show_nat (n div 10)) = CHR ''0''" using 1(2) by (simp add: show_nat.simps [of n])
    then show ?thesis using 1(1) False by simp
  qed
qed

lemma read_octet_show:
  assumes "n < 256" "v = [] \<or> digit_val (hd v) = None"
  shows "read_number 10 3 False 256 (show_nat n @ v) = Some (n, v)"
proof -
  have d: "\<And>c. c \<in> set (show_nat n) \<Longrightarrow> digit_val c \<noteq> None"
    using show_nat_chars by (auto simp: digit_val_def)
  have s: "span_digits 10 (show_nat n @ v) = (map (the \<circ> digit_val) (show_nat n), v)"
    by (rule span_digits_app [OF d assms(2)])
  have f: "foldl (\<lambda>a d. a * 10 + d) 0 (map (the \<circ> digit_val) (show_nat n)) = n"
    using digits_val_foldl [of "show_nat n" 0] d by simp
  have z: "length (show_nat n) \<le> 1" if "hd (show_nat n) = CHR ''0''"
    using show_nat_hd_zero [OF that] by (simp add: show_nat.simps)
  show ?thesis using show_nat_small [of n] assms(1) z
    by (simp add: read_number_def s f del: foldl_map) (auto simp: not_le)
qed

lemma read_ipv4_show: "read_ipv4 (show_v4 a b c d) = Some ((unat a, unat b, unat c, unat d), [])"
proof -
  have lt: "unat x < 256" for x :: u8 using unsigned_less [of x, where ?'a = nat] by simp
  have dot: "digit_val (hd (CHR ''.'' # s)) = None" for s by (simp add: digit_val_def)
  have r: "read_octet 0 (show_nat (unat x) @ CHR ''.'' # s) = Some (unat x, CHR ''.'' # s)" for x :: u8 and s
    using read_octet_show [OF lt, of "CHR ''.'' # s" x] dot by (simp add: read_octet_def read_separator_def)
  have r': "read_octet (Suc i) (CHR ''.'' # show_nat (unat x) @ CHR ''.'' # s) = Some (unat x, CHR ''.'' # s)" for i and x :: u8 and s
    using read_octet_show [OF lt, of "CHR ''.'' # s" x] dot by (simp add: read_octet_def read_separator_def read_char_def)
  have e: "read_octet (Suc i) (CHR ''.'' # show_nat (unat x)) = Some (unat x, [])" for i and x :: u8
    using read_octet_show [OF lt, of "[]" x] by (simp add: read_octet_def read_separator_def read_char_def)
  show ?thesis
    using r r' [of 0] r' [of 1] e [of 2] by (simp add: read_ipv4_def show_v4_def numeral_2_eq_2 numeral_3_eq_3)
qed

lemma parse_ip_show_v4: "parse_ip (show_v4 a b c d) = Some (V4 a b c d)"
  by (simp add: parse_ip_def read_ipv4_show)

text \<open>A text that starts with neither a hexadecimal digit nor a colon is no address.\<close>

lemma parse_ip_name:
  assumes "to_digit 16 c = None" "c \<noteq> CHR '':''"
  shows "parse_ip (c # s) = None"
proof -
  have t: "to_digit 10 c = None" using assms(1) by (auto simp: to_digit_def Let_def split: if_splits)
  have n: "read_number 10 3 False 256 (c # s) = None" "read_number 16 4 True 65536 (c # s) = None"
    using t assms(1) by (simp_all add: read_number_def)
  have r4: "read_ipv4 (c # s) = None" by (simp add: read_ipv4_def read_octet_def read_separator_def n)
  have "read_groups 0 (Suc m) (c # s) = ([], False, c # s)" for m
    using n r4 by (simp add: read_separator_def)
  from this [of 7] have "read_groups 0 8 (c # s) = ([], False, c # s)" by simp
  with r4 show ?thesis using assms(2) by (simp add: parse_ip_def read_ipv6_def read_char_def)
qed

end
