(* ===== verification/NetAddr.thy ===== *)
theory NetAddr
  imports IpAddr
begin

text \<open>
  Addresses on the wire and in text: big-endian bytes, the conversions between byte strings
  and \<^verbatim>\<open>String\<close> (\<^verbatim>\<open>as_bytes\<close>, \<^verbatim>\<open>String::from_utf8_lossy\<close>), and \<^verbatim>\<open>Display\<close> and \<^verbatim>\<open>FromStr\<close> of
  \<^verbatim>\<open>std::net::{Ipv4Addr, Ipv6Addr, SocketAddr}\<close>. The main lemma is that printing an IPv6
  address and parsing the text gives the address back, whatever run of zeros the printer
  compresses.
\<close>

section \<open>Big-endian words\<close>

definition u16_to_be :: "u16 \<Rightarrow> bytes" where
  "u16_to_be w = [ucast (drop_bit 8 w), ucast w]"

definition u16_from_be :: "u8 \<Rightarrow> u8 \<Rightarrow> u16" where
  "u16_from_be a b = u16_from_le b a"

lemma length_u16_to_be [simp]: "length (u16_to_be w) = 2"
  by (simp add: u16_to_be_def)

lemma u16_be_roundtrip [simp]: "u16_from_be (ucast (drop_bit 8 w)) (ucast w) = w"
  by (simp add: u16_from_be_def)

lemma u16_be_nth [simp]: "u16_from_be (u16_to_be w ! 0) (u16_to_be w ! Suc 0) = w"
  by (simp add: u16_to_be_def)

lemma u16_be_inverse [simp]: "u16_to_be (u16_from_be a b) = [a, b]"
  using u16_le_inverse [of b a] by (simp add: u16_from_be_def u16_to_be_def u16_to_le_def)

section \<open>Bytes and text\<close>

definition byte_of :: "char \<Rightarrow> u8" where
  "byte_of c = of_nat (of_char c)"

definition char_of_byte :: "u8 \<Rightarrow> char" where
  "char_of_byte b = char_of (unat b)"

definition as_bytes :: "string \<Rightarrow> bytes" where
  "as_bytes s = map byte_of s"

definition of_bytes :: "bytes \<Rightarrow> string" where
  "of_bytes bs = map char_of_byte bs"

lemma char_of_byte_of [simp]: "char_of_byte (byte_of c) = c"
proof -
  have "(of_char c :: nat) < 256" by (rule nat_of_char_less_256)
  then have "unat (of_nat (of_char c) :: u8) = of_char c" by (simp add: unat_of_nat take_bit_eq_mod)
  then show ?thesis by (simp add: char_of_byte_def byte_of_def)
qed

lemma byte_of_char_of_byte [simp]: "byte_of (char_of_byte b) = b"
proof -
  have "unat b < 256" using unsigned_less [of b, where ?'a = nat] by simp
  then have "(of_char (char_of (unat b) :: char) :: nat) = unat b" by (simp add: of_char_of)
  then show ?thesis by (simp add: char_of_byte_def byte_of_def)
qed

lemma of_bytes_as_bytes [simp]: "of_bytes (as_bytes s) = s"
  by (simp add: of_bytes_def as_bytes_def comp_def)

lemma as_bytes_of_bytes [simp]: "as_bytes (of_bytes s) = s"
  by (simp add: of_bytes_def as_bytes_def comp_def)

lemma length_as_bytes [simp]: "length (as_bytes s) = length s"
  by (simp add: as_bytes_def)

lemma as_bytes_append [simp]: "as_bytes (s @ t) = as_bytes s @ as_bytes t"
  by (simp add: as_bytes_def)

text \<open>
  One step of UTF-8 decoding at a byte string that is not empty: how many bytes it consumes
  (at least one) and whether they are a well-formed character. An ill-formed step consumes
  the longest prefix that could have started a character, as \<^verbatim>\<open>Utf8Chunks\<close> does.
\<close>

definition head_is :: "(char \<Rightarrow> bool) \<Rightarrow> string \<Rightarrow> bool" where
  "head_is P s = (case s of [] \<Rightarrow> False | c # _ \<Rightarrow> P c)"

definition utf8_step :: "char \<Rightarrow> string \<Rightarrow> nat \<times> bool" where
  "utf8_step a s =
     (if byte_in 0 127 a then (1, True)
      else if byte_in 194 223 a then (if head_is cont_byte s then (2, True) else (1, False))
      else if byte_in 224 239 a then
        (if \<not> head_is (byte_in (if of_char a = (224::nat) then 160 else 128)
                              (if of_char a = (237::nat) then 159 else 191)) s then (1, False)
         else if \<not> head_is cont_byte (drop 1 s) then (2, False)
         else (3, True))
      else if byte_in 240 244 a then
        (if \<not> head_is (byte_in (if of_char a = (240::nat) then 144 else 128)
                              (if of_char a = (244::nat) then 143 else 191)) s then (1, False)
         else if \<not> head_is cont_byte (drop 1 s) then (2, False)
         else if \<not> head_is cont_byte (drop 2 s) then (3, False)
         else (4, True))
      else (1, False))"

definition replacement :: string where
  "replacement = [CHR 0xEF, CHR 0xBF, CHR 0xBD]"

text \<open>\<^verbatim>\<open>String::from_utf8_lossy\<close>: every ill-formed part becomes one U+FFFD.\<close>

function utf8_lossy :: "string \<Rightarrow> string" where
  "utf8_lossy [] = []"
| "utf8_lossy (a # s) =
     (let (n, ok) = utf8_step a s
      in (if ok then take n (a # s) else replacement) @ utf8_lossy (drop (n - 1) s))"
  by pat_completeness auto
termination
  by (relation "measure length") auto

definition from_utf8_lossy :: "bytes \<Rightarrow> string" where
  "from_utf8_lossy bs = utf8_lossy (of_bytes bs)"

text \<open>Text that is already UTF-8 is unchanged.\<close>

lemma utf8_lossy_valid: "utf8_valid s \<Longrightarrow> utf8_lossy s = s"
proof (induction s rule: utf8_valid.induct)
  case (2 a s)
  show ?case
  proof (cases "byte_in 0 127 a")
    case True
    with 2 show ?thesis by (simp add: utf8_step_def)
  next
    case nA: False
    show ?thesis
    proof (cases "byte_in 194 223 a")
      case True
      with 2(5) nA obtain b t where s: "s = b # t" by (auto split: list.splits)
      with 2 nA True show ?thesis by (simp add: utf8_step_def head_is_def)
    next
      case nB: False
      show ?thesis
      proof (cases "byte_in 224 239 a")
        case True
        with 2(5) nA nB obtain b c t where s: "s = b # c # t" by (auto split: list.splits)
        with 2 nA nB True show ?thesis by (simp add: utf8_step_def head_is_def)
      next
        case nC: False
        with 2(5) nA nB have D: "byte_in 240 244 a" by (auto split: if_splits)
        with 2(5) nA nB nC obtain b c d t where s: "s = b # c # d # t" by (auto split: list.splits)
        with 2 nA nB nC D show ?thesis by (simp add: utf8_step_def head_is_def)
      qed
    qed
  qed
qed simp

lemma from_utf8_lossy_as_bytes [simp]: "utf8_valid s \<Longrightarrow> from_utf8_lossy (as_bytes s) = s"
  by (simp add: from_utf8_lossy_def utf8_lossy_valid)

text \<open>A \<^verbatim>\<open>String\<close> of the model is a byte string; ASCII text is always well formed.\<close>

definition ascii :: "string \<Rightarrow> bool" where
  "ascii s = list_all (byte_in 0 127) s"

lemma ascii_utf8 [simp]: "ascii s \<Longrightarrow> utf8_valid s"
  by (induction s) (simp_all add: ascii_def)

section \<open>Reading and printing IP addresses\<close>

definition parse_v4 :: "string \<Rightarrow> (u8 \<times> u8 \<times> u8 \<times> u8) option" where
  "parse_v4 s =
     (case read_ipv4 s of
        Some ((a, b, c, d), r) \<Rightarrow> if r = [] then Some (of_nat a, of_nat b, of_nat c, of_nat d) else None
      | None \<Rightarrow> None)"

definition parse_v6 :: "string \<Rightarrow> u16 list option" where
  "parse_v6 s =
     (case read_ipv6 s of
        Some (gs, r) \<Rightarrow> if r = [] then Some (map of_nat gs) else None
      | None \<Rightarrow> None)"

definition hex_char :: "nat \<Rightarrow> char" where
  "hex_char d = ''0123456789abcdef'' ! d"

fun show_hex :: "nat \<Rightarrow> string" where
  "show_hex n = (if n < 16 then [hex_char n] else show_hex (n div 16) @ [hex_char (n mod 16)])"

declare show_hex.simps [simp del]

text \<open>
  The run of zero groups \<^verbatim>\<open>Display\<close> compresses: the first of the longest runs, as
  (start, length).
\<close>

fun zero_runs :: "nat \<Rightarrow> (nat \<times> nat) \<Rightarrow> (nat \<times> nat) \<Rightarrow> u16 list \<Rightarrow> nat \<times> nat" where
  "zero_runs i longest current [] = longest"
| "zero_runs i longest current (g # gs) =
     (if g = 0
      then let current = ((if snd current = 0 then i else fst current), snd current + 1)
           in zero_runs (Suc i) (if snd current > snd longest then current else longest) current gs
      else zero_runs (Suc i) longest (0, 0) gs)"

fun show_groups :: "u16 list \<Rightarrow> string" where
  "show_groups [] = []"
| "show_groups [g] = show_hex (unat g)"
| "show_groups (g # gs) = show_hex (unat g) @ '':'' @ show_groups gs"

definition show_v6 :: "u16 list \<Rightarrow> string" where
  "show_v6 gs =
     (if take 6 gs = [0, 0, 0, 0, 0, 0xFFFF]
      then ''::ffff:'' @ show_v4 (ucast (drop_bit 8 (gs ! 6))) (ucast (gs ! 6)) (ucast (drop_bit 8 (gs ! 7))) (ucast (gs ! 7))
      else let (start, len) = zero_runs 0 (0, 0) (0, 0) gs
           in if len > 1 then show_groups (take start gs) @ ''::'' @ show_groups (drop (start + len) gs)
              else show_groups gs)"

fun show_ip :: "ip_addr \<Rightarrow> string" where
  "show_ip (V4 a b c d) = show_v4 a b c d"
| "show_ip (V6 gs) = show_v6 gs"

text \<open>\<^verbatim>\<open>Ipv6Addr::octets\<close> and \<^verbatim>\<open>Ipv6Addr::from([u8; 16])\<close>.\<close>

definition v6_octets :: "u16 list \<Rightarrow> bytes" where
  "v6_octets gs = concat (map u16_to_be gs)"

fun v6_of_octets :: "bytes \<Rightarrow> u16 list" where
  "v6_of_octets (a # b # bs) = u16_from_be a b # v6_of_octets bs"
| "v6_of_octets _ = []"

type_synonym socket_addr = "ip_addr \<times> u16"

text \<open>\<^verbatim>\<open>SocketAddr::to_string\<close>.\<close>

definition show_sockaddr :: "socket_addr \<Rightarrow> string" where
  "show_sockaddr sa =
     (case sa of
        (V4 a b c d, p) \<Rightarrow> show_v4 a b c d @ '':'' @ show_nat (unat p)
      | (V6 gs, p) \<Rightarrow> ''['' @ show_v6 gs @ '']:'' @ show_nat (unat p))"

definition ip_ok :: "ip_addr \<Rightarrow> bool" where
  "ip_ok a = (case a of V4 _ _ _ _ \<Rightarrow> True | V6 gs \<Rightarrow> length gs = 8)"

section \<open>Lemmas\<close>

lemma length_v6_octets [simp]: "length (v6_octets gs) = 2 * length gs"
  by (induction gs) (simp_all add: v6_octets_def)

lemma v6_of_octets_append: "v6_of_octets (v6_octets gs @ bs) = gs @ v6_of_octets bs"
  by (induction gs) (simp_all add: v6_octets_def u16_to_be_def)

lemma v6_of_octets_inverse [simp]: "v6_of_octets (v6_octets gs) = gs"
  using v6_of_octets_append [of gs "[]"] by simp

lemma v6_octets_inverse: "even (length bs) \<Longrightarrow> v6_octets (v6_of_octets bs) = bs"
  by (induction bs rule: v6_of_octets.induct) (auto simp: v6_octets_def)

subsection \<open>Printed addresses read back\<close>

lemma hex_char_val: "d < 16 \<Longrightarrow> to_digit 16 (hex_char d) = Some d"
proof -
  assume "d < 16"
  then have "d \<in> set [0..<16]" by simp
  then show ?thesis by (auto simp: upt_rec hex_char_def to_digit_def)
qed

lemma hex_char_not: "d < 16 \<Longrightarrow> to_digit 16 c = None \<Longrightarrow> hex_char d \<noteq> c"
  by (auto simp: hex_char_val)

lemma show_hex_ne [simp]: "show_hex n \<noteq> []"
  by (subst show_hex.simps) simp

lemma show_hex_digits: "c \<in> set (show_hex n) \<Longrightarrow> \<exists>d < 16. c = hex_char d"
proof (induction n rule: show_hex.induct)
  case (1 n)
  then show ?case
    using mod_less_divisor [of 16 n] by (cases "n < 16") (auto simp: show_hex.simps [of n] simp del: mod_less_divisor)
qed

lemma show_hex_not_mem: "to_digit 16 c = None \<Longrightarrow> c \<notin> set (show_hex n)"
  using show_hex_digits hex_char_not by blast

lemma show_hex_val: "foldl (\<lambda>a d. a * 16 + d) 0 (map (the \<circ> to_digit 16) (show_hex n)) = n"
proof (induction n rule: show_hex.induct)
  case (1 n)
  then show ?case by (cases "n < 16") (simp_all add: show_hex.simps [of n] hex_char_val)
qed

lemma show_hex_small: "n < 16 ^ Suc k \<Longrightarrow> length (show_hex n) \<le> Suc k"
proof (induction k arbitrary: n)
  case 0
  then show ?case by (simp add: show_hex.simps)
next
  case (Suc k)
  then have "n div 16 < 16 ^ Suc k" by (simp add: less_mult_imp_div_less mult.commute)
  from Suc.IH [OF this] show ?case by (subst show_hex.simps) simp
qed

lemma span_hex_app:
  assumes "\<And>c. c \<in> set u \<Longrightarrow> to_digit 16 c \<noteq> None" "v = [] \<or> to_digit 16 (hd v) = None"
  shows "span_digits 16 (u @ v) = (map (the \<circ> to_digit 16) u, v)"
  using assms
proof (induction u)
  case Nil
  then show ?case by (cases v) auto
next
  case (Cons c u)
  then obtain d where "to_digit 16 c = Some d" by fastforce
  with Cons show ?case by simp
qed

lemma read_hex_group:
  assumes "v = [] \<or> to_digit 16 (hd v) = None"
  shows "read_number 16 4 True 65536 (show_hex (unat (g :: u16)) @ v) = Some (unat g, v)"
proof -
  have lt: "unat g < 65536" using unsigned_less [of g, where ?'a = nat] by simp
  have d: "\<And>c. c \<in> set (show_hex (unat g)) \<Longrightarrow> to_digit 16 c \<noteq> None"
    using show_hex_digits hex_char_val by fastforce
  have s: "span_digits 16 (show_hex (unat g) @ v) = (map (the \<circ> to_digit 16) (show_hex (unat g)), v)"
    by (rule span_hex_app [OF d assms])
  show ?thesis using show_hex_small [of "unat g" 3] lt show_hex_val [of "unat g"]
    by (simp add: read_number_def s del: foldl_map)
qed

lemma read_number_rest: "read_number r m z l s = Some (v, t) \<Longrightarrow> set t \<subseteq> set s"
proof -
  have "snd (span_digits r s) = t \<Longrightarrow> set t \<subseteq> set s" for t
    by (induction r s arbitrary: t rule: span_digits.induct) (auto split: option.splits prod.splits)
  then show "read_number r m z l s = Some (v, t) \<Longrightarrow> set t \<subseteq> set s"
    by (auto simp: read_number_def Let_def split: prod.splits if_splits)
qed

lemma read_ipv4_no_dot: "CHR ''.'' \<notin> set s \<Longrightarrow> read_ipv4 s = None"
  by (auto simp: read_ipv4_def read_octet_def read_separator_def read_char_def
      split: option.splits list.splits dest: read_number_rest)

text \<open>The groups of an address as they stand in its text, from group \<open>i\<close> on.\<close>

definition groups_text :: "nat \<Rightarrow> u16 list \<Rightarrow> string" where
  "groups_text i gs = (if i = 0 then show_groups gs else concat (map (\<lambda>g. CHR '':'' # show_hex (unat g)) gs))"

lemma groups_text_Cons:
  "groups_text i (g # gs) = (if i = 0 then [] else '':'') @ show_hex (unat g) @ groups_text (Suc i) gs"
  by (induction gs arbitrary: g) (auto simp: groups_text_def)

lemma groups_text_no_dot: "CHR ''.'' \<notin> set (groups_text i gs)"
proof -
  have n: "CHR ''.'' \<notin> set (show_hex n)" for n by (rule show_hex_not_mem) (simp add: to_digit_def)
  show ?thesis
  proof (induction gs arbitrary: i)
    case Nil
    show ?case by (simp add: groups_text_def)
  qed (simp add: groups_text_Cons n)
qed

lemma groups_text_hd: "gs \<noteq> [] \<Longrightarrow> 0 < i \<Longrightarrow> hd (groups_text i gs) = CHR '':''"
  by (cases gs) (simp_all add: groups_text_Cons)

lemma read_groups_text:
  assumes "length gs \<le> n" "r = [] \<or> (\<exists>t. r = CHR '':'' # CHR '':'' # t)" "CHR ''.'' \<notin> set r"
  shows "read_groups i n (groups_text i gs @ r) = (map unat gs, False, r)"
  using assms(1)
proof (induction gs arbitrary: i n)
  case Nil
  have num: "read_number 16 4 True 65536 (CHR '':'' # t) = None" "read_number 16 4 True 65536 [] = None" for t
    by (simp_all add: read_number_def to_digit_def)
  have four: "read_separator CHR '':'' i read_ipv4 r = None"
    using assms(3) read_ipv4_no_dot [of r] read_ipv4_no_dot [of "tl r"]
    by (cases r) (auto simp: read_separator_def read_char_def)
  have "groups_text i [] = []" by (simp add: groups_text_def)
  moreover have "read_separator CHR '':'' i (read_number 16 4 True 65536) r = None"
    using assms(2) num by (auto simp: read_separator_def read_char_def)
  ultimately show ?case using four by (cases n) simp_all
next
  case (Cons g gs)
  then obtain m where n: "n = Suc m" by (cases n) auto
  let ?rest = "groups_text (Suc i) gs @ r"
  have dot: "CHR ''.'' \<notin> set (groups_text i (g # gs) @ r)"
    using assms(3) groups_text_no_dot by simp
  then have four: "read_separator CHR '':'' i read_ipv4 (groups_text i (g # gs) @ r) = None"
    by (auto simp: read_separator_def read_char_def groups_text_Cons intro!: read_ipv4_no_dot)
  have colon: "to_digit 16 CHR '':'' = None" by (simp add: to_digit_def)
  have "?rest = [] \<or> to_digit 16 (hd ?rest) = None"
    using groups_text_hd [of gs "Suc i"] assms(2) colon
    by (cases gs) (auto simp: groups_text_def)
  then have "read_separator CHR '':'' i (read_number 16 4 True 65536) (groups_text i (g # gs) @ r) = Some (unat g, ?rest)"
    using read_hex_group [of ?rest g] by (cases "i = 0") (simp_all add: groups_text_Cons read_separator_def read_char_def)
  moreover have "read_groups (Suc i) m ?rest = (map unat gs, False, r)"
    using Cons n by simp
  ultimately show ?case using four
    by (simp only: n read_groups.simps option.case if_cancel Let_def prod.case list.map)
qed

lemma zero_runs_zeros:
  assumes "zero_runs (length p) longest current gs = (s, l)"
    "length p + length gs = N" "xs = p @ gs"
    "fst longest + snd longest \<le> length p" "\<forall>k < snd longest. xs ! (fst longest + k) = 0"
    "snd current > 0 \<longrightarrow> fst current + snd current = length p" "\<forall>k < snd current. xs ! (fst current + k) = 0"
  shows "s + l \<le> N \<and> (\<forall>k < l. xs ! (s + k) = 0)"
  using assms
proof (induction gs arbitrary: p longest current)
  case Nil
  then show ?case by auto
next
  case (Cons g gs)
  have len: "length (p @ [g]) = Suc (length p)" by simp
  have at: "xs ! length p = g" using Cons.prems(3) by simp
  show ?case
  proof (cases "g = 0")
    case False
    show ?thesis
      by (rule Cons.IH [of "p @ [g]" longest "(0, 0)"]) (use Cons.prems False in auto)
  next
    case True
    define cur where "cur = ((if snd current = 0 then length p else fst current), snd current + 1)"
    have cz: "\<forall>k < snd cur. xs ! (fst cur + k) = 0" "fst cur + snd cur = Suc (length p)"
      using Cons.prems(6,7) at True by (auto simp: cur_def less_Suc_eq)
    show ?thesis
      by (rule Cons.IH [of "p @ [g]" "if snd cur > snd longest then cur else longest" cur])
        (use Cons.prems True cz in \<open>auto simp: cur_def Let_def\<close>)
  qed
qed

lemma zero_run_split:
  assumes "zero_runs 0 (0, 0) (0, 0) gs = (s, l)"
  shows "gs = take s gs @ replicate l 0 @ drop (s + l) gs \<and> s + l \<le> length gs"
proof -
  have z: "s + l \<le> length gs" "\<forall>k < l. gs ! (s + k) = 0"
    using zero_runs_zeros [of "[]" "(0, 0)" "(0, 0)" gs s l "length gs" gs] assms by auto
  have "take l (drop s gs) = replicate l 0" using z by (auto intro!: nth_equalityI)
  then have "drop s gs = replicate l 0 @ drop (s + l) gs"
    using append_take_drop_id [of l "drop s gs"] by (simp add: add.commute)
  then show ?thesis using z append_take_drop_id [of s gs] by metis
qed

lemma map_unat_of_nat [simp]: "map (of_nat \<circ> unat) (gs :: u16 list) = gs"
  by (simp add: comp_def)

lemma u16_from_be_nat: "u16_from_be a b = of_nat (unat a * 256 + unat b)"
proof -
  have "push_bit 8 (ucast a :: u16) AND ucast b = 0" by (rule bit_word_eqI) (auto simp: bit_simps)
  then have "push_bit 8 (ucast a :: u16) OR ucast b = push_bit 8 (ucast a) + ucast b"
    by (rule disjunctive_add_eq_or [symmetric])
  then show ?thesis by (simp add: u16_from_be_def u16_from_le_def or.commute push_bit_eq_mult)
qed

lemma parse_v6_mapped:
  "parse_v6 (''::ffff:'' @ show_v4 a b c d) =
     Some [0, 0, 0, 0, 0, 0xFFFF, u16_from_be a b, u16_from_be c d]"
proof -
  let ?t = "show_v4 a b c d"
  have num: "read_number 16 4 True 65536 (CHR '':'' # t) = None" "read_number 10 3 False 256 (CHR '':'' # t) = None" for t
    by (simp_all add: read_number_def to_digit_def)
  have f: "read_number 10 3 False 256 (CHR ''f'' # t) = None" for t by (simp add: read_number_def to_digit_def)
  have ffff: "read_number 16 4 True 65536 (''ffff:'' @ ?t) = Some (65535, CHR '':'' # ?t)"
    by (simp add: read_number_def to_digit_def)
  have none: "read_ipv4 (CHR '':'' # t) = None" "read_ipv4 (CHR ''f'' # t) = None" for t
    by (simp_all add: read_ipv4_def read_octet_def read_separator_def num f)
  have "read_groups 0 (Suc m) (''::ffff:'' @ ?t) = ([], False, ''::ffff:'' @ ?t)" for m
    by (simp add: read_separator_def num none)
  from this [of 7] have head: "read_groups 0 8 (''::ffff:'' @ ?t) = ([], False, ''::ffff:'' @ ?t)" by simp
  have "read_groups 1 (Suc (Suc m)) (CHR '':'' # ?t) = ([unat a * 256 + unat b, unat c * 256 + unat d], True, [])" for m
    by (simp add: read_separator_def read_char_def read_ipv4_show)
  then have "read_groups 0 (Suc (Suc (Suc m))) (''ffff:'' @ ?t) = ([65535, unat a * 256 + unat b, unat c * 256 + unat d], True, [])" for m
    using ffff by (simp add: read_separator_def none)
  from this [of 4] have tl: "read_groups 0 7 (''ffff:'' @ ?t) = ([65535, unat a * 256 + unat b, unat c * 256 + unat d], True, [])"
    by simp
  have "replicate 5 (0 :: nat) = [0, 0, 0, 0, 0]" by (simp add: numeral_eq_Suc)
  then have "read_ipv6 (''::ffff:'' @ ?t) = Some ([0, 0, 0, 0, 0, 65535, unat a * 256 + unat b, unat c * 256 + unat d], [])"
    using head tl by (simp add: read_ipv6_def read_char_def)
  then show ?thesis by (simp add: parse_v6_def u16_from_be_nat)
qed

lemma parse_v6_groups:
  assumes "length h + length t < 8"
  shows "parse_v6 (show_groups h @ ''::'' @ show_groups t) = Some (h @ replicate (8 - length h - length t) 0 @ t)"
proof -
  have tx: "show_groups gs = groups_text 0 gs" for gs by (simp add: groups_text_def)
  have "read_groups 0 8 (groups_text 0 h @ ''::'' @ groups_text 0 t) = (map unat h, False, ''::'' @ groups_text 0 t)"
    by (rule read_groups_text) (use assms groups_text_no_dot in auto)
  moreover have "read_groups 0 (8 - Suc (length h)) (groups_text 0 t) = (map unat t, False, [])"
    using read_groups_text [of t "8 - Suc (length h)" "[]" 0] assms by simp
  ultimately show ?thesis using assms
    by (simp add: parse_v6_def read_ipv6_def read_char_def tx)
qed

lemma parse_v6_full: "length gs = 8 \<Longrightarrow> parse_v6 (show_groups gs) = Some gs"
  using read_groups_text [of gs 8 "[]" 0] by (simp add: parse_v6_def read_ipv6_def groups_text_def)

lemma length_8E:
  assumes "length xs = 8"
  obtains a b c d e f g h where "xs = [a, b, c, d, e, f, g, h]"
  using assms by (auto simp: numeral_eq_Suc length_Suc_conv)

lemma parse_v6_show:
  assumes "length gs = 8"
  shows "parse_v6 (show_v6 gs) = Some gs"
proof (cases "take 6 gs = [0, 0, 0, 0, 0, 0xFFFF]")
  case True
  from assms obtain a b c d e f g h where "gs = [a, b, c, d, e, f, g, h]" by (rule length_8E)
  then show ?thesis using True parse_v6_mapped by (simp add: show_v6_def)
next
  case False
  obtain s l where z: "zero_runs 0 (0, 0) (0, 0) gs = (s, l)" by (cases "zero_runs 0 (0, 0) (0, 0) gs")
  note sp = zero_run_split [OF z]
  show ?thesis
  proof (cases "l > 1")
    case True
    have "8 - length (take s gs) - length (drop (s + l) gs) = l" using sp assms by simp
    then show ?thesis using False True z sp assms parse_v6_groups [of "take s gs" "drop (s + l) gs"]
      by (simp add: show_v6_def)
  next
    case F: False
    then show ?thesis using False z assms parse_v6_full by (simp add: show_v6_def)
  qed
qed

lemma parse_v4_show [simp]: "parse_v4 (show_v4 a b c d) = Some (a, b, c, d)"
  by (simp add: parse_v4_def read_ipv4_show)

lemma read_ipv4_colon: "read_ipv4 (CHR '':'' # t) = None"
  by (simp add: read_ipv4_def read_octet_def read_separator_def read_number_def to_digit_def)

lemma show_v6_cases:
  obtains (mapped) t where "show_v6 gs = CHR '':'' # t" | (plain) "CHR ''.'' \<notin> set (show_v6 gs)"
proof (cases "take 6 gs = [0, 0, 0, 0, 0, 0xFFFF]")
  case True
  then show ?thesis using mapped by (simp add: show_v6_def)
next
  case False
  then have "CHR ''.'' \<notin> set (show_v6 gs)"
    using groups_text_no_dot [of 0] by (simp add: show_v6_def groups_text_def split: prod.splits)
  then show ?thesis by (rule plain)
qed

lemma parse_v4_show_v6 [simp]: "parse_v4 (show_v6 gs) = None"
  by (rule show_v6_cases [of gs]) (simp_all add: parse_v4_def read_ipv4_colon read_ipv4_no_dot)

lemma parse_ip_show_v6: "length gs = 8 \<Longrightarrow> parse_ip (show_v6 gs) = Some (V6 gs)"
  using parse_v6_show [of gs]
  by (cases rule: show_v6_cases [of gs])
    (auto simp: parse_ip_def parse_v6_def read_ipv4_colon read_ipv4_no_dot split: option.splits prod.splits if_splits)

lemma parse_ip_show_ip: "ip_ok a \<Longrightarrow> parse_ip (show_ip a) = Some a"
  by (cases a) (simp_all add: ip_ok_def parse_ip_show_v6 parse_ip_show_v4)

text \<open>The characters of a printed address: hexadecimal digits, colons and dots.\<close>

lemma show_v4_chars: "c \<in> set (show_v4 a b x d) \<Longrightarrow> to_digit 16 c \<noteq> None \<or> c = CHR ''.''"
proof -
  have "c \<in> set (show_nat n) \<Longrightarrow> to_digit 16 c \<noteq> None" for n
    using show_nat_chars [of c n] by (simp add: to_digit_def Let_def) arith
  then show "c \<in> set (show_v4 a b x d) \<Longrightarrow> to_digit 16 c \<noteq> None \<or> c = CHR ''.''"
    by (auto simp: show_v4_def)
qed

lemma show_groups_chars: "c \<in> set (show_groups gs) \<Longrightarrow> to_digit 16 c \<noteq> None \<or> c = CHR '':''"
  using hex_char_val by (induction gs rule: show_groups.induct) (auto dest!: show_hex_digits)

lemma show_ip_chars: "c \<in> set (show_ip a) \<Longrightarrow> to_digit 16 c \<noteq> None \<or> c = CHR ''.'' \<or> c = CHR '':''"
proof (cases a)
  case (V6 gs)
  assume "c \<in> set (show_ip a)"
  then show ?thesis using V6 show_groups_chars show_v4_chars
    by (fastforce simp: show_v6_def to_digit_def split: prod.splits if_splits)
qed (use show_v4_chars in fastforce)

lemma show_ip_clean:
  "CHR ''['' \<notin> set (show_ip a)" "CHR '']'' \<notin> set (show_ip a)" "ascii (show_ip a)"
proof -
  have "to_digit 16 c \<noteq> None \<Longrightarrow> (of_char c :: nat) \<le> 127" for c
    by (auto simp: to_digit_def Let_def split: if_splits)
  then show "ascii (show_ip a)"
    using show_ip_chars [of _ a] by (fastforce simp: ascii_def list_all_iff byte_in_def)
qed (use show_ip_chars [of _ a] in \<open>force simp: to_digit_def\<close>)+

lemma show_groups_colon: "length gs > 1 \<Longrightarrow> CHR '':'' \<in> set (show_groups gs)"
  by (cases gs rule: show_groups.cases) simp_all

lemma show_v6_colon: "length gs = 8 \<Longrightarrow> CHR '':'' \<in> set (show_v6 gs)"
  using show_groups_colon [of gs] by (cases "zero_runs 0 (0, 0) (0, 0) gs") (simp add: show_v6_def)

lemma show_v4_no_colon: "CHR '':'' \<notin> set (show_v4 a b c d)"
  using show_v4_chars [of "CHR '':''"] by (force simp: to_digit_def)

text \<open>Parsing an address consumes only hexadecimal digits, dots and colons.\<close>

definition addr_char :: "char \<Rightarrow> bool" where
  "addr_char c \<longleftrightarrow> to_digit 16 c \<noteq> None \<or> c = CHR ''.'' \<or> c = CHR '':''"

definition consumes :: "string \<Rightarrow> string \<Rightarrow> bool" where
  "consumes s r \<longleftrightarrow> (\<exists>u. s = u @ r \<and> list_all addr_char u)"

lemma consumes_refl: "consumes s s"
  by (auto simp: consumes_def)

lemma consumes_trans: "consumes s t \<Longrightarrow> consumes t r \<Longrightarrow> consumes s r"
  by (auto simp: consumes_def)

lemma consumes_number:
  assumes "read_number x m z l s = Some (v, r)" "x = 10 \<or> x = 16"
  shows "consumes s r"
proof -
  have "consumes s (snd (span_digits x s))" using assms(2)
  proof (induction x s rule: span_digits.induct)
    case (2 x c s)
    have "to_digit x c \<noteq> None \<Longrightarrow> addr_char c"
      using 2(2) by (auto simp: addr_char_def to_digit_def Let_def split: if_splits)
    moreover have "consumes (c # s) r" if "consumes s r" "addr_char c" for r
      using that by (auto simp: consumes_def intro: exI [of _ "c # _"])
    ultimately show ?case using 2 consumes_refl by (auto split: option.splits prod.splits)
  qed (simp add: consumes_refl)
  then show ?thesis using assms(1) by (auto simp: read_number_def Let_def split: prod.splits if_splits)
qed

lemma consumes_separator:
  assumes "read_separator sep i p s = Some (v, r)" "\<And>s v r. p s = Some (v, r) \<Longrightarrow> consumes s r" "addr_char sep"
  shows "consumes s r"
proof -
  have "consumes (sep # t) r" if "consumes t r" for t using that assms(3) by (auto simp: consumes_def intro: exI [of _ "sep # _"])
  then show ?thesis using assms(1,2)
    by (auto simp: read_separator_def read_char_def split: if_splits option.splits list.splits)
qed

lemma consumes_octet: "read_octet i s = Some (v, r) \<Longrightarrow> consumes s r"
  unfolding read_octet_def by (erule consumes_separator) (auto intro: consumes_number simp: addr_char_def)

lemma consumes_ipv4: "read_ipv4 s = Some (v, r) \<Longrightarrow> consumes s r"
  by (auto simp: read_ipv4_def split: option.splits dest!: consumes_octet) (metis consumes_trans)

lemma consumes_groups: "read_groups i n s = (gs, v4, r) \<Longrightarrow> consumes s r"
proof (induction i n s arbitrary: gs v4 r rule: read_groups.induct)
  case (2 i n s)
  have c: "addr_char CHR '':''" by (simp add: addr_char_def)
  have a: "read_separator CHR '':'' i read_ipv4 s = Some (v, t) \<Longrightarrow> consumes s t" for v t
    by (erule consumes_separator) (auto intro: consumes_ipv4 c)
  have b: "read_separator CHR '':'' i (read_number 16 4 True 65536) s = Some (v, t) \<Longrightarrow> consumes s t" for v t
    by (erule consumes_separator) (auto intro: consumes_number c)
  from 2 show ?case
    by (auto split: option.splits prod.splits if_splits dest!: a b intro: consumes_refl consumes_trans)
qed (simp add: consumes_refl)

lemma consumes_ipv6: "read_ipv6 s = Some (gs, r) \<Longrightarrow> consumes s r"
proof -
  assume r: "read_ipv6 s = Some (gs, r)"
  have c: "read_char CHR '':'' s = Some t \<Longrightarrow> consumes s t" for s t
    by (cases s) (auto simp: read_char_def consumes_def addr_char_def split: if_splits intro!: exI [of _ "[CHR '':'']"])
  from r show ?thesis
    by (auto simp: read_ipv6_def Let_def split: prod.splits if_splits option.splits dest!: c consumes_groups
        intro: consumes_trans)
qed

lemma parse_v4_chars: "parse_v4 s = Some v \<Longrightarrow> list_all addr_char s"
  by (auto simp: parse_v4_def consumes_def split: option.splits prod.splits if_splits dest: consumes_ipv4)

lemma parse_v6_chars: "parse_v6 s = Some v \<Longrightarrow> list_all addr_char s"
  by (auto simp: parse_v6_def consumes_def split: option.splits prod.splits if_splits dest: consumes_ipv6)

lemma not_address:
  assumes "c \<in> set s" "\<not> addr_char c"
  shows "parse_v4 s = None" "parse_v6 s = None"
  using assms parse_v4_chars [of s] parse_v6_chars [of s] by (force simp: list_all_iff)+

end
