(* ===== verification/Conn.thy ===== *)
theory Conn
  imports NetAddr
begin

text \<open>
  Connections (\<^verbatim>\<open>src/src/conn.rs\<close>). A byte stream of the runtime is a \<open>wire\<close>: a script of what
  successive reads find (data in chunks of any size, a read that would block, an error, the
  end) and of how many bytes successive writes take. \<^verbatim>\<open>ProxyConn\<close> wraps such a stream with the
  addresses handlers need and a buffer of bytes read ahead or pushed back. The lemmas reduce
  reading to one function, \<open>content\<close>: the bytes still to be delivered, in order.
\<close>

section \<open>Byte streams\<close>

datatype rd_event = Data bytes | Stall | Fail io_error
datatype wr_event = Take nat | WStall | WFail io_error

record wire =
  w_in :: "rd_event list"
  w_out :: bytes
  w_acc :: "wr_event list"
  w_fin :: bool

text \<open>\<^verbatim>\<open>AsyncRead::poll_read\<close> with room for \<open>cap\<close> bytes; no bytes means the end of the stream.\<close>

definition wire_read :: "nat \<Rightarrow> wire \<Rightarrow> (io_error + bytes) poll \<times> wire" where
  "wire_read cap w =
     (case w_in w of
        [] \<Rightarrow> (Ready (Inr []), w)
      | Stall # r \<Rightarrow> (Pending, w\<lparr>w_in := r\<rparr>)
      | Fail e # r \<Rightarrow> (Ready (Inl e), w\<lparr>w_in := r\<rparr>)
      | Data bs # r \<Rightarrow>
          (Ready (Inr (take cap bs)),
           if bs = [] then w else w\<lparr>w_in := (if drop cap bs = [] then r else Data (drop cap bs) # r)\<rparr>))"

text \<open>\<^verbatim>\<open>AsyncWrite::poll_write\<close>: how many bytes were taken.\<close>

definition wire_write :: "bytes \<Rightarrow> wire \<Rightarrow> (io_error + nat) poll \<times> wire" where
  "wire_write bs w =
     (case w_acc w of
        [] \<Rightarrow> (Ready (Inr (length bs)), w\<lparr>w_out := w_out w @ bs\<rparr>)
      | WStall # r \<Rightarrow> (Pending, w\<lparr>w_acc := r\<rparr>)
      | WFail e # r \<Rightarrow> (Ready (Inl e), w\<lparr>w_acc := r\<rparr>)
      | Take n # r \<Rightarrow> (Ready (Inr (min n (length bs))), w\<lparr>w_acc := r, w_out := w_out w @ take n bs\<rparr>))"

definition wire_flush :: "wire \<Rightarrow> (io_error + unit) poll \<times> wire" where
  "wire_flush w = (Ready (Inr ()), w)"

definition wire_shutdown :: "wire \<Rightarrow> (io_error + unit) poll \<times> wire" where
  "wire_shutdown w = (Ready (Inr ()), w\<lparr>w_fin := True\<rparr>)"

text \<open>\<^verbatim>\<open>read(..).await\<close>: reads that would block are waited for.\<close>

definition await_read :: "nat \<Rightarrow> wire \<Rightarrow> (io_error + bytes) \<times> wire" where
  "await_read cap w =
     (case wire_read cap (w\<lparr>w_in := dropWhile (\<lambda>e. e = Stall) (w_in w)\<rparr>) of
        (Ready r, w') \<Rightarrow> (r, w')
      | (Pending, w') \<Rightarrow> (Inr [], w'))"

text \<open>The bytes a stream delivers before its end or its first error, and that error.\<close>

fun arrives :: "rd_event list \<Rightarrow> bytes" where
  "arrives [] = []"
| "arrives (Stall # r) = arrives r"
| "arrives (Fail e # r) = []"
| "arrives (Data bs # r) = (if bs = [] then [] else bs @ arrives r)"

fun ending :: "rd_event list \<Rightarrow> io_error option" where
  "ending [] = None"
| "ending (Stall # r) = ending r"
| "ending (Fail e # r) = Some e"
| "ending (Data bs # r) = (if bs = [] then None else ending r)"

fun event_size :: "rd_event \<Rightarrow> nat" where
  "event_size (Data bs) = Suc (length bs)"
| "event_size _ = 1"

definition wire_weight :: "wire \<Rightarrow> nat" where
  "wire_weight w = sum_list (map event_size (w_in w))"

section \<open>The contract of a byte source\<close>

text \<open>
  What a reader may rely on: a read delivers the next bytes of the content and nothing else,
  a pending read delivers nothing, and a read of no bytes with room for some means that the
  content is exhausted.
\<close>

fun poll_all :: "(nat \<Rightarrow> 's \<Rightarrow> (io_error + bytes) poll \<times> 's) \<Rightarrow> nat list \<Rightarrow> 's \<Rightarrow> (io_error + bytes) \<times> 's" where
  "poll_all rd [] s = (Inr [], s)"
| "poll_all rd (cap # caps) s =
     (case rd cap s of
        (Pending, s') \<Rightarrow> poll_all rd caps s'
      | (Ready (Inl e), s') \<Rightarrow> (Inl e, s')
      | (Ready (Inr bs), s') \<Rightarrow>
          (case poll_all rd caps s' of
             (Inl e, s'') \<Rightarrow> (Inl e, s'')
           | (Inr r, s'') \<Rightarrow> (Inr (bs @ r), s'')))"

locale byte_source =
  fixes rd :: "nat \<Rightarrow> 's \<Rightarrow> (io_error + bytes) poll \<times> 's"
    and content_of :: "'s \<Rightarrow> bytes"
    and ok :: "'s \<Rightarrow> bool"
  assumes read_keeps: "ok s \<Longrightarrow> rd cap s = (r, s') \<Longrightarrow> ok s'"
    and read_delivers: "ok s \<Longrightarrow> rd cap s = (Ready (Inr bs), s') \<Longrightarrow> content_of s = bs @ content_of s' \<and> length bs \<le> cap"
    and read_pends: "ok s \<Longrightarrow> rd cap s = (Pending, s') \<Longrightarrow> content_of s' = content_of s"
    and read_ends: "ok s \<Longrightarrow> rd cap s = (Ready (Inr []), s') \<Longrightarrow> 0 < cap \<Longrightarrow> content_of s = []"
begin

lemma reads_in_order:
  "ok s \<Longrightarrow> poll_all rd caps s = (Inr bs, s') \<Longrightarrow> content_of s = bs @ content_of s' \<and> ok s'"
proof (induction caps arbitrary: s bs)
  case (Cons cap caps)
  obtain r s1 where r: "rd cap s = (r, s1)" by (cases "rd cap s")
  note k = read_keeps [OF Cons.prems(1) r]
  show ?case
  proof (cases r)
    case Pending
    then show ?thesis using Cons r k read_pends by fastforce
  next
    case (Ready x)
    then obtain b rest where x: "x = Inr b" "poll_all rd caps s1 = (Inr rest, s')" "bs = b @ rest"
      using Cons.prems r by (auto split: sum.splits prod.splits)
    from Cons.IH [OF k x(2)] read_delivers [OF Cons.prems(1)] r Ready x show ?thesis by auto
  qed
qed auto

lemma reads_independent_of_sizes:
  assumes "ok s" "poll_all rd caps s = (Inr xs, s1)" "poll_all rd caps' s = (Inr ys, s2)" "length xs \<le> length ys"
  shows "prefix xs ys"
proof -
  have "xs @ content_of s1 = ys @ content_of s2"
    using reads_in_order [OF assms(1,2)] reads_in_order [OF assms(1,3)] by simp
  then show ?thesis using assms(4) by (metis append_eq_append_conv_if prefixI append_take_drop_id)
qed

end

lemma wire_read_cases:
  obtains (eof) "w_in w = []" "wire_read cap w = (Ready (Inr []), w)"
  | (fin) r where "w_in w = Data [] # r" "wire_read cap w = (Ready (Inr []), w)"
  | (data) bs r where "w_in w = Data bs # r" "bs \<noteq> []"
      "wire_read cap w = (Ready (Inr (take cap bs)), w\<lparr>w_in := (if drop cap bs = [] then r else Data (drop cap bs) # r)\<rparr>)"
  | (stall) r where "w_in w = Stall # r" "wire_read cap w = (Pending, w\<lparr>w_in := r\<rparr>)"
  | (err) e r where "w_in w = Fail e # r" "wire_read cap w = (Ready (Inl e), w\<lparr>w_in := r\<rparr>)"
proof (cases "w_in w")
  case (Cons ev r)
  then show ?thesis using that by (cases ev) (auto simp: wire_read_def)
qed (use that in \<open>simp add: wire_read_def\<close>)

interpretation wires: byte_source wire_read "\<lambda>w. arrives (w_in w)" "\<lambda>_. True"
proof
  fix cap w bs w'
  assume "wire_read cap w = (Ready (Inr bs), w')"
  then show "arrives (w_in w) = bs @ arrives (w_in w') \<and> length bs \<le> cap"
    by (cases rule: wire_read_cases [of w cap]) (auto split: if_splits simp: append_take_drop_id [symmetric] simp del: append_take_drop_id)
next
  fix cap w w'
  assume "wire_read cap w = (Pending, w')"
  then show "arrives (w_in w') = arrives (w_in w)" by (cases rule: wire_read_cases [of w cap]) auto
next
  fix cap w w'
  assume "wire_read cap w = (Ready (Inr []), w')" "0 < cap"
  then show "arrives (w_in w) = []" by (cases rule: wire_read_cases [of w cap]) auto
qed simp

section \<open>ProxyConn\<close>

record proxy_conn =
  px_inner :: wire
  px_peer :: "socket_addr option"
  px_local :: "socket_addr option"
  px_original_dst :: "socket_addr option"
  px_prefix :: bytes
  px_pos :: nat

definition conn_new :: "wire \<Rightarrow> socket_addr option \<Rightarrow> socket_addr option \<Rightarrow> proxy_conn" where
  "conn_new inner peer_addr local_addr =
     \<lparr>px_inner = inner, px_peer = peer_addr, px_local = local_addr, px_original_dst = None,
      px_prefix = [], px_pos = 0\<rparr>"

text \<open>A TCP socket: the stream and what \<^verbatim>\<open>peer_addr()\<close> and \<^verbatim>\<open>local_addr()\<close> of the socket return.\<close>

record tcp_stream =
  tcp_wire :: wire
  tcp_peer :: "io_error + socket_addr"
  tcp_local :: "io_error + socket_addr"

definition ok_of :: "'e + 'a \<Rightarrow> 'a option" where
  "ok_of r = (case r of Inl _ \<Rightarrow> None | Inr a \<Rightarrow> Some a)"

definition from_tcp :: "tcp_stream \<Rightarrow> proxy_conn" where
  "from_tcp s = conn_new (tcp_wire s) (ok_of (tcp_peer s)) (ok_of (tcp_local s))"

definition layered :: "wire \<Rightarrow> socket_addr option \<Rightarrow> socket_addr option \<Rightarrow> proxy_conn" where
  "layered inner peer_addr local_addr = conn_new inner peer_addr local_addr"

definition with_original_dst :: "socket_addr option \<Rightarrow> proxy_conn \<Rightarrow> proxy_conn" where
  "with_original_dst addr c = c\<lparr>px_original_dst := addr\<rparr>"

definition peer_addr_str :: "proxy_conn \<Rightarrow> string" where
  "peer_addr_str c = (case px_peer c of Some a \<Rightarrow> show_sockaddr a | None \<Rightarrow> ''unknown'')"

definition local_addr_str :: "proxy_conn \<Rightarrow> string" where
  "local_addr_str c = (case px_local c of Some a \<Rightarrow> show_sockaddr a | None \<Rightarrow> ''unknown'')"

definition buffered :: "proxy_conn \<Rightarrow> bytes" where
  "buffered c = drop (px_pos c) (px_prefix c)"

definition unread :: "bytes \<Rightarrow> proxy_conn \<Rightarrow> proxy_conn" where
  "unread bs c = (if bs = [] then c else c\<lparr>px_prefix := bs @ buffered c, px_pos := 0\<rparr>)"

definition conn_poll_read :: "nat \<Rightarrow> proxy_conn \<Rightarrow> (io_error + bytes) poll \<times> proxy_conn" where
  "conn_poll_read cap c =
     (if px_pos c < length (px_prefix c)
      then let available = buffered c;
               n = min cap (length available);
               c1 = c\<lparr>px_pos := px_pos c + n\<rparr>;
               c2 = (if px_pos c1 = length (px_prefix c1) then c1\<lparr>px_prefix := [], px_pos := 0\<rparr> else c1)
           in (Ready (Inr (take n available)), c2)
      else let (r, w) = wire_read cap (px_inner c) in (r, c\<lparr>px_inner := w\<rparr>))"

definition conn_poll_write :: "bytes \<Rightarrow> proxy_conn \<Rightarrow> (io_error + nat) poll \<times> proxy_conn" where
  "conn_poll_write bs c = (let (r, w) = wire_write bs (px_inner c) in (r, c\<lparr>px_inner := w\<rparr>))"

definition conn_poll_flush :: "proxy_conn \<Rightarrow> (io_error + unit) poll \<times> proxy_conn" where
  "conn_poll_flush c = (let (r, w) = wire_flush (px_inner c) in (r, c\<lparr>px_inner := w\<rparr>))"

definition conn_poll_shutdown :: "proxy_conn \<Rightarrow> (io_error + unit) poll \<times> proxy_conn" where
  "conn_poll_shutdown c = (let (r, w) = wire_shutdown (px_inner c) in (r, c\<lparr>px_inner := w\<rparr>))"

lemma await_read_weight:
  assumes "await_read cap w = (Inr bs, w')" "bs \<noteq> []"
  shows "wire_weight w' < wire_weight w"
proof -
  let ?w = "w\<lparr>w_in := dropWhile (\<lambda>e. e = Stall) (w_in w)\<rparr>"
  have d: "sum_list (map event_size (dropWhile P xs)) \<le> sum_list (map event_size xs)" for P xs
    by (induction xs) auto
  have "wire_weight w' < wire_weight ?w"
    using assms
    by (cases rule: wire_read_cases [of ?w cap]) (auto simp: await_read_def wire_weight_def split: if_splits)
  then show ?thesis using d [of "\<lambda>e. e = Stall" "w_in w"] by (simp add: wire_weight_def)
qed

text \<open>The loop of \<^verbatim>\<open>peek\<close>: read ahead until enough is buffered, the stream ends or fails.\<close>

function peek_fill :: "nat \<Rightarrow> proxy_conn \<Rightarrow> (io_error + unit) \<times> proxy_conn" where
  "peek_fill len c =
     (if length (buffered c) < len
      then (case await_read (len - length (buffered c)) (px_inner c) of
              (Inl e, w) \<Rightarrow> (Inl e, c\<lparr>px_inner := w\<rparr>)
            | (Inr chunk, w) \<Rightarrow>
                if chunk = [] then (Inr (), c\<lparr>px_inner := w\<rparr>)
                else peek_fill len (c\<lparr>px_inner := w, px_prefix := px_prefix c @ chunk\<rparr>))
      else (Inr (), c))"
  by pat_completeness auto
termination
  by (relation "measure (\<lambda>(_, c). wire_weight (px_inner c))") (auto intro: await_read_weight [OF sym])

declare peek_fill.simps [simp del]

definition peek :: "nat \<Rightarrow> proxy_conn \<Rightarrow> (io_error + bytes) \<times> proxy_conn" where
  "peek len c =
     (case peek_fill len c of
        (Inl e, c') \<Rightarrow> (Inl e, c')
      | (Inr _, c') \<Rightarrow> (Inr (take (min (length (buffered c')) len) (buffered c')), c'))"

text \<open>
  \<^verbatim>\<open>read_exact\<close> and \<^verbatim>\<open>write_all\<close> of the runtime, over \<^verbatim>\<open>poll_read\<close> and \<^verbatim>\<open>poll_write\<close>.
\<close>

definition conn_weight :: "proxy_conn \<Rightarrow> nat" where
  "conn_weight c = length (buffered c) + wire_weight (px_inner c)"

lemma conn_read_weight:
  assumes "conn_poll_read cap c = (r, c')" "r = Pending \<or> (\<exists>bs. r = Ready (Inr bs) \<and> bs \<noteq> [])"
  shows "conn_weight c' < conn_weight c"
proof (cases "px_pos c < length (px_prefix c)")
  case True
  then show ?thesis using assms
    by (auto simp: conn_poll_read_def conn_weight_def buffered_def Let_def split: if_splits)
next
  case False
  then show ?thesis using assms
    by (cases rule: wire_read_cases [of "px_inner c" cap])
      (auto simp: conn_poll_read_def conn_weight_def buffered_def wire_weight_def split: if_splits)
qed

function conn_read_exact :: "nat \<Rightarrow> proxy_conn \<Rightarrow> (io_error + bytes) \<times> proxy_conn" where
  "conn_read_exact n c =
     (if n = 0 then (Inr [], c)
      else case conn_poll_read n c of
        (Pending, c') \<Rightarrow> conn_read_exact n c'
      | (Ready (Inl e), c') \<Rightarrow> (Inl e, c')
      | (Ready (Inr bs), c') \<Rightarrow>
          if bs = [] then (Inl (IoError UnexpectedEof ''early eof''), c')
          else (case conn_read_exact (n - length bs) c' of
                  (Inl e, c'') \<Rightarrow> (Inl e, c'')
                | (Inr r, c'') \<Rightarrow> (Inr (bs @ r), c'')))"
  by pat_completeness auto
termination
  by (relation "measure (\<lambda>(_, c). conn_weight c)") (auto intro: conn_read_weight [OF sym])

declare conn_read_exact.simps [simp del]

function conn_write_all :: "bytes \<Rightarrow> proxy_conn \<Rightarrow> (io_error + unit) \<times> proxy_conn" where
  "conn_write_all bs c =
     (if bs = [] then (Inr (), c)
      else case conn_poll_write bs c of
        (Pending, c') \<Rightarrow> conn_write_all bs c'
      | (Ready (Inl e), c') \<Rightarrow> (Inl e, c')
      | (Ready (Inr n), c') \<Rightarrow>
          if n = 0 then (Inl (IoError WriteZero ''write zero''), c')
          else conn_write_all (drop n bs) c')"
  by pat_completeness auto
termination
  by (relation "measure (\<lambda>(bs, c). length bs + length (w_acc (px_inner c)))")
    (auto simp: conn_poll_write_def wire_write_def split: list.splits wr_event.splits)

declare conn_write_all.simps [simp del]

section \<open>Reading is in order\<close>

definition content :: "proxy_conn \<Rightarrow> bytes" where
  "content c = buffered c @ arrives (w_in (px_inner c))"

definition conn_ok :: "proxy_conn \<Rightarrow> bool" where
  "conn_ok c \<longleftrightarrow> px_pos c \<le> length (px_prefix c)"

interpretation conns: byte_source conn_poll_read content conn_ok
proof
  fix cap c r c'
  assume "conn_ok c" "conn_poll_read cap c = (r, c')"
  then show "conn_ok c'" by (auto simp: conn_ok_def conn_poll_read_def buffered_def Let_def split: if_splits prod.splits)
next
  fix cap c bs c'
  assume "conn_poll_read cap c = (Ready (Inr bs), c')"
  then show "content c = bs @ content c' \<and> length bs \<le> cap"
    using wires.read_delivers [where s = "px_inner c" and cap = cap]
    by (auto simp: conn_poll_read_def content_def buffered_def Let_def split: if_splits prod.splits)
      (metis append_take_drop_id drop_drop add.commute)+
next
  fix cap c c'
  assume "conn_poll_read cap c = (Pending, c')"
  then show "content c' = content c" using wires.read_pends [where s = "px_inner c" and cap = cap]
    by (auto simp: conn_poll_read_def content_def buffered_def Let_def split: if_splits prod.splits)
next
  fix cap c c'
  assume "conn_poll_read cap c = (Ready (Inr []), c')" "0 < cap"
  then show "content c = []" using wires.read_ends [where s = "px_inner c" and cap = cap]
    by (auto simp: conn_poll_read_def content_def buffered_def Let_def split: if_splits prod.splits)
qed

text \<open>What reading leaves alone, and the error a read past the content ends with.\<close>

definition conn_frame :: "proxy_conn \<Rightarrow> proxy_conn" where
  "conn_frame c = c\<lparr>px_inner := (px_inner c)\<lparr>w_in := []\<rparr>, px_prefix := [], px_pos := 0\<rparr>"

definition short_error :: "proxy_conn \<Rightarrow> io_error" where
  "short_error c = (case ending (w_in (px_inner c)) of None \<Rightarrow> IoError UnexpectedEof ''early eof'' | Some e \<Rightarrow> e)"

lemma conn_read_frame:
  assumes "conn_poll_read cap c = (r, c')"
  shows "conn_frame c' = conn_frame c"
proof (cases "px_pos c < length (px_prefix c)")
  case True
  then show ?thesis using assms by (auto simp: conn_poll_read_def conn_frame_def Let_def split: if_splits)
next
  case False
  then show ?thesis using assms
    by (cases rule: wire_read_cases [of "px_inner c" cap]) (auto simp: conn_poll_read_def conn_frame_def)
qed

lemma conn_read_short_error:
  assumes "conn_poll_read cap c = (r, c')" "\<And>e. r \<noteq> Ready (Inl e)"
  shows "short_error c' = short_error c"
proof (cases "px_pos c < length (px_prefix c)")
  case True
  then show ?thesis using assms by (auto simp: conn_poll_read_def short_error_def Let_def split: if_splits)
next
  case False
  then show ?thesis using assms
    by (cases rule: wire_read_cases [of "px_inner c" cap]) (auto simp: conn_poll_read_def short_error_def)
qed

lemma conn_read_progress:
  assumes "conn_ok c" "content c \<noteq> []" "conn_poll_read cap c = (Ready r, c')"
  shows "r \<noteq> Inl e"
proof (cases "px_pos c < length (px_prefix c)")
  case True
  then show ?thesis using assms by (auto simp: conn_poll_read_def Let_def)
next
  case False
  then show ?thesis using assms
    by (cases rule: wire_read_cases [of "px_inner c" cap]) (auto simp: conn_poll_read_def content_def buffered_def)
qed

lemma conn_read_empty:
  assumes "conn_ok c" "content c = []" "0 < cap" "conn_poll_read cap c = (Ready r, c')"
  shows "r = Inr [] \<and> short_error c = IoError UnexpectedEof ''early eof'' \<or> r = Inl (short_error c)"
proof (cases "px_pos c < length (px_prefix c)")
  case True
  then show ?thesis using assms by (auto simp: content_def buffered_def)
next
  case False
  then show ?thesis using assms
    by (cases rule: wire_read_cases [of "px_inner c" cap])
      (auto simp: conn_poll_read_def content_def short_error_def)
qed

lemma conn_read_exact_ok:
  assumes "conn_ok c" "n \<le> length (content c)"
  shows "\<exists>c'. conn_read_exact n c = (Inr (take n (content c)), c') \<and> content c' = drop n (content c)
    \<and> conn_ok c' \<and> conn_frame c' = conn_frame c \<and> short_error c' = short_error c"
  using assms
proof (induction n c rule: conn_read_exact.induct)
  case (1 n c)
  show ?case
  proof (cases "n = 0")
    case False
    obtain r c1 where r: "conn_poll_read n c = (r, c1)" by (cases "conn_poll_read n c")
    note k = conns.read_keeps [OF 1(3) r] conn_read_frame [OF r]
    show ?thesis
    proof (cases r)
      case Pending
      note p = conns.read_pends [OF 1(3) r [unfolded Pending]] conn_read_short_error [OF r]
      show ?thesis using 1(1) [OF False r [symmetric] Pending] 1(3,4) k p False r Pending
        by (simp add: conn_read_exact.simps [of n c])
    next
      case (Ready x)
      then obtain bs where x: "x = Inr bs"
        using conn_read_progress [OF 1(3) _ r [unfolded Ready]] 1(4) False by (cases x) fastforce+
      note d = conns.read_delivers [OF 1(3) r [unfolded Ready x]] conn_read_short_error [OF r]
      have ne: "bs \<noteq> []" using conns.read_ends [OF 1(3)] r Ready x 1(4) False by fastforce
      have "n - length bs \<le> length (content c1)" using d 1(4) by simp
      then obtain c2 where "conn_read_exact (n - length bs) c1 = (Inr (take (n - length bs) (content c1)), c2)"
        "content c2 = drop (n - length bs) (content c1)" "conn_ok c2" "conn_frame c2 = conn_frame c1" "short_error c2 = short_error c1"
        using 1(2) [OF False r [symmetric] Ready x ne] k by blast
      then show ?thesis using d k r Ready x ne False by (simp add: conn_read_exact.simps [of n c])
    qed
  qed (use 1(3) in \<open>simp add: conn_read_exact.simps\<close>)
qed

lemma conn_read_exact_short:
  assumes "conn_ok c" "length (content c) < n"
  shows "\<exists>c'. conn_read_exact n c = (Inl (short_error c), c') \<and> conn_frame c' = conn_frame c \<and> conn_ok c'"
  using assms
proof (induction n c rule: conn_read_exact.induct)
  case (1 n c)
  then have n0: "n \<noteq> 0" by simp
  obtain r c1 where r: "conn_poll_read n c = (r, c1)" by (cases "conn_poll_read n c")
  note k = conns.read_keeps [OF 1(3) r] conn_read_frame [OF r]
  show ?case
  proof (cases r)
    case Pending
    note p = conns.read_pends [OF 1(3) r [unfolded Pending]] conn_read_short_error [OF r]
    show ?thesis using 1(1) [OF n0 r [symmetric] Pending] 1(3,4) k p n0 r Pending
      by (simp add: conn_read_exact.simps [of n c])
  next
    case (Ready x)
    show ?thesis
    proof (cases "content c = []")
      case True
      then show ?thesis using conn_read_empty [OF 1(3) True _ r [unfolded Ready]] n0 r Ready k
        by (auto simp: conn_read_exact.simps [of n c])
    next
      case ne': False
      then obtain bs where x: "x = Inr bs"
        using conn_read_progress [OF 1(3) _ r [unfolded Ready]] by (cases x) auto
      note d = conns.read_delivers [OF 1(3) r [unfolded Ready x]] conn_read_short_error [OF r]
      have ne: "bs \<noteq> []" using conns.read_ends [OF 1(3)] r Ready x ne' n0 by fastforce
      have "length (content c1) < n - length bs" using d 1(4) by simp
      then obtain c2 where "conn_read_exact (n - length bs) c1 = (Inl (short_error c1), c2)" "conn_frame c2 = conn_frame c1" "conn_ok c2"
        using 1(2) [OF n0 r [symmetric] Ready x ne] k by blast
      then show ?thesis using d k r Ready x ne n0 by (simp add: conn_read_exact.simps [of n c])
    qed
  qed
qed

text \<open>Peeking consumes nothing and shows the next bytes, as many as there are.\<close>

lemma await_read_content:
  assumes "await_read cap w = (r, w')"
  shows "(case r of Inr bs \<Rightarrow> arrives (w_in w) = bs @ arrives (w_in w') \<and> length bs \<le> cap \<and> (bs = [] \<and> 0 < cap \<longrightarrow> arrives (w_in w) = [])
      \<and> ending (w_in w') = ending (w_in w)
    | Inl e \<Rightarrow> arrives (w_in w) = [] \<and> ending (w_in w) = Some e)
    \<and> w'\<lparr>w_in := []\<rparr> = w\<lparr>w_in := []\<rparr>"
proof -
  let ?w = "w\<lparr>w_in := dropWhile (\<lambda>e. e = Stall) (w_in w)\<rparr>"
  have d: "arrives (dropWhile (\<lambda>e. e = Stall) xs) = arrives xs" "ending (dropWhile (\<lambda>e. e = Stall) xs) = ending xs" for xs
    by (induction xs) auto
  have ns: "w_in ?w \<noteq> Stall # rest" for rest
    using hd_dropWhile [of "\<lambda>e. e = Stall" "w_in w"] by (auto simp del: dropWhile_eq_Nil_conv)
  obtain x where x: "wire_read cap ?w = (Ready x, w')" "r = x"
    using assms ns by (cases rule: wire_read_cases [of ?w cap]) (auto simp: await_read_def)
  have fr: "w'\<lparr>w_in := []\<rparr> = w\<lparr>w_in := []\<rparr>"
    using x(1) by (cases rule: wire_read_cases [of ?w cap]) auto
  show ?thesis
  proof (cases r)
    case (Inl e)
    with x have "arrives (w_in ?w) = [] \<and> ending (w_in ?w) = Some e"
      by (cases rule: wire_read_cases [of ?w cap]) (auto simp del: dropWhile_eq_Nil_conv)
    with fr Inl d show ?thesis by simp
  next
    case (Inr bs)
    with x have "ending (w_in w') = ending (w_in ?w)"
      by (cases rule: wire_read_cases [of ?w cap]) (auto simp del: dropWhile_eq_Nil_conv)
    with wires.read_delivers [of cap ?w] wires.read_ends [of cap ?w] fr Inr d x show ?thesis by auto
  qed
qed

lemma peek_fill_content:
  assumes "conn_ok c" "peek_fill len c = (r, c')"
  shows "conn_ok c' \<and> conn_frame c' = conn_frame c \<and>
    (r = Inr () \<longrightarrow> content c' = content c \<and> short_error c' = short_error c \<and> min len (length (content c)) \<le> length (buffered c')) \<and>
    (\<forall>e. r = Inl e \<longrightarrow> buffered c' = content c \<and> length (content c) < len \<and> e = short_error c)"
  using assms
proof (induction len c rule: peek_fill.induct)
  case (1 len c)
  show ?case
  proof (cases "length (buffered c) < len")
    case True
    obtain x w where a: "await_read (len - length (buffered c)) (px_inner c) = (x, w)"
      by (cases "await_read (len - length (buffered c)) (px_inner c)")
    note f = await_read_content [OF a]
    show ?thesis
    proof (cases x)
      case (Inl e)
      then show ?thesis using 1(2,3) True a f
        by (auto simp: peek_fill.simps [of len c] content_def conn_ok_def conn_frame_def buffered_def short_error_def)
    next
      case (Inr chunk)
      let ?c = "c\<lparr>px_inner := w, px_prefix := px_prefix c @ chunk\<rparr>"
      have fr: "content ?c = content c" "conn_ok ?c" "conn_frame ?c = conn_frame c" "short_error ?c = short_error c"
        using f Inr 1(2) by (auto simp: content_def buffered_def conn_ok_def conn_frame_def short_error_def)
      show ?thesis
      proof (cases "chunk = []")
        case False
        with True a Inr have "peek_fill len ?c = (r, c')" using 1(3) by (simp add: peek_fill.simps [of len c])
        with 1(1) [OF True a [symmetric] Inr False fr(2)] show ?thesis using fr by simp
      next
        case True: True
        then show ?thesis using fr 1(3) f a Inr \<open>length (buffered c) < len\<close>
          by (auto simp: peek_fill.simps [of len c] content_def buffered_def short_error_def)
      qed
    qed
  next
    case False
    then show ?thesis using 1(2,3) by (auto simp: peek_fill.simps [of len c])
  qed
qed

lemma peek_spec:
  assumes "conn_ok c" "peek len c = (r, c')"
  shows "conn_ok c' \<and> conn_frame c' = conn_frame c \<and>
    (\<forall>bs. r = Inr bs \<longrightarrow> bs = take len (content c) \<and> content c' = content c \<and> short_error c' = short_error c) \<and>
    (\<forall>e. r = Inl e \<longrightarrow> length (content c) < len \<and> e = short_error c \<and> buffered c' = content c)"
proof -
  obtain x c1 where x: "peek_fill len c = (x, c1)" by (cases "peek_fill len c")
  note p = peek_fill_content [OF assms(1) x]
  have "take (min (length (buffered c1)) len) (buffered c1) = take len (content c)" if "x = Inr ()"
  proof -
    have "content c = buffered c1 @ arrives (w_in (px_inner c1))" using p that by (simp add: content_def)
    then show ?thesis using p that by (auto simp: min_def split: if_splits)
  qed
  then show ?thesis using assms x p by (cases x) (auto simp: peek_def)
qed

lemma unread_content: "content (unread bs c) = bs @ content c"
  by (simp add: unread_def content_def buffered_def)

lemma unread_ok: "conn_ok c \<Longrightarrow> conn_ok (unread bs c)" "conn_frame (unread bs c) = conn_frame c"
  by (simp_all add: unread_def conn_ok_def conn_frame_def)

text \<open>A read takes its bytes off the weight of the connection.\<close>

lemma conn_read_weight_bytes:
  assumes "conn_poll_read cap c = (Ready (Inr bs), c')"
  shows "conn_weight c' + length bs \<le> conn_weight c"
proof (cases "px_pos c < length (px_prefix c)")
  case True
  then show ?thesis using assms
    by (auto simp: conn_poll_read_def conn_weight_def buffered_def Let_def split: if_splits)
next
  case False
  then show ?thesis using assms
    by (cases rule: wire_read_cases [of "px_inner c" cap])
      (auto simp: conn_poll_read_def conn_weight_def buffered_def wire_weight_def split: if_splits)
qed

section \<open>Writing\<close>

lemma conn_poll_write_out:
  assumes "conn_poll_write bs i = (r, i')"
  shows "w_out (px_inner i') = w_out (px_inner i) @ (case r of Ready (Inr n) \<Rightarrow> take n bs | _ \<Rightarrow> [])"
    "r = Ready (Inr n) \<Longrightarrow> n \<le> length bs"
  using assms by (auto simp: conn_poll_write_def wire_write_def min_def split: list.splits wr_event.splits)

lemma conn_write_all_free:
  "w_acc (px_inner c) = [] \<Longrightarrow>
   conn_write_all bs c = (Inr (), c\<lparr>px_inner := (px_inner c)\<lparr>w_out := w_out (px_inner c) @ bs\<rparr>\<rparr>)"
  by (cases "bs = []") (simp_all add: conn_write_all.simps conn_poll_write_def wire_write_def)

text \<open>However the stream slices the writes, what it takes is a prefix, all of it on success.\<close>

lemma conn_write_all_prefix:
  assumes "conn_write_all bs c = (r, c')"
  shows "\<exists>p. w_out (px_inner c') = w_out (px_inner c) @ p \<and> prefix p bs \<and> (r = Inr () \<longrightarrow> p = bs)
    \<and> content c' = content c \<and> (conn_ok c \<longrightarrow> conn_ok c')"
  using assms
proof (induction bs c rule: conn_write_all.induct)
  case (1 bs c)
  show ?case
  proof (cases "bs = []")
    case True
    then show ?thesis using 1(3) by (simp add: conn_write_all.simps)
  next
    case False
    obtain x c1 where w: "conn_poll_write bs c = (x, c1)" by (cases "conn_poll_write bs c")
    have c1: "content c1 = content c" "conn_ok c \<longrightarrow> conn_ok c1"
      using w by (auto simp: conn_poll_write_def wire_write_def content_def buffered_def conn_ok_def split: list.splits wr_event.splits)
    consider (p) "x = Pending" "w_out (px_inner c1) = w_out (px_inner c)"
      | (e) e where "x = Ready (Inl e)" "w_out (px_inner c1) = w_out (px_inner c)"
      | (n) n where "x = Ready (Inr n)" "w_out (px_inner c1) = w_out (px_inner c) @ take n bs"
      using w by (auto simp: conn_poll_write_def wire_write_def min_def split: list.splits wr_event.splits if_splits)
    then show ?thesis
    proof cases
      case p
      with 1(1) [OF False w [symmetric]] 1(3) w False c1 show ?thesis by (auto simp: conn_write_all.simps [of bs c])
    next
      case e
      with 1(3) w False c1 show ?thesis by (auto simp: conn_write_all.simps [of bs c])
    next
      case n
      show ?thesis
      proof (cases "n = 0")
        case True
        then show ?thesis using n 1(3) w False c1 by (auto simp: conn_write_all.simps [of bs c])
      next
        case nz: False
        then have "conn_write_all (drop n bs) c1 = (r, c')" using n 1(3) w False by (simp add: conn_write_all.simps [of bs c])
        from 1(2) [OF False w [symmetric] n(1) refl nz this] obtain q where
          q: "w_out (px_inner c') = w_out (px_inner c1) @ q" "prefix q (drop n bs)" "r = Inr () \<longrightarrow> q = drop n bs"
             "content c' = content c1" "conn_ok c1 \<longrightarrow> conn_ok c'" by auto
        have "prefix (take n bs @ q) bs" using q(2) by (metis append_take_drop_id same_prefix_prefix)
        then show ?thesis using q n c1 by (intro exI [of _ "take n bs @ q"]) auto
      qed
    qed
  qed
qed

section \<open>Properties\<close>

text \<open>Peeking and putting bytes back do not disturb the stream: a peek shows the next bytes
  without taking them, and reads after an \<^verbatim>\<open>unread\<close>, with whatever buffer sizes and whatever
  pauses and chunks the stream delivers, yield the bytes put back followed by the stream, in
  order and none twice; bytes written meanwhile are not affected.\<close>

theorem conn_reads_in_order:
  assumes "conn_ok c" "peek n c = (Inr p, c1)" "poll_all conn_poll_read caps (unread bs c1) = (Inr got, c2)"
  shows "p = take n (content c) \<and> bs @ content c = got @ content c2 \<and> conn_ok c2"
proof -
  have p: "conn_ok c1" "p = take n (content c)" "content c1 = content c" using peek_spec [OF assms(1,2)] by auto
  from conns.reads_in_order [OF unread_ok(1) [OF p(1)] assms(3)] p show ?thesis by (simp add: unread_content)
qed

definition demo_stream :: proxy_conn where
  "demo_stream = conn_new \<lparr>w_in = [Data [5], Stall, Data [1, 0]], w_out = [], w_acc = [], w_fin = False\<rparr> None None"

lemma demo_stream_peek:
  "peek 2 demo_stream = (Inr [5, 1],
     demo_stream\<lparr>px_inner := \<lparr>w_in = [Data [0]], w_out = [], w_acc = [], w_fin = False\<rparr>, px_prefix := [5, 1]\<rparr>)"
  by (simp add: peek_def peek_fill.simps buffered_def await_read_def wire_read_def demo_stream_def conn_new_def)

lemma demo_stream_reads:
  "poll_all conn_poll_read [1, 2] (unread [7]
     (demo_stream\<lparr>px_inner := \<lparr>w_in = [Data [0]], w_out = [], w_acc = [], w_fin = False\<rparr>, px_prefix := [5, 1]\<rparr>)) =
     (Inr [7, 5, 1], demo_stream\<lparr>px_inner := \<lparr>w_in = [Data [0]], w_out = [], w_acc = [], w_fin = False\<rparr>\<rparr>)"
  by (simp add: unread_def buffered_def demo_stream_def conn_new_def) (simp add: conn_poll_read_def buffered_def Let_def)

theorem conn_reads_in_order_witness:
  "[7] @ content demo_stream = [7, 5, 1] @ [0] \<and> [5, 1] = take 2 (content demo_stream)"
proof -
  have ok: "conn_ok demo_stream" by (simp add: conn_ok_def demo_stream_def conn_new_def)
  have rest: "content (demo_stream\<lparr>px_inner := \<lparr>w_in = [Data [0]], w_out = [], w_acc = [], w_fin = False\<rparr>\<rparr>) = [0]"
    by (simp add: content_def buffered_def demo_stream_def conn_new_def)
  from conn_reads_in_order [OF ok demo_stream_peek demo_stream_reads, unfolded rest] show ?thesis by blast
qed

end
