(* ===== verification/ConnIO.thy ===== *)
theory ConnIO
  imports Conn
begin

text \<open>
  Straight-line protocol code over one connection: \<^verbatim>\<open>async fn\<close>s that read and write with \<^verbatim>\<open>?\<close> are
  functions from the connection to an error or a value and the connection after it. The
  rules at the end compute what such code does from the bytes that will arrive, for any way
  the stream cuts them into chunks. The error types of the handlers (\<^verbatim>\<open>src/src/handler.rs\<close>) and
  of the chain (\<^verbatim>\<open>src/src/chain.rs\<close>) are here too.
\<close>

datatype chain_error = EmptyChain | ChainTimeout | ChainIo io_error | ProxyError string

datatype handler_error = HandlerIo io_error | HandlerProxy string | AuthFailed | Forbidden | HandlerChain chain_error

text \<open>Their messages, as \<^verbatim>\<open>Display\<close> writes them.\<close>

fun show_chain_error :: "chain_error \<Rightarrow> string" where
  "show_chain_error EmptyChain = ''empty chain''"
| "show_chain_error ChainTimeout = ''connection timeout''"
| "show_chain_error (ChainIo e) = ''IO error: '' @ err_msg e"
| "show_chain_error (ProxyError s) = ''proxy error: '' @ s"

fun show_handler_error :: "handler_error \<Rightarrow> string" where
  "show_handler_error (HandlerIo e) = ''IO error: '' @ err_msg e"
| "show_handler_error (HandlerProxy s) = ''proxy error: '' @ s"
| "show_handler_error AuthFailed = ''authentication failed''"
| "show_handler_error Forbidden = ''forbidden''"
| "show_handler_error (HandlerChain e) = ''chain error: '' @ show_chain_error e"

type_synonym ('e, 'a) io = "proxy_conn \<Rightarrow> ('e + 'a) \<times> proxy_conn"

definition io_ok :: "'a \<Rightarrow> ('e, 'a) io" where
  "io_ok a c = (Inr a, c)"

definition io_err :: "'e \<Rightarrow> ('e, 'a) io" where
  "io_err e c = (Inl e, c)"

definition io_bind :: "('e, 'a) io \<Rightarrow> ('a \<Rightarrow> ('e, 'b) io) \<Rightarrow> ('e, 'b) io" where
  "io_bind m f c = (case m c of (Inl e, c') \<Rightarrow> (Inl e, c') | (Inr a, c') \<Rightarrow> f a c')"

text \<open>\<^verbatim>\<open>?\<close> on a \<^verbatim>\<open>Result\<close> that needs no connection.\<close>

definition io_try :: "'e + 'a \<Rightarrow> ('e, 'a) io" where
  "io_try r c = (r, c)"

definition io_read :: "(io_error \<Rightarrow> 'e) \<Rightarrow> nat \<Rightarrow> ('e, bytes) io" where
  "io_read wrap n c = (case conn_read_exact n c of (Inl e, c') \<Rightarrow> (Inl (wrap e), c') | (Inr bs, c') \<Rightarrow> (Inr bs, c'))"

definition io_write :: "(io_error \<Rightarrow> 'e) \<Rightarrow> bytes \<Rightarrow> ('e, unit) io" where
  "io_write wrap bs c = (case conn_write_all bs c of (Inl e, c') \<Rightarrow> (Inl (wrap e), c') | (Inr u, c') \<Rightarrow> (Inr u, c'))"

definition io_peek :: "(io_error \<Rightarrow> 'e) \<Rightarrow> nat \<Rightarrow> ('e, bytes) io" where
  "io_peek wrap n c = (case peek n c of (Inl e, c') \<Rightarrow> (Inl (wrap e), c') | (Inr bs, c') \<Rightarrow> (Inr bs, c'))"

section \<open>Running code on known input\<close>

definition runs :: "('e, 'a) io \<Rightarrow> proxy_conn \<Rightarrow> ('e + 'a \<Rightarrow> proxy_conn \<Rightarrow> bool) \<Rightarrow> bool" where
  "runs m c Q \<longleftrightarrow> Q (fst (m c)) (snd (m c))"

text \<open>
  A connection that will deliver \<open>ys\<close> and then end, has been sent \<open>out\<close>, takes every write, and
  whose local address is \<open>l\<close>.
\<close>

definition conn_at :: "socket_addr option \<Rightarrow> bytes \<Rightarrow> bytes \<Rightarrow> proxy_conn \<Rightarrow> bool" where
  "conn_at l ys out c \<longleftrightarrow> conn_ok c \<and> content c = ys \<and> w_out (px_inner c) = out \<and> w_acc (px_inner c) = []
     \<and> px_local c = l \<and> short_error c = IoError UnexpectedEof ''early eof''"

named_theorems run_intros \<open>rules that execute protocol code\<close>

lemma runs_ok [run_intros]: "Q (Inr a) c \<Longrightarrow> runs (io_ok a) c Q"
  by (simp add: runs_def io_ok_def)

lemma runs_err [run_intros]: "Q (Inl e) c \<Longrightarrow> runs (io_err e) c Q"
  by (simp add: runs_def io_err_def)

lemma runs_try [run_intros]: "Q r c \<Longrightarrow> runs (io_try r) c Q"
  by (simp add: runs_def io_try_def)

lemma runs_bind [run_intros]:
  "runs m c (\<lambda>r c'. case r of Inl e \<Rightarrow> Q (Inl e) c' | Inr a \<Rightarrow> runs (f a) c' Q) \<Longrightarrow> runs (io_bind m f) c Q"
  by (auto simp: runs_def io_bind_def split: prod.splits sum.splits)

lemma runs_mono: "runs m c P \<Longrightarrow> (\<And>r c'. P r c' \<Longrightarrow> Q r c') \<Longrightarrow> runs m c Q"
  by (simp add: runs_def)

lemma frame_fields:
  assumes "conn_frame c' = conn_frame c"
  shows "w_out (px_inner c') = w_out (px_inner c)" "w_acc (px_inner c') = w_acc (px_inner c)"
    "px_local c' = px_local c" "px_peer c' = px_peer c" "px_original_dst c' = px_original_dst c"
proof -
  have "(px_inner c')\<lparr>w_in := []\<rparr> = (px_inner c)\<lparr>w_in := []\<rparr>"
    using arg_cong [OF assms, of px_inner] by (simp add: conn_frame_def)
  from arg_cong [OF this, of w_out] arg_cong [OF this, of w_acc]
  show "w_out (px_inner c') = w_out (px_inner c)" "w_acc (px_inner c') = w_acc (px_inner c)" by simp_all
  show "px_local c' = px_local c" "px_peer c' = px_peer c" "px_original_dst c' = px_original_dst c"
    using arg_cong [OF assms, of px_local] arg_cong [OF assms, of px_peer] arg_cong [OF assms, of px_original_dst]
    by (simp_all add: conn_frame_def)
qed

lemma runs_read:
  assumes "conn_at l (xs @ ys) out c" "length xs = n"
    "\<And>c'. conn_at l ys out c' \<Longrightarrow> Q (Inr xs) c'"
  shows "runs (io_read wrap n) c Q"
proof -
  have "conn_ok c" "n \<le> length (content c)" using assms(1,2) by (simp_all add: conn_at_def)
  from conn_read_exact_ok [OF this] obtain c' where
    r: "conn_read_exact n c = (Inr xs, c')" "content c' = ys" "conn_ok c'" "conn_frame c' = conn_frame c" "short_error c' = short_error c"
    using assms(1,2) by (auto simp: conn_at_def)
  then have "conn_at l ys out c'" using assms(1) frame_fields [OF r(4)] by (simp add: conn_at_def)
  with assms(3) r(1) show ?thesis by (simp add: runs_def io_read_def)
qed

lemma runs_read_step:
  assumes "conn_at l zs out c" "n \<le> length zs"
    "\<And>c'. conn_at l (drop n zs) out c' \<Longrightarrow> Q (Inr (take n zs)) c'"
  shows "runs (io_read wrap n) c Q"
  by (rule runs_read [where xs = "take n zs" and ys = "drop n zs"]) (use assms in auto)

lemma runs_peek:
  assumes "conn_at l ys out c" "n \<le> length ys" "\<And>c'. conn_at l ys out c' \<Longrightarrow> Q (Inr (take n ys)) c'"
  shows "runs (io_peek wrap n) c Q"
proof -
  obtain r c' where r: "peek n c = (r, c')" by (cases "peek n c")
  have "conn_ok c" "content c = ys" using assms(1) by (simp_all add: conn_at_def)
  note p = peek_spec [OF this(1) r]
  then have "r = Inr (take n ys)" using assms(2) \<open>content c = ys\<close> by (cases r) auto
  moreover have "conn_at l ys out c'" using assms(1) p frame_fields [of c' c] \<open>r = _\<close> by (simp add: conn_at_def)
  ultimately show ?thesis using r assms(3) by (simp add: runs_def io_peek_def)
qed

lemma runs_read_short:
  assumes "conn_at l ys out c" "length ys < n"
    "\<And>c'. w_out (px_inner c') = out \<Longrightarrow> Q (Inl (wrap (IoError UnexpectedEof ''early eof''))) c'"
  shows "runs (io_read wrap n) c Q"
  using conn_read_exact_short [of c n] assms by (auto simp: runs_def io_read_def conn_at_def dest: frame_fields)

lemma runs_write:
  assumes "conn_at l ys out c" "\<And>c'. conn_at l ys (out @ bs) c' \<Longrightarrow> Q (Inr ()) c'"
  shows "runs (io_write wrap bs) c Q"
proof -
  have "conn_write_all bs c = (Inr (), c\<lparr>px_inner := (px_inner c)\<lparr>w_out := out @ bs\<rparr>\<rparr>)"
    using conn_write_all_free [of c bs] assms(1) by (simp add: conn_at_def)
  moreover have "conn_at l ys (out @ bs) (c\<lparr>px_inner := (px_inner c)\<lparr>w_out := out @ bs\<rparr>\<rparr>)"
    using assms(1) by (simp add: conn_at_def conn_ok_def content_def buffered_def short_error_def)
  ultimately show ?thesis using assms(2) by (simp add: runs_def io_write_def)
qed

lemma conn_at_unread: "conn_at l ys out c \<Longrightarrow> conn_at l (bs @ ys) out (unread bs c)"
  by (simp add: conn_at_def unread_content unread_ok) (simp add: unread_def short_error_def)

end
