(* ===== verification/Reload.thy ===== *)
theory Reload
  imports RustStr
begin

text \<open>
  Live reloading (\<^verbatim>\<open>src/src/reload.rs\<close>): the loop of \<^verbatim>\<open>period_reload\<close> over any object with the
  traits \<^verbatim>\<open>Reloader\<close> and \<^verbatim>\<open>Stoppable\<close>. The traits and what their implementations promise are
  the locale \<open>reloadable\<close>; the lemmas about the loop are proved in it and hold for the
  authenticator, the bypass and the hosts table, which interpret it in their theories.
\<close>

section \<open>The loop\<close>

text \<open>
  What one round of the loop meets: the metadata of the file (the modification time, \<open>None\<close> when
  the platform cannot tell it), what opening it gives, and what other threads do to the object
  while the loop sleeps. Times are nanoseconds; \<^verbatim>\<open>UNIX_EPOCH\<close> is 0.
\<close>

record 's reload_env =
  env_metadata :: "io_error + int option"
  env_open :: "io_error + reader"
  env_sleep :: "'s \<Rightarrow> 's"

datatype reload_result = Running | Returned "io_error + unit"

definition min_sleep :: nat where
  "min_sleep = 1000000000"

text \<open>The body of the loop; the sleep time is part of the result when the loop goes on.\<close>

definition reload_round ::
    "(reader \<Rightarrow> 's \<Rightarrow> (io_error + unit) \<times> 's) \<Rightarrow> ('s \<Rightarrow> nat) \<Rightarrow> 's reload_env \<Rightarrow> int \<Rightarrow> 's
     \<Rightarrow> ((io_error + unit) + (int \<times> nat)) \<times> 's" where
  "reload_round reload period env last_mod s =
     (let p = period s
      in if p = 0 then (Inl (Inr ()), s)
         else case env_metadata env of
           Inl e \<Rightarrow> (Inl (Inl e), s)
         | Inr modified \<Rightarrow>
             let mod_time = (case modified of Some t \<Rightarrow> t | None \<Rightarrow> 0);
                 sleep_dur = (if p < min_sleep then min_sleep else p)
             in if last_mod \<noteq> 0 \<and> mod_time \<noteq> last_mod
                then (case env_open env of
                        Inl e \<Rightarrow> (Inl (Inl e), s)
                      | Inr f \<Rightarrow> (Inr (mod_time, sleep_dur), snd (reload f s)))
                else (Inr (mod_time, sleep_dur), s))"

text \<open>The loop over the rounds the environment offers: the result, the sleeps and the object.\<close>

fun reload_loop ::
    "(reader \<Rightarrow> 's \<Rightarrow> (io_error + unit) \<times> 's) \<Rightarrow> ('s \<Rightarrow> nat) \<Rightarrow> 's reload_env list \<Rightarrow> int \<Rightarrow> 's
     \<Rightarrow> reload_result \<times> nat list \<times> 's" where
  "reload_loop reload period [] last_mod s = (Running, [], s)"
| "reload_loop reload period (env # envs) last_mod s =
     (case reload_round reload period env last_mod s of
        (Inl r, s) \<Rightarrow> (Returned r, [], s)
      | (Inr (t, d), s) \<Rightarrow>
          let (r, ds, s) = reload_loop reload period envs t (env_sleep env s) in (r, d # ds, s))"

definition period_reload ::
    "(reader \<Rightarrow> 's \<Rightarrow> (io_error + unit) \<times> 's) \<Rightarrow> ('s \<Rightarrow> nat) \<Rightarrow> string \<Rightarrow> 's reload_env list \<Rightarrow> 's
     \<Rightarrow> reload_result \<times> nat list \<times> 's" where
  "period_reload reload period config_file envs s =
     (if config_file = [] then (Returned (Inr ()), [], s) else reload_loop reload period envs 0 s)"

lemma reload_loop_sleeps:
  "reload_loop reload period envs t s = (r, ds, u) \<Longrightarrow> d \<in> set ds \<Longrightarrow> min_sleep \<le> d"
proof (induction envs arbitrary: t s r ds u)
  case (Cons env envs)
  then show ?case
    by (auto simp: reload_round_def Let_def split: if_splits sum.splits prod.splits; fastforce)
qed simp

section \<open>Reloadable objects\<close>

locale reloadable =
  fixes reload :: "reader \<Rightarrow> 's \<Rightarrow> (io_error + unit) \<times> 's"
    and period :: "'s \<Rightarrow> nat"
    and stop :: "'s \<Rightarrow> 's"
    and stopped :: "'s \<Rightarrow> bool"
  assumes stop_stops: "stopped (stop s)"
    and period_stopped: "stopped s \<Longrightarrow> period s = 0"
    and reload_stopped: "stopped s \<Longrightarrow> reload r s = (Inr (), s)"
    and reload_error: "reload r s = (Inl e, t) \<Longrightarrow> t = s"
    and stopped_reload: "stopped (snd (reload r s)) = stopped s"
begin

text \<open>A stopped object ends the loop at its next round, unchanged.\<close>

lemma loop_stopped:
  "stopped s \<Longrightarrow> reload_loop reload period (env # envs) t s = (Returned (Inr ()), [], s)"
  by (simp add: reload_round_def period_stopped)

text \<open>Stopping during a sleep: the object keeps what the rounds before gave it.\<close>

lemma stop_during_sleep:
  assumes "reload_round reload period env t s = (Inr (t', d), u)" "env_sleep env = stop"
  shows "reload_loop reload period (env # env' # envs) t s = (Returned (Inr ()), [d], stop u)"
  using assms loop_stopped [OF stop_stops] by simp

text \<open>A reload that fails leaves the object alone and the loop running.\<close>

lemma round_reload_failed:
  assumes "reload_round reload period env t s = (Inr (t', d), u)" "env_open env = Inr f"
    and "fst (reload f s) = Inl e"
  shows "u = s"
  using assms reload_error [of f s e "snd (reload f s)"]
  by (auto simp: reload_round_def Let_def prod_eq_iff split: if_splits sum.splits)

text \<open>
  While no other thread touches the object, a round of a running loop changes it only when
  the file's modification time is not the one of the round before.
\<close>

lemma round_unchanged:
  assumes "reload_round reload period env t s = (Inr (t, d), u)"
  shows "u = s"
  using assms by (auto simp: reload_round_def Let_def split: if_splits sum.splits)

end

end
