(* ===== verification/F64.thy ===== *)
theory F64
  imports Complex_Main Prelude
begin

text \<open>
  The non-negative \<^verbatim>\<open>f64\<close> values and the operations on them that the configuration code uses:
  rounding to nearest with ties to even (with the subnormal range and overflow to infinity),
  addition, multiplication, and the saturating cast to \<^verbatim>\<open>u64\<close>. A finite value is the rational
  number it stands for.
\<close>

datatype f64 = Fin rat | Infinity

fun nlog2 :: "nat \<Rightarrow> nat" where
  "nlog2 n = (if n < 2 then 0 else Suc (nlog2 (n div 2)))"

declare nlog2.simps [simp del]

definition pow2 :: "int \<Rightarrow> rat" where
  "pow2 k = (if 0 \<le> k then 2 ^ nat k else 1 / 2 ^ nat (- k))"

text \<open>The exponent of a positive number: the largest \<open>e\<close> with \<open>2\<^sup>e \<le> x\<close>.\<close>

definition f64_exponent :: "rat \<Rightarrow> int" where
  "f64_exponent x =
     (if 1 \<le> x then int (nlog2 (nat \<lfloor>x\<rfloor>)) else - int (Suc (nlog2 (nat \<lceil>1 / x\<rceil> - 1))))"

definition round_half_even :: "rat \<Rightarrow> int" where
  "round_half_even y =
     (let f = \<lfloor>y\<rfloor>; d = y - of_int f
      in if d < 1 / 2 then f else if d > 1 / 2 then f + 1 else if even f then f else f + 1)"

text \<open>53 significant bits, and no bit below \<open>2\<^sup>-\<^sup>1\<^sup>0\<^sup>7\<^sup>4\<close>.\<close>

definition f64_round :: "rat \<Rightarrow> f64" where
  "f64_round x =
     (if x \<le> 0 then Fin 0
      else let u = pow2 (max (f64_exponent x - 52) (- 1074));
               r = of_int (round_half_even (x / u)) * u
           in if 2 ^ 1024 \<le> r then Infinity else Fin r)"

fun f64_add :: "f64 \<Rightarrow> f64 \<Rightarrow> f64" where
  "f64_add (Fin x) (Fin y) = f64_round (x + y)"
| "f64_add _ _ = Infinity"

text \<open>Multiplication by a positive finite value.\<close>

fun f64_scale :: "f64 \<Rightarrow> nat \<Rightarrow> f64" where
  "f64_scale (Fin x) k = f64_round (x * of_nat k)"
| "f64_scale Infinity k = Infinity"

fun f64_as_u64 :: "f64 \<Rightarrow> nat" where
  "f64_as_u64 (Fin x) = min (nat \<lfloor>x\<rfloor>) (2 ^ 64 - 1)"
| "f64_as_u64 Infinity = 2 ^ 64 - 1"

fun f64_pos :: "f64 \<Rightarrow> bool" where
  "f64_pos (Fin x) = (0 < x)"
| "f64_pos Infinity = True"

section \<open>Integers below \<open>2\<^sup>5\<^sup>3\<close> are exact\<close>

lemma nlog2_bounds: "0 < n \<Longrightarrow> 2 ^ nlog2 n \<le> n \<and> n < 2 ^ Suc (nlog2 n)"
proof (induction n rule: nlog2.induct)
  case (1 n)
  show ?case
  proof (cases "n < 2")
    case False
    then have "2 ^ nlog2 (n div 2) \<le> n div 2 \<and> n div 2 < 2 ^ Suc (nlog2 (n div 2))" using 1 by simp
    with False show ?thesis by (simp add: nlog2.simps [of n], linarith)
  qed (use 1 in \<open>simp add: nlog2.simps [of n]\<close>)
qed

lemma nlog2_lt: "0 < n \<Longrightarrow> n < 2 ^ k \<Longrightarrow> nlog2 n < k"
  using nlog2_bounds [of n] by (metis le_less_trans nat_power_less_imp_less zero_less_numeral)

lemma round_half_even_of_int [simp]: "round_half_even (of_int i) = i"
  by (simp add: round_half_even_def)

lemma f64_round_nat:
  assumes "n < 2 ^ 53"
  shows "f64_round (of_nat n) = Fin (of_nat n)"
proof (cases "n = 0")
  case False
  then have e: "f64_exponent (of_nat n) = int (nlog2 n)" by (simp add: f64_exponent_def)
  have l: "nlog2 n \<le> 52" using nlog2_lt [of n 53] assms False by simp
  define k where "k = 52 - nlog2 n"
  have u: "pow2 (max (f64_exponent (of_nat n) - 52) (- 1074)) = 1 / 2 ^ k"
    using l by (auto simp: e pow2_def k_def max_def nat_diff_distrib)
  have "(of_nat n :: rat) / (1 / 2 ^ k) = of_int (int n * 2 ^ k)" by simp
  then have r: "of_int (round_half_even (of_nat n / (1 / 2 ^ k))) * (1 / 2 ^ k :: rat) = of_nat n"
    by (simp only: round_half_even_of_int) simp
  have "(of_nat n :: rat) < of_nat (2 ^ 53)" using assms by (simp only: of_nat_less_iff)
  also have "\<dots> \<le> 2 ^ 1024" by (simp del: of_nat_power) 
  finally have "\<not> 2 ^ 1024 \<le> (of_nat n :: rat)" by simp
  then show ?thesis using False u r by (simp only: f64_round_def Let_def) simp
qed (simp add: f64_round_def)

end
