(* ===== verification/Auth.thy ===== *)
theory Auth
  imports Reload F64 "HOL-Library.AList"
begin

text \<open>
  Local authentication (\<^verbatim>\<open>src/src/auth.rs\<close>): the secrets table, its file format and live reload,
  and Go's duration syntax. Passwords and user names are compared as byte strings. The table
  is an association list with one entry per key; a duration is its number of nanoseconds.
\<close>

section \<open>Go durations\<close>

definition is_ascii_digit :: "char \<Rightarrow> bool" where
  "is_ascii_digit c \<longleftrightarrow> digit_val c \<noteq> None"

text \<open>
  \<^verbatim>\<open>f64::from_str\<close> on digits with at most one point (and at least one digit): the decimal
  number correctly rounded.
\<close>

definition parse_decimal :: "string \<Rightarrow> f64 option" where
  "parse_decimal s =
     (case split_once CHR ''.'' s of
        None \<Rightarrow> map_option (\<lambda>n. f64_round (of_nat n)) (digits_val 0 s)
      | Some (a, b) \<Rightarrow> map_option (\<lambda>n. f64_round (of_nat n / 10 ^ length b)) (digits_val 0 (a @ b)))"

definition duration_unit :: "string \<Rightarrow> (nat \<times> nat) option" where
  "duration_unit rest =
     (if prefix ''ns'' rest then Some (1, 2)
      else if prefix ''us'' rest then Some (1000, 2)
      else if prefix [CHR 0xC2, CHR 0xB5, CHR ''s''] rest then Some (1000, 3)
      else if prefix [CHR 0xCE, CHR 0xBC, CHR ''s''] rest then Some (1000, 3)
      else if prefix ''ms'' rest then Some (1000000, 2)
      else if prefix ''s'' rest then Some (1000000000, 1)
      else if prefix ''m'' rest then Some (60 * 1000000000, 1)
      else if prefix ''h'' rest then Some (3600 * 1000000000, 1)
      else None)"

function duration_loop :: "string \<Rightarrow> f64 \<Rightarrow> f64 option" where
  "duration_loop rest total_nanos =
     (if rest = [] then Some total_nanos
      else
        let num_len = (case find_pred (\<lambda>c. \<not> is_ascii_digit c \<and> c \<noteq> CHR ''.'') rest of
                         Some i \<Rightarrow> i | None \<Rightarrow> length rest)
        in if num_len = 0 then None
           else
             let num_str = take num_len rest
             in if num_str = ''.'' \<or> count_list num_str CHR ''.'' > 1 then None
                else case parse_decimal num_str of
                  None \<Rightarrow> None
                | Some value \<Rightarrow>
                    (case duration_unit (drop num_len rest) of
                       None \<Rightarrow> None
                     | Some (unit_nanos, unit_len) \<Rightarrow>
                         duration_loop (drop unit_len (drop num_len rest))
                           (f64_add total_nanos (f64_scale value unit_nanos))))"
  by pat_completeness auto
termination by (relation "measure (length \<circ> fst)") auto

declare duration_loop.simps [simp del]

text \<open>The loop runs at least once on a non-empty rest, so the code's flag for that is always set.\<close>

definition parse_go_duration :: "string \<Rightarrow> nat option" where
  "parse_go_duration s =
     (let (neg, rest) =
        (case strip_prefix_char CHR ''-'' s of
           Some r \<Rightarrow> (True, r)
         | None \<Rightarrow> (case strip_prefix_char CHR ''+'' s of Some r \<Rightarrow> (False, r) | None \<Rightarrow> (False, s)))
      in if rest = ''0'' then Some 0
         else if rest = [] then None
         else case duration_loop rest (Fin 0) of
           None \<Rightarrow> None
         | Some total_nanos \<Rightarrow>
             if neg \<and> f64_pos total_nanos then None else Some (f64_as_u64 total_nanos))"

section \<open>Lines\<close>

definition split_line_ref :: "string \<Rightarrow> string list" where
  "split_line_ref line =
     (let line = (case find_char CHR ''#'' line of Some idx \<Rightarrow> take idx line | None \<Rightarrow> line)
      in filter (\<lambda>s. s \<noteq> []) (map trim (split_pred (\<lambda>c. c = CHR '' '' \<or> c = CHR 0x09) line)))"

definition split_auth_line :: "string \<Rightarrow> string list" where
  "split_auth_line line =
     (if line = [] then []
      else let line = trim (map (\<lambda>c. if c = CHR 0x09 then CHR '' '' else c) line)
           in if prefix ''#'' line then []
              else filter (\<lambda>s. s \<noteq> []) (map trim (split_char CHR '' '' line)))"

section \<open>The authenticator\<close>

record local_authenticator =
  au_kvs :: "(string \<times> string) list"
  au_period :: nat
  au_stopped :: bool

definition auth_new :: "(string \<times> string) list \<Rightarrow> local_authenticator" where
  "auth_new kvs = \<lparr>au_kvs = kvs, au_period = 0, au_stopped = False\<rparr>"

definition auth_add :: "string \<Rightarrow> string \<Rightarrow> local_authenticator \<Rightarrow> local_authenticator" where
  "auth_add k v a = a\<lparr>au_kvs := AList.update k v (au_kvs a)\<rparr>"

definition auth_line :: "(string \<times> string) list \<times> nat \<Rightarrow> string \<Rightarrow> (string \<times> string) list \<times> nat" where
  "auth_line acc line =
     (case acc of (kvs, period) \<Rightarrow>
        case split_auth_line line of
          [] \<Rightarrow> (kvs, period)
        | k # args \<Rightarrow>
            if k = ''reload''
            then (kvs, case args of [] \<Rightarrow> period
                       | d # _ \<Rightarrow> (case parse_go_duration d of Some p \<Rightarrow> p | None \<Rightarrow> 0))
            else (AList.update k (case args of v # _ \<Rightarrow> v | [] \<Rightarrow> []) kvs, period))"

definition auth_reload :: "reader \<Rightarrow> local_authenticator \<Rightarrow> (io_error + unit) \<times> local_authenticator" where
  "auth_reload r a =
     (if au_stopped a then (Inr (), a)
      else case fold_lines auth_line ([], 0) (buf_lines r) of
        Inl e \<Rightarrow> (Inl e, a)
      | Inr (kvs, period) \<Rightarrow> (Inr (), a\<lparr>au_period := period, au_kvs := kvs\<rparr>))"

definition auth_period :: "local_authenticator \<Rightarrow> nat" where
  "auth_period a = (if au_stopped a then 0 else au_period a)"

definition auth_stop :: "local_authenticator \<Rightarrow> local_authenticator" where
  "auth_stop a = a\<lparr>au_stopped := True\<rparr>"

definition authenticate :: "string \<Rightarrow> string \<Rightarrow> local_authenticator \<Rightarrow> bool" where
  "authenticate user password a =
     (if au_kvs a = [] then True
      else case map_of (au_kvs a) user of
        Some v \<Rightarrow> v = [] \<or> password = v
      | None \<Rightarrow> False)"

interpretation auth_reloads: reloadable auth_reload auth_period auth_stop au_stopped
  by unfold_locales
    (auto simp: auth_stop_def auth_period_def auth_reload_def split: if_splits sum.splits prod.splits)

section \<open>Exact durations\<close>

text \<open>The units and their spelling.\<close>

datatype go_unit = Ns | Us | Ms | Sec | Minute | Hour

fun unit_nanos :: "go_unit \<Rightarrow> nat" where
  "unit_nanos Ns = 1" | "unit_nanos Us = 1000" | "unit_nanos Ms = 1000000"
| "unit_nanos Sec = 1000000000" | "unit_nanos Minute = 60000000000" | "unit_nanos Hour = 3600000000000"

fun unit_name :: "go_unit \<Rightarrow> string" where
  "unit_name Ns = ''ns''" | "unit_name Us = ''us''" | "unit_name Ms = ''ms''"
| "unit_name Sec = ''s''" | "unit_name Minute = ''m''" | "unit_name Hour = ''h''"

definition show_duration :: "(nat \<times> go_unit) list \<Rightarrow> string" where
  "show_duration cs = concat (map (\<lambda>(n, u). show_nat n @ unit_name u) cs)"

definition duration_nanos :: "(nat \<times> go_unit) list \<Rightarrow> nat" where
  "duration_nanos cs = sum_list (map (\<lambda>(n, u). n * unit_nanos u) cs)"

lemma show_nat_digits: "c \<in> set (show_nat n) \<Longrightarrow> is_ascii_digit c \<and> c \<noteq> CHR ''.''"
  using show_nat_chars [of c n] by (auto simp: is_ascii_digit_def digit_val_def)

lemma show_duration_hd: "cs \<noteq> [] \<Longrightarrow> \<exists>c r. show_duration cs = c # r \<and> is_ascii_digit c"
proof -
  assume "cs \<noteq> []"
  then obtain n u cs' where cs: "cs = (n, u) # cs'" by (metis list.exhaust surj_pair)
  obtain c r where cr: "show_nat n = c # r" by (cases "show_nat n") auto
  have "is_ascii_digit c" using show_nat_digits [of c n] cr by simp
  then show ?thesis using cs cr by (simp add: show_duration_def)
qed

lemma duration_unit_name:
  assumes "rest = [] \<or> (\<exists>c r. rest = c # r \<and> is_ascii_digit c)"
  shows "duration_unit (unit_name u @ rest) = Some (unit_nanos u, length (unit_name u))"
proof -
  have "\<not> prefix ''s'' rest" using assms by (auto simp: is_ascii_digit_def digit_val_def)
  then show ?thesis by (cases u) (auto simp: duration_unit_def)
qed

lemma unit_name_not_num:
  "\<exists>c r. unit_name u = c # r \<and> \<not> is_ascii_digit c \<and> c \<noteq> CHR ''.''"
  by (cases u) (simp_all add: is_ascii_digit_def digit_val_def)

lemma duration_loop_step:
  assumes "rest = [] \<or> (\<exists>c r. rest = c # r \<and> is_ascii_digit c)" "t + n * unit_nanos u < 2 ^ 53"
  shows "duration_loop (show_nat n @ unit_name u @ rest) (Fin (of_nat t)) =
    duration_loop rest (Fin (of_nat (t + n * unit_nanos u)))"
proof -
  obtain c r where c: "unit_name u = c # r" "\<not> is_ascii_digit c" "c \<noteq> CHR ''.''"
    using unit_name_not_num by blast
  have nd: "CHR ''.'' \<notin> set (show_nat n)" using show_nat_digits by blast
  have num: "find_pred (\<lambda>c. \<not> is_ascii_digit c \<and> c \<noteq> CHR ''.'') (show_nat n @ unit_name u @ rest) =
      Some (length (show_nat n))"
    using c show_nat_digits [of _ n] by (auto intro!: find_pred_append)
  have pos: "unit_nanos u \<ge> 1" by (cases u) simp_all
  have small: "n * unit_nanos u < 2 ^ 53" using assms(2) by linarith
  then have "n < 2 ^ 53" using pos by (metis le_less_trans mult.right_neutral mult_le_mono2)
  then have val: "parse_decimal (show_nat n) = Some (Fin (of_nat n))"
    using split_once_None [of "CHR ''.''" "show_nat n"] nd by (simp add: parse_decimal_def f64_round_nat)
  have sc: "f64_scale (Fin (of_nat n)) (unit_nanos u) = Fin (of_nat (n * unit_nanos u))"
    using f64_round_nat [OF small] by simp
  have ad: "f64_add (Fin (of_nat t)) (Fin (of_nat (n * unit_nanos u))) = Fin (of_nat (t + n * unit_nanos u))"
    using f64_round_nat [OF assms(2)] by simp
  have dots: "count_list (show_nat n) CHR ''.'' = 0" "show_nat n \<noteq> ''.''" using nd by auto
  show ?thesis
    by (subst duration_loop.simps)
      (simp add: num val dots duration_unit_name [OF assms(1)] sc ad del: f64_scale.simps f64_add.simps of_nat_add of_nat_mult)
qed

lemma duration_loop_show:
  "t + duration_nanos cs < 2 ^ 53 \<Longrightarrow>
   duration_loop (show_duration cs) (Fin (of_nat t)) = Some (Fin (of_nat (t + duration_nanos cs)))"
proof (induction cs arbitrary: t)
  case Nil
  then show ?case by (simp add: show_duration_def duration_nanos_def duration_loop.simps)
next
  case (Cons a cs)
  obtain n u where a: "a = (n, u)" by fastforce
  have d: "duration_nanos (a # cs) = n * unit_nanos u + duration_nanos cs" by (simp add: a duration_nanos_def)
  have s: "show_duration (a # cs) = show_nat n @ unit_name u @ show_duration cs"
    by (simp add: a show_duration_def)
  have "show_duration cs = [] \<or> (\<exists>c r. show_duration cs = c # r \<and> is_ascii_digit c)"
    using show_duration_hd by (cases "cs = []") (auto simp: show_duration_def)
  then show ?case using Cons.IH [of "t + n * unit_nanos u"] Cons.prems
    by (simp only: s d) (subst duration_loop_step, simp_all add: add.assoc)
qed

lemma parse_show_duration:
  assumes "cs \<noteq> []" "duration_nanos cs < 2 ^ 53"
  shows "parse_go_duration (show_duration cs) = Some (duration_nanos cs)"
proof -
  obtain n u cs' where cs: "cs = (n, u) # cs'" using assms(1) by (metis list.exhaust surj_pair)
  obtain c r where c: "show_duration cs = c # r" "is_ascii_digit c" using show_duration_hd [OF assms(1)] by blast
  then have ns: "strip_prefix_char CHR ''-'' (show_duration cs) = None" "strip_prefix_char CHR ''+'' (show_duration cs) = None"
    by (auto simp: is_ascii_digit_def digit_val_def)
  obtain x y where x: "unit_name u = x # y" "\<not> is_ascii_digit x" using unit_name_not_num by blast
  then have "x \<in> set (show_duration cs)" by (simp add: cs show_duration_def)
  then have nz: "show_duration cs \<noteq> ''0''" using x by (auto simp: is_ascii_digit_def digit_val_def)
  have l: "duration_loop (show_duration cs) (Fin 0) = Some (Fin (of_nat (duration_nanos cs)))"
    using duration_loop_show [of 0 cs] assms(2) by simp
  have "f64_as_u64 (Fin (of_nat (duration_nanos cs))) = duration_nanos cs" using assms(2) by simp
  then show ?thesis using ns nz c l by (auto simp: parse_go_duration_def simp del: f64_as_u64.simps)
qed

section \<open>The secrets file\<close>

text \<open>
  What a line of a secrets file can say. A name and a password are non-empty words of printable
  characters (a password may contain \<^verbatim>\<open>#\<close>), a name is not the directive \<^verbatim>\<open>reload\<close> and does not start
  a comment.
\<close>

datatype secrets_line = Secret string string | OpenUser string | Comment string | ReloadEvery "(nat \<times> go_unit) list" | Blank

definition token_ok :: "string \<Rightarrow> bool" where
  "token_ok s \<longleftrightarrow> s \<noteq> [] \<and> list_all graphic s"

definition user_ok :: "string \<Rightarrow> bool" where
  "user_ok u \<longleftrightarrow> token_ok u \<and> u \<noteq> ''reload'' \<and> hd u \<noteq> CHR ''#''"

fun secrets_line_ok :: "secrets_line \<Rightarrow> bool" where
  "secrets_line_ok (Secret u p) = (user_ok u \<and> token_ok p)"
| "secrets_line_ok (OpenUser u) = user_ok u"
| "secrets_line_ok (Comment t) = (list_all (\<lambda>c. graphic c \<or> c = CHR '' '') t \<and> graphic (last (CHR ''#'' # t)))"
| "secrets_line_ok (ReloadEvery cs) = (cs \<noteq> [] \<and> duration_nanos cs < 2 ^ 53)"
| "secrets_line_ok Blank = True"

fun show_secrets_line :: "secrets_line \<Rightarrow> string" where
  "show_secrets_line (Secret u p) = u @ '' '' @ p"
| "show_secrets_line (OpenUser u) = u"
| "show_secrets_line (Comment t) = ''#'' @ t"
| "show_secrets_line (ReloadEvery cs) = ''reload '' @ show_duration cs"
| "show_secrets_line Blank = []"

fun secrets_entry :: "secrets_line \<Rightarrow> (string \<times> string) option" where
  "secrets_entry (Secret u p) = Some (u, p)"
| "secrets_entry (OpenUser u) = Some (u, [])"
| "secrets_entry _ = None"

fun secrets_period :: "secrets_line \<Rightarrow> nat option" where
  "secrets_period (ReloadEvery cs) = Some (duration_nanos cs)"
| "secrets_period _ = None"

lemma graphic_char_facts: "graphic c \<Longrightarrow> c \<noteq> CHR '' '' \<and> c \<noteq> CHR 0x09 \<and> c \<noteq> CHR 0x0A \<and> c \<noteq> CHR 0x0D \<and> byte_in 0 127 c"
  by (auto simp: graphic_def byte_in_def)

lemma map_tab_id: "CHR 0x09 \<notin> set s \<Longrightarrow> map (\<lambda>c. if c = CHR 0x09 then CHR '' '' else c) s = s"
  by (rule map_idI) auto

lemma token_facts:
  assumes "token_ok s"
  shows "s \<noteq> []" "trim s = s" "CHR '' '' \<notin> set s" "CHR 0x09 \<notin> set s" "graphic (hd s)" "graphic (last s)"
    "list_all graphic s"
  using assms graphic_char_facts by (auto simp: token_ok_def list_all_iff)

lemma split_auth_words:
  assumes "token_ok k" "token_ok v" "hd k \<noteq> CHR ''#''"
  shows "split_auth_line (k @ CHR '' '' # v) = [k, v]" "split_auth_line k = [k]"
proof -
  note k = token_facts [OF assms(1)] and v = token_facts [OF assms(2)]
  have h: "\<not> prefix ''#'' (k @ w)" for w using k(1) assms(3) by (cases k) auto
  have t: "trim (k @ CHR '' '' # v) = k @ CHR '' '' # v"
    using k v by (intro trim_ends_graphic) auto
  show "split_auth_line (k @ CHR '' '' # v) = [k, v]"
    using k v h map_tab_id [of "k @ CHR '' '' # v"]
    by (simp add: split_auth_line_def t split_pred_append Let_def)
  show "split_auth_line k = [k]"
    using k h [of "[]"] map_tab_id [of k] by (simp add: split_auth_line_def Let_def)
qed

lemma token_duration: "cs \<noteq> [] \<Longrightarrow> token_ok (show_duration cs)"
proof -
  have "list_all graphic (unit_name u)" for u by (cases u) (simp_all add: graphic_def)
  then have "list_all graphic (show_duration cs)"
    by (induction cs) (auto simp: show_duration_def show_nat_graphic)
  moreover assume "cs \<noteq> []"
  then have "show_duration cs \<noteq> []" using show_duration_hd by fastforce
  ultimately show ?thesis by (simp add: token_ok_def)
qed

lemma split_auth_comment:
  assumes "list_all (\<lambda>c. graphic c \<or> c = CHR '' '') t" "graphic (last (CHR ''#'' # t))"
  shows "split_auth_line (CHR ''#'' # t) = []"
proof -
  have "CHR 0x09 \<notin> set (CHR ''#'' # t)" using assms(1) graphic_char_facts by (auto simp: list_all_iff)
  moreover have "trim (CHR ''#'' # t) = CHR ''#'' # t"
    using assms(2) by (intro trim_ends_graphic) (simp_all add: graphic_def)
  ultimately show ?thesis using map_tab_id [of "CHR ''#'' # t"] by (simp add: split_auth_line_def Let_def)
qed

lemma auth_line_secrets:
  assumes "secrets_line_ok l"
  shows "auth_line (kvs, p) (show_secrets_line l) =
    ((case secrets_entry l of Some (k, v) \<Rightarrow> AList.update k v kvs | None \<Rightarrow> kvs),
     (case secrets_period l of Some d \<Rightarrow> d | None \<Rightarrow> p))"
proof (cases l)
  case (Secret u w)
  then show ?thesis using assms split_auth_words(1) [of u w] by (simp add: auth_line_def user_ok_def)
next
  case (OpenUser u)
  then show ?thesis using assms split_auth_words(2) [of u u] by (simp add: auth_line_def user_ok_def)
next
  case (Comment w)
  then show ?thesis using assms split_auth_comment [of w] by (simp add: auth_line_def)
next
  case (ReloadEvery cs)
  have "token_ok ''reload''" by (simp add: token_ok_def graphic_def)
  then show ?thesis
    using ReloadEvery assms split_auth_words(1) [OF _ token_duration, of "''reload''" cs] parse_show_duration [of cs]
    by (simp add: auth_line_def)
qed (simp add: auth_line_def split_auth_line_def)

definition secrets_entries :: "secrets_line list \<Rightarrow> (string \<times> string) list" where
  "secrets_entries ls = List.map_filter secrets_entry ls"

definition last_period :: "secrets_line list \<Rightarrow> nat" where
  "last_period ls = (case rev (List.map_filter secrets_period ls) of [] \<Rightarrow> 0 | d # _ \<Rightarrow> d)"

lemma fold_auth_lines:
  assumes "list_all secrets_line_ok ls"
  shows "\<exists>kvs. foldl auth_line ([], 0) (map show_secrets_line ls) = (kvs, last_period ls) \<and>
    map_of kvs = map_of (rev (secrets_entries ls)) \<and> (kvs = [] \<longleftrightarrow> secrets_entries ls = [])"
  using assms
proof (induction ls rule: rev_induct)
  case Nil
  then show ?case by (simp add: last_period_def secrets_entries_def map_filter_def)
next
  case (snoc l ls)
  then obtain kvs where k: "foldl auth_line ([], 0) (map show_secrets_line ls) = (kvs, last_period ls)"
    "map_of kvs = map_of (rev (secrets_entries ls))" "kvs = [] \<longleftrightarrow> secrets_entries ls = []" by auto
  show ?case using k snoc.prems auth_line_secrets [of l kvs "last_period ls"]
    by (cases l) (auto simp: secrets_entries_def map_filter_def last_period_def update_conv')
qed

lemma utf8_valid_ascii: "list_all (byte_in 0 127) s \<Longrightarrow> utf8_valid s"
  by (induction s) simp_all

lemma plain_graphic: "list_all (\<lambda>c. graphic c \<or> c = CHR '' '') s \<Longrightarrow> plain_line s"
proof -
  assume a: "list_all (\<lambda>c. graphic c \<or> c = CHR '' '') s"
  have sp: "byte_in 0 127 CHR '' ''" by (simp add: byte_in_def)
  have c: "byte_in 0 127 c \<and> c \<noteq> CHR 0x0A \<and> c \<noteq> CHR 0x0D" if "c \<in> set s" for c
    using a that graphic_char_facts [of c] sp by (auto simp: list_all_iff)
  then have "utf8_valid s" by (intro utf8_valid_ascii) (simp add: list_all_iff)
  then show ?thesis using c by (auto simp: plain_line_def)
qed

lemma plain_secrets: "secrets_line_ok l \<Longrightarrow> plain_line (show_secrets_line l)"
proof (rule plain_graphic)
  let ?P = "list_all (\<lambda>c. graphic c \<or> c = CHR '' '')"
  assume ok: "secrets_line_ok l"
  have w: "?P s" if "token_ok s" for s using token_facts(7) [OF that] by (simp add: list_all_iff)
  have r: "?P ''reload ''" "?P ''#''" "?P '' ''" by (simp_all add: graphic_def)
  show "?P (show_secrets_line l)"
  proof (cases l)
    case (Secret u p)
    then show ?thesis using ok w [of u] w [of p] by (simp add: user_ok_def)
  next
    case (OpenUser u)
    then show ?thesis using ok w [of u] by (simp add: user_ok_def)
  next
    case (Comment t)
    then show ?thesis using ok r(2) by simp
  next
    case (ReloadEvery cs)
    then show ?thesis using ok r(1) w [OF token_duration, of cs] by simp
  qed simp
qed

section \<open>Properties\<close>

text \<open>C29. Loading a secrets file gives exactly the accounts it lists: comments and blank lines count
  for nothing, the last entry of a user wins, a user without a password is let in with any
  password, a password may contain a hash sign, nobody else is let in unless the file lists
  no account at all, and the reload period is the one of the last directive.\<close>

theorem secrets_file_semantics:
  assumes "list_all secrets_line_ok ls" "\<not> au_stopped a"
  shows "\<exists>b. auth_reload (file_reader (map show_secrets_line ls)) a = (Inr (), b) \<and>
    auth_period b = last_period ls \<and>
    (\<forall>user password. authenticate user password b =
       (secrets_entries ls = [] \<or>
        (case map_of (rev (secrets_entries ls)) user of None \<Rightarrow> False | Some v \<Rightarrow> v = [] \<or> password = v)))"
proof -
  have "list_all plain_line (map show_secrets_line ls)" using assms(1) plain_secrets by (auto simp: list_all_iff)
  then have l: "buf_lines (file_reader (map show_secrets_line ls)) = map Inr (map show_secrets_line ls)"
    by (rule buf_lines_file)
  obtain kvs where k: "foldl auth_line ([], 0) (map show_secrets_line ls) = (kvs, last_period ls)"
    "map_of kvs = map_of (rev (secrets_entries ls))" "kvs = [] \<longleftrightarrow> secrets_entries ls = []"
    using fold_auth_lines [OF assms(1)] by blast
  let ?b = "a\<lparr>au_period := last_period ls, au_kvs := kvs\<rparr>"
  have "auth_reload (file_reader (map show_secrets_line ls)) a = (Inr (), ?b)"
    using assms(2) k(1) unfolding auth_reload_def l fold_lines_Inr by simp
  moreover have "auth_period ?b = last_period ls" using assms(2) by (simp add: auth_period_def)
  moreover have "authenticate user password ?b =
       (secrets_entries ls = [] \<or>
        (case map_of (rev (secrets_entries ls)) user of None \<Rightarrow> False | Some v \<Rightarrow> v = [] \<or> password = v))" for user password
    using k(2,3) by (simp add: authenticate_def split: option.splits)
  ultimately show ?thesis by blast
qed

theorem secrets_file_semantics_witness:
  "\<exists>b. auth_reload (file_reader [''# accounts'', ''admin s3cr3t#pass'', ''guest'', ''reload 1m30s'']) (auth_new []) = (Inr (), b) \<and>
     auth_period b = 90000000000 \<and> authenticate ''admin'' ''s3cr3t#pass'' b \<and> \<not> authenticate ''admin'' ''s3cr3t'' b \<and>
     authenticate ''guest'' ''x'' b \<and> \<not> authenticate ''root'' [] b"
proof -
  define ls where "ls = [Comment '' accounts'', Secret ''admin'' ''s3cr3t#pass'', OpenUser ''guest'',
    ReloadEvery [(1, Minute), (30, Sec)]]"
  have ok: "list_all secrets_line_ok ls" by (simp add: ls_def user_ok_def token_ok_def graphic_def duration_nanos_def)
  have sh: "map show_secrets_line ls = [''# accounts'', ''admin s3cr3t#pass'', ''guest'', ''reload 1m30s'']"
    by (simp add: ls_def show_duration_def show_nat.simps digit_char_def)
  have n: "\<not> au_stopped (auth_new [])" by (simp add: auth_new_def)
  have e: "secrets_entries ls = [(''admin'', ''s3cr3t#pass''), (''guest'', [])]" "last_period ls = 90000000000"
    by (simp_all add: ls_def secrets_entries_def map_filter_def last_period_def duration_nanos_def)
  obtain b where b: "auth_reload (file_reader [''# accounts'', ''admin s3cr3t#pass'', ''guest'', ''reload 1m30s''])
      (auth_new []) = (Inr (), b)" "auth_period b = 90000000000"
    "\<And>user password. authenticate user password b =
        (case map_of [(''guest'', []), (''admin'', ''s3cr3t#pass'')] user of None \<Rightarrow> False | Some v \<Rightarrow> v = [] \<or> password = v)"
    using secrets_file_semantics [OF ok n, unfolded sh e] by auto
  show ?thesis by (rule exI [of _ b]) (simp add: b)
qed

text \<open>Durations are exact where they should be: any sequence of whole numbers with units whose sum
  is below 2^53 nanoseconds (about 104 days) parses to exactly that many nanoseconds, although
  the parser computes in binary floating point.\<close>

theorem go_duration_exact:
  assumes "cs \<noteq> []" "duration_nanos cs < 2 ^ 53"
  shows "parse_go_duration (show_duration cs) = Some (duration_nanos cs)"
  using assms by (rule parse_show_duration)

theorem go_duration_exact_witness: "parse_go_duration ''2h45m'' = Some 9900000000000"
proof -
  have "show_duration [(2, Hour), (45, Minute)] = ''2h45m''"
    by (simp add: show_duration_def show_nat.simps digit_char_def)
  then show ?thesis using go_duration_exact [of "[(2, Hour), (45, Minute)]"] by (simp add: duration_nanos_def)
qed

end
