(* ===== verification/ConfigLine.thy ===== *)
theory ConfigLine
  imports Auth
begin

text \<open>
  Lines of the configuration files that \<^verbatim>\<open>split_line_ref\<close> takes apart (bypass rules and hosts):
  how a list of words is written as a line, with blanks or tabs between the words and an
  optional comment, and that reading such a line gives the words back.
\<close>

definition plain_token :: "string \<Rightarrow> bool" where
  "plain_token s \<longleftrightarrow> s \<noteq> [] \<and> list_all graphic s \<and> CHR ''#'' \<notin> set s"

text \<open>A line: the words of a rule separated by one blank or tab, and an optional comment.\<close>

fun join_words :: "char \<Rightarrow> string list \<Rightarrow> string" where
  "join_words c [] = []"
| "join_words c [x] = x"
| "join_words c (x # xs) = x @ c # join_words c xs"

definition config_text :: "char \<Rightarrow> string option \<Rightarrow> string list \<Rightarrow> string" where
  "config_text sep comment ws =
     join_words sep ws @ (case comment of None \<Rightarrow> [] | Some t \<Rightarrow> '' #'' @ t)"

lemma plain_token_facts:
  assumes "plain_token s"
  shows "s \<noteq> []" "trim s = s" "CHR '' '' \<notin> set s" "CHR 0x09 \<notin> set s" "CHR ''#'' \<notin> set s"
  using assms graphic_char_facts by (auto simp: plain_token_def list_all_iff)

lemma plain_token_no_sep: "plain_token s \<Longrightarrow> \<forall>c \<in> set s. \<not> (c = CHR '' '' \<or> c = CHR 0x09)"
  using plain_token_facts(3,4) by blast

lemma split_join_words:
  assumes "list_all plain_token ws" "sep = CHR '' '' \<or> sep = CHR 0x09"
  shows "filter (\<lambda>s. s \<noteq> []) (map trim (split_pred (\<lambda>c. c = CHR '' '' \<or> c = CHR 0x09) (join_words sep ws))) = ws"
  using assms
proof (induction sep ws rule: join_words.induct)
  case (2 c x)
  then show ?case using plain_token_no_sep [of x] plain_token_facts [of x] by simp
next
  case (3 c x y xs)
  then show ?case using plain_token_no_sep [of x] plain_token_facts [of x]
    by (simp add: split_pred_append)
qed simp

lemma join_words_no_hash: "list_all plain_token ws \<Longrightarrow> sep \<noteq> CHR ''#'' \<Longrightarrow> CHR ''#'' \<notin> set (join_words sep ws)"
  by (induction sep ws rule: join_words.induct) (auto dest: plain_token_facts)

lemma split_line_words:
  assumes "list_all plain_token ws" "sep = CHR '' '' \<or> sep = CHR 0x09"
  shows "split_line_ref (config_text sep comment ws) = ws"
proof -
  let ?j = "join_words sep ws"
  have h: "CHR ''#'' \<notin> set ?j" using join_words_no_hash assms by auto
  note w = split_join_words [OF assms]
  show ?thesis
  proof (cases comment)
    case None
    then have "find_char CHR ''#'' ?j = None" using h by auto
    then show ?thesis using None w by (simp add: split_line_ref_def config_text_def del: find_pred_None)
  next
    case (Some t)
    have "find_char CHR ''#'' ((?j @ '' '') @ CHR ''#'' # t) = Some (length (?j @ '' ''))"
      using h by (intro find_char_append) auto
    moreover have "filter (\<lambda>s. s \<noteq> []) (map trim (split_pred (\<lambda>c. c = CHR '' '' \<or> c = CHR 0x09) (?j @ '' ''))) = ws"
      using w split_pred_append [of "\<lambda>c. c = CHR '' '' \<or> c = CHR 0x09" "CHR '' ''" ?j "[]"] by simp
    ultimately show ?thesis using Some by (simp add: split_line_ref_def config_text_def)
  qed
qed

lemma plain_char: "graphic c \<or> c = CHR '' '' \<or> c = CHR 0x09 \<Longrightarrow> byte_in 0 127 c \<and> c \<noteq> CHR 0x0A \<and> c \<noteq> CHR 0x0D"
  using graphic_char_facts [of c] by (auto simp: byte_in_def)

lemma plain_line_chars:
  "(\<And>c. c \<in> set s \<Longrightarrow> graphic c \<or> c = CHR '' '' \<or> c = CHR 0x09) \<Longrightarrow> plain_line s"
  using plain_char utf8_valid_ascii [of s] by (fastforce simp: plain_line_def list_all_iff)

lemma join_words_chars:
  "list_all plain_token ws \<Longrightarrow> c \<in> set (join_words sep ws) \<Longrightarrow> graphic c \<or> c = sep"
  by (induction sep ws rule: join_words.induct) (auto simp: plain_token_def list_all_iff)

lemma plain_config_text:
  assumes "list_all plain_token ws" "sep = CHR '' '' \<or> sep = CHR 0x09"
    "\<And>t. comment = Some t \<Longrightarrow> list_all (\<lambda>c. graphic c \<or> c = CHR '' '') t"
  shows "plain_line (config_text sep comment ws)"
proof (rule plain_line_chars)
  fix c assume "c \<in> set (config_text sep comment ws)"
  moreover have "graphic CHR ''#''" by (simp add: graphic_def)
  ultimately show "graphic c \<or> c = CHR '' '' \<or> c = CHR 0x09"
    using join_words_chars [OF assms(1), of c sep] assms(2,3)
    by (auto simp: config_text_def list_all_iff split: option.splits)
qed

definition comment_ok :: "string option \<Rightarrow> bool" where
  "comment_ok c = (case c of None \<Rightarrow> True | Some t \<Rightarrow> list_all (\<lambda>c. graphic c \<or> c = CHR '' '') t)"

lemma plain_token_duration: "cs \<noteq> [] \<Longrightarrow> plain_token (show_duration cs)"
proof -
  have u: "CHR ''#'' \<notin> set (unit_name u)" for u by (cases u) auto
  have n: "CHR ''#'' \<notin> set (show_nat n)" for n by (rule show_nat_not_mem) simp
  have "CHR ''#'' \<notin> set (show_duration cs)" using u n by (auto simp: show_duration_def)
  then show "cs \<noteq> [] \<Longrightarrow> plain_token (show_duration cs)"
    using token_duration [of cs] by (simp add: plain_token_def token_ok_def)
qed

end
