(* ===== verification/Permissions.thy ===== *)
theory Permissions
  imports RustStr
begin

text \<open>
  The access rules of \<^verbatim>\<open>src/src/permissions.rs\<close>: splitting \<^verbatim>\<open>host:port\<close> addresses, the glob
  engine of the rules, port ranges and rule parsing, and the decision function \<^verbatim>\<open>Can\<close>. The
  lemmas characterise the address splitter completely, prove the greedy glob matcher
  equal to a reference matcher that tries every split, and show that a denied or malformed
  address is never let through.
\<close>

section \<open>Address splitting\<close>

datatype addr_error =
    MissingPort string
  | TooManyColons string
  | MissingRBracket string
  | UnexpectedLBracket string
  | UnexpectedRBracket string

definition split_host_port :: "string \<Rightarrow> addr_error + (string \<times> string)" where
  "split_host_port host_port =
     (case rfind_char CHR '':'' host_port of
        None \<Rightarrow> Inl (MissingPort host_port)
      | Some i \<Rightarrow>
          let finish = (\<lambda>host j k.
                if CHR ''['' \<in> set (drop j host_port) then Inl (UnexpectedLBracket host_port)
                else if CHR '']'' \<in> set (drop k host_port) then Inl (UnexpectedRBracket host_port)
                else Inr (host, drop (i + 1) host_port))
          in if host_port ! 0 = CHR ''[''
             then (case find_char CHR '']'' host_port of
                     None \<Rightarrow> Inl (MissingRBracket host_port)
                   | Some e \<Rightarrow>
                       if e + 1 = length host_port then Inl (MissingPort host_port)
                       else if e + 1 = i then finish (drop 1 (take e host_port)) 1 (e + 1)
                       else if host_port ! (e + 1) = CHR '':'' then Inl (TooManyColons host_port)
                       else Inl (MissingPort host_port))
             else let host = take i host_port
                  in if CHR '':'' \<in> set host then Inl (TooManyColons host_port)
                     else finish host 0 0)"

text \<open>The two shapes of an address, as a relation between the address and its parts.\<close>

definition host_port_form :: "string \<Rightarrow> string \<Rightarrow> string \<Rightarrow> bool" where
  "host_port_form s host port \<longleftrightarrow>
     CHR '':'' \<notin> set port \<and> CHR ''['' \<notin> set port \<and> CHR '']'' \<notin> set port \<and>
     CHR ''['' \<notin> set host \<and> CHR '']'' \<notin> set host \<and>
     (s = host @ '':'' @ port \<and> CHR '':'' \<notin> set host \<or>
      s = ''['' @ host @ '']:'' @ port)"

lemma split_host_port_complete:
  assumes "host_port_form s host port"
  shows "split_host_port s = Inr (host, port)"
proof -
  note f = assms [unfolded host_port_form_def]
  from f consider (plain) "s = host @ CHR '':'' # port" "CHR '':'' \<notin> set host"
    | (bracket) "s = (CHR ''['' # host @ [CHR '']'']) @ CHR '':'' # port" by auto
  then show ?thesis
  proof cases
    case plain
    have "rfind_char CHR '':'' s = Some (length host)"
      using f plain(1) by (simp add: rfind_char_append)
    moreover have "s ! 0 \<noteq> CHR ''[''" using f plain(1) by (cases host) auto
    ultimately show ?thesis using f plain by (simp add: split_host_port_def)
  next
    case bracket
    have r: "rfind_char CHR '':'' s = Some (length host + 2)"
      using f rfind_char_append [of "CHR '':''" port "CHR ''['' # host @ [CHR '']'']"]
      by (simp add: bracket)
    have b: "find_char CHR '']'' s = Some (Suc (length host))"
      using f find_char_append [of "CHR '']''" "CHR ''['' # host" "CHR '':'' # port"]
      by (simp add: bracket)
    show ?thesis using f r b by (simp add: split_host_port_def bracket)
  qed
qed

lemma split_host_port_sound:
  assumes "split_host_port s = Inr (host, port)"
  shows "host_port_form s host port"
proof -
  obtain i where i: "rfind_char CHR '':'' s = Some i"
    using assms by (auto simp: split_host_port_def split: option.splits)
  then obtain u v where uv: "s = u @ CHR '':'' # v" "length u = i" "CHR '':'' \<notin> set v"
    by (elim rfind_char_SomeE)
  show ?thesis
  proof (cases "s ! 0 = CHR ''[''")
    case False
    then show ?thesis using assms uv i
      by (auto simp: split_host_port_def host_port_form_def Let_def split: if_splits)
  next
    case True
    then obtain e where e: "find_char CHR '']'' s = Some e" "e + 1 = i"
      using assms i by (auto simp: split_host_port_def Let_def split: option.splits if_splits)
    from e(1) obtain a b where ab: "s = a @ CHR '']'' # b" "length a = e" "CHR '']'' \<notin> set a"
      by (elim find_pred_SomeE) auto
    with True obtain h where h: "a = CHR ''['' # h" by (cases a) auto
    have "b = CHR '':'' # v"
      using ab uv e by (metis Suc_eq_plus1 append_Cons append_eq_append_conv append_self_conv2
          append_assoc length_append_singleton nth_append_length)
    then have s: "s = CHR ''['' # h @ CHR '']'' # CHR '':'' # v" using ab h by simp
    have "find_char CHR '']'' s = Some (Suc (length h))" "i = length h + 2"
      using e ab h by auto
    then show ?thesis using assms i ab h uv(3)
      by (auto simp: s split_host_port_def host_port_form_def Let_def split: if_splits)
  qed
qed

section \<open>Glob patterns\<close>

text \<open>The loop over all parts but the last, with the index of the part.\<close>

fun glob_loop :: "bool \<Rightarrow> nat \<Rightarrow> string list \<Rightarrow> string \<Rightarrow> string option" where
  "glob_loop leading_glob i [] subj = Some subj"
| "glob_loop leading_glob i (part # parts) subj =
     (let idx = str_find part subj
      in if i = 0 \<and> \<not> leading_glob \<and> idx \<noteq> Some 0 then None
         else if i \<noteq> 0 \<and> idx = None then None
         else let k = (case idx of None \<Rightarrow> 0 | Some k \<Rightarrow> k)
              in glob_loop leading_glob (Suc i) parts (drop (k + length part) subj))"

definition go_glob :: "string \<Rightarrow> string \<Rightarrow> bool" where
  "go_glob pattern subj =
     (if pattern = [] then subj = pattern
      else if pattern = ''*'' then True
      else let parts = split_char CHR ''*'' pattern
           in if length parts = 1 then subj = pattern
              else let leading_glob = (hd pattern = CHR ''*'');
                       trailing_glob = (last pattern = CHR ''*'');
                       e = length parts - 1
                   in case glob_loop leading_glob 0 (take e parts) subj of
                        None \<Rightarrow> False
                      | Some rest \<Rightarrow> trailing_glob \<or> suffix (parts ! e) rest)"

text \<open>Reference semantics: a star matches any text, every other character itself.\<close>

fun glob_ref :: "string \<Rightarrow> string \<Rightarrow> bool" where
  "glob_ref [] s \<longleftrightarrow> s = []"
| "glob_ref (c # p) s \<longleftrightarrow>
     (if c = CHR ''*'' then glob_ref p s \<or> (case s of [] \<Rightarrow> False | _ # t \<Rightarrow> glob_ref (c # p) t)
      else (case s of [] \<Rightarrow> False | x # t \<Rightarrow> x = c \<and> glob_ref p t))"

declare glob_ref.simps(2) [simp del]

lemma glob_ref_star: "glob_ref (CHR ''*'' # p) s \<longleftrightarrow> (\<exists>u v. s = u @ v \<and> glob_ref p v)"
proof (induction s)
  case (Cons x s)
  have "(\<exists>u v. x # s = u @ v \<and> glob_ref p v) \<longleftrightarrow>
        glob_ref p (x # s) \<or> (\<exists>u v. s = u @ v \<and> glob_ref p v)"
    by (metis append_Cons append_Nil append_eq_Cons_conv)
  with Cons.IH show ?case by (simp add: glob_ref.simps(2) [of _ p "x # s"])
qed (simp add: glob_ref.simps(2))

lemma glob_ref_char: "c \<noteq> CHR ''*'' \<Longrightarrow> glob_ref (c # p) s \<longleftrightarrow> (\<exists>t. s = c # t \<and> glob_ref p t)"
  by (auto simp: glob_ref.simps(2) split: list.splits)

text \<open>What has to match behind a star, given the parts that follow it.\<close>

fun glob_tail :: "string list \<Rightarrow> string \<Rightarrow> bool" where
  "glob_tail [] s = True"
| "glob_tail [q] s = suffix q s"
| "glob_tail (q # qs) s = (\<exists>u v. s = u @ q @ v \<and> glob_tail qs v)"

lemma glob_tail_mono: "glob_tail qs v \<Longrightarrow> glob_tail qs (w @ v)"
proof (induction qs v rule: glob_tail.induct)
  case (2 q s)
  then show ?case by (simp add: suffix_append)
next
  case (3 q p qs s)
  then show ?case by (metis append_assoc glob_tail.simps(3))
qed simp

lemma glob_tail_step:
  "glob_tail (q # qs) s \<longleftrightarrow> (\<exists>u v. s = u @ v \<and> (if qs = [] then v = q else \<exists>w. v = q @ w \<and> glob_tail qs w))"
  by (cases qs) (auto simp: suffix_def)

lemma glob_ref_parts:
  "split_char CHR ''*'' pat = q # qs \<Longrightarrow>
   glob_ref pat s \<longleftrightarrow> (if qs = [] then s = q else \<exists>v. s = q @ v \<and> glob_tail qs v)"
proof (induction pat arbitrary: q qs s)
  case (Cons c pat)
  obtain q' qs' where sp: "split_char CHR ''*'' pat = q' # qs'"
    by (meson list.exhaust split_pred_ne)
  show ?case
  proof (cases "c = CHR ''*''")
    case True
    with Cons.prems sp have "q = []" "qs = q' # qs'" by auto
    then show ?thesis using True by (simp add: glob_ref_star Cons.IH [OF sp] glob_tail_step)
  next
    case False
    with Cons.prems sp have "q = c # q'" "qs = qs'" by auto
    then show ?thesis using False by (auto simp: glob_ref_char Cons.IH [OF sp])
  qed
qed auto

text \<open>Taking the first occurrence of every middle part loses no match.\<close>

lemma glob_loop_greedy:
  "glob_tail (ms @ [l]) s \<longleftrightarrow> (\<exists>r. glob_loop lg (Suc i) ms s = Some r \<and> suffix l r)"
proof (induction ms arbitrary: s i)
  case (Cons m ms)
  obtain x xs where ne: "ms @ [l] = x # xs" by (cases ms) auto
  have "glob_tail ((m # ms) @ [l]) s \<longleftrightarrow> (\<exists>u v. s = u @ m @ v \<and> glob_tail (ms @ [l]) v)"
    by (simp add: ne)
  also have "\<dots> \<longleftrightarrow> (\<exists>k. str_find m s = Some k \<and> glob_tail (ms @ [l]) (drop (k + length m) s))"
  proof
    assume "\<exists>u v. s = u @ m @ v \<and> glob_tail (ms @ [l]) v"
    then obtain u v where "s = u @ m @ v" "glob_tail (ms @ [l]) v" by blast
    then show "\<exists>k. str_find m s = Some k \<and> glob_tail (ms @ [l]) (drop (k + length m) s)"
      by (metis glob_tail_mono str_find_first)
  next
    assume "\<exists>k. str_find m s = Some k \<and> glob_tail (ms @ [l]) (drop (k + length m) s)"
    then obtain k where k: "str_find m s = Some k" "glob_tail (ms @ [l]) (drop (k + length m) s)"
      by blast
    from k(1) obtain u v where uv: "s = u @ m @ v" "length u = k" by (elim str_find_SomeE)
    then have "glob_tail (ms @ [l]) v" using k(2) by simp
    with uv(1) show "\<exists>u v. s = u @ m @ v \<and> glob_tail (ms @ [l]) v" by metis
  qed
  also have "\<dots> \<longleftrightarrow> (\<exists>r. glob_loop lg (Suc i) (m # ms) s = Some r \<and> suffix l r)"
    by (auto simp: Cons.IH [of _ "Suc i"] Let_def split: option.splits)
  finally show ?case .
qed simp

lemma glob_loop_first:
  "glob_loop lg 0 (m # ms) s = Some r \<longleftrightarrow>
     (lg \<longrightarrow> m = []) \<and> prefix m s \<and> glob_loop lg (Suc 0) ms (drop (length m) s) = Some r"
  if "lg \<Longrightarrow> m = []"
  using that str_find_zero [of m s] by (auto simp: Let_def split: option.splits)

lemma split_char_hd: "pat \<noteq> [] \<Longrightarrow> hd pat = c \<Longrightarrow> hd (split_char c pat) = []"
  by (cases pat) auto

lemma split_char_last: "pat \<noteq> [] \<Longrightarrow> last pat = c \<Longrightarrow> last (split_char c pat) = []"
proof -
  assume "pat \<noteq> []" "last pat = c"
  then have "pat = butlast pat @ c # []" by (metis append_butlast_last_id)
  then show ?thesis using split_pred_append [of "\<lambda>x. x = c" c "butlast pat" "[]"]
    by (metis last_snoc split_pred.simps(1))
qed

lemma split_char_single: "split_char c pat = [q] \<Longrightarrow> q = pat"
  by (induction pat arbitrary: q) (auto split: list.splits if_splits)

lemma go_glob_eq_ref: "go_glob pat s = glob_ref pat s"
proof -
  obtain q qs where sp: "split_char CHR ''*'' pat = q # qs" by (meson list.exhaust split_pred_ne)
  consider (empty) "pat = []" | (star) "pat = ''*''" | (plain) "pat \<noteq> []" "pat \<noteq> ''*''" "qs = []"
    | (glob) "pat \<noteq> []" "pat \<noteq> ''*''" "qs \<noteq> []" by blast
  then show ?thesis
  proof cases
    case glob
    let ?lg = "hd pat = CHR ''*''"
    have q: "?lg \<Longrightarrow> q = []" using split_char_hd [OF glob(1)] sp by (metis list.sel(1))
    have l: "last pat = CHR ''*'' \<Longrightarrow> last qs = []"
      using split_char_last [OF glob(1)] sp glob(3) by (metis last_ConsR)
    define ms where "ms = butlast qs"
    have tk: "take (length qs) (q # qs) = q # ms" "qs = ms @ [last qs]"
      using glob(3) by (simp add: ms_def take_Cons' butlast_conv_take) (simp add: ms_def glob(3))
    have "go_glob pat s \<longleftrightarrow> (\<exists>r. glob_loop ?lg 0 (q # ms) s = Some r \<and> suffix (last qs) r)"
      using glob l by (auto simp: go_glob_def sp tk(1) Let_def last_conv_nth nth_Cons'
          split: option.splits simp del: glob_loop.simps)
    also have "\<dots> \<longleftrightarrow> prefix q s \<and> glob_tail qs (drop (length q) s)"
      using glob_loop_greedy [of ms "last qs" "drop (length q) s" ?lg 0] q
      by (auto simp: glob_loop_first tk(2) [symmetric] simp del: glob_loop.simps)
    also have "\<dots> \<longleftrightarrow> glob_ref pat s"
      using glob(3) by (auto simp: glob_ref_parts [OF sp] prefix_def)
    finally show ?thesis .
  qed (use split_char_single [of _ pat] sp in \<open>auto simp: go_glob_def glob_ref_star glob_ref_parts\<close>)
qed

section \<open>Port ranges, rules and the decision\<close>

datatype permission_error =
    InvalidPort string
  | EmptyPort
  | EmptyString
  | InvalidFormat string

record port_range =
  pr_min :: int
  pr_max :: int

definition port_range_parse :: "string \<Rightarrow> permission_error + port_range" where
  "port_range_parse s =
     (if s = ''*'' then Inr \<lparr>pr_min = 0, pr_max = 65535\<rparr>
      else case split_once CHR ''-'' s of
        Some (min_str, max_str) \<Rightarrow>
          (case parse_i64 min_str of
             None \<Rightarrow> Inl (InvalidPort s)
           | Some mn \<Rightarrow>
               (case parse_i64 max_str of
                  None \<Rightarrow> Inl (InvalidPort s)
                | Some mx \<Rightarrow> Inr \<lparr>pr_min = max (min mn mx) 0, pr_max = min (max mn mx) 65535\<rparr>))
      | None \<Rightarrow>
          (case parse_i64 s of
             None \<Rightarrow> Inl (InvalidPort s)
           | Some port \<Rightarrow>
               if \<not> (0 \<le> port \<and> port \<le> 65535) then Inl (InvalidPort s)
               else Inr \<lparr>pr_min = port, pr_max = port\<rparr>))"

definition port_range_contains :: "port_range \<Rightarrow> nat \<Rightarrow> bool" where
  "port_range_contains r port \<longleftrightarrow> int port \<ge> pr_min r \<and> int port \<le> pr_max r"

text \<open>\<^verbatim>\<open>fmt::Display\<close> of a range.\<close>

definition port_range_display :: "port_range \<Rightarrow> string" where
  "port_range_display r =
     (if pr_min r = pr_max r then show_int (pr_min r)
      else show_int (pr_min r) @ ''-'' @ show_int (pr_max r))"

text \<open>\<^verbatim>\<open>collect\<close> of an iterator of results: the first error, or all values.\<close>

fun collect_results :: "('e + 'a) list \<Rightarrow> 'e + 'a list" where
  "collect_results [] = Inr []"
| "collect_results (Inl e # rs) = Inl e"
| "collect_results (Inr x # rs) =
     (case collect_results rs of Inl e \<Rightarrow> Inl e | Inr xs \<Rightarrow> Inr (x # xs))"

type_synonym port_set = "port_range list"
type_synonym string_set = "string list"

definition port_set_parse :: "string \<Rightarrow> permission_error + port_set" where
  "port_set_parse s =
     (if s = [] then Inl EmptyPort
      else collect_results (map (\<lambda>r. port_range_parse (trim r)) (split_char CHR '','' s)))"

definition port_set_contains :: "port_set \<Rightarrow> nat \<Rightarrow> bool" where
  "port_set_contains ps port = list_ex (\<lambda>r. port_range_contains r port) ps"

definition string_set_parse :: "string \<Rightarrow> permission_error + string_set" where
  "string_set_parse s = (if s = [] then Inl EmptyString else Inr (split_char CHR '','' s))"

definition string_set_contains :: "string_set \<Rightarrow> string \<Rightarrow> bool" where
  "string_set_contains ss subj = list_ex (\<lambda>s. go_glob s subj) ss"

record permission =
  actions :: string_set
  hosts :: string_set
  ports :: port_set

type_synonym permissions = "permission list"

text \<open>One space-separated field of a rule list.\<close>

definition permission_parse :: "string \<Rightarrow> permission_error + permission" where
  "permission_parse perm_str =
     (case split_char CHR '':'' perm_str of
        [a, h, p] \<Rightarrow>
          (case string_set_parse a of
             Inl e \<Rightarrow> Inl e
           | Inr as \<Rightarrow>
               (case string_set_parse h of
                  Inl e \<Rightarrow> Inl e
                | Inr hs \<Rightarrow>
                    (case port_set_parse p of
                       Inl e \<Rightarrow> Inl e
                     | Inr ps \<Rightarrow> Inr \<lparr>actions = as, hosts = hs, ports = ps\<rparr>)))
      | _ \<Rightarrow> Inl (InvalidFormat perm_str))"

definition permissions_parse :: "string \<Rightarrow> permission_error + permissions" where
  "permissions_parse s =
     (if s = [] then Inr []
      else collect_results (map permission_parse (split_char CHR '' '' s)))"

definition permissions_can :: "permissions \<Rightarrow> string \<Rightarrow> string \<Rightarrow> nat \<Rightarrow> bool" where
  "permissions_can ps action host port =
     list_ex (\<lambda>p. string_set_contains (actions p) action \<and> string_set_contains (hosts p) host
                  \<and> port_set_contains (ports p) port) ps"

definition Can :: "string \<Rightarrow> string \<Rightarrow> permissions option \<Rightarrow> permissions option \<Rightarrow> bool" where
  "Can action addr whitelist blacklist =
     (let addr = (if CHR '':'' \<notin> set addr then addr @ '':80'' else addr)
      in case split_host_port addr of
           Inl _ \<Rightarrow> False
         | Inr (host, port_str) \<Rightarrow>
             (case parse_u16 port_str of
                None \<Rightarrow> False
              | Some port \<Rightarrow>
                  (let wl_ok = (case whitelist of None \<Rightarrow> True | Some w \<Rightarrow> permissions_can w action host port);
                       bl_ok = (case blacklist of None \<Rightarrow> True | Some b \<Rightarrow> \<not> permissions_can b action host port)
                   in wl_ok \<and> bl_ok)))"

section \<open>Lemmas on ranges and rule lists\<close>

lemma collect_results_Inr: "collect_results (map Inr xs) = Inr xs"
  by (induction xs) auto

lemma collect_results_error:
  "collect_results rs = Inl e \<Longrightarrow> Inl e \<in> set rs"
  by (induction rs rule: collect_results.induct) (auto split: sum.splits)

lemma collect_results_length: "collect_results rs = Inr xs \<Longrightarrow> rs = map Inr xs"
  by (induction rs arbitrary: xs rule: collect_results.induct) (auto split: sum.splits)

lemma show_int_no_dash: "0 \<le> i \<Longrightarrow> CHR ''-'' \<notin> set (show_int i)"
  by (simp add: show_int_def show_nat_not_mem)

lemma show_int_ne [simp]: "show_int i \<noteq> []" "show_int i \<noteq> ''*''"
  using show_nat_hd [of "CHR ''*''" "nat i"] by (auto simp: show_int_def)

lemma port_range_parse_span:
  assumes "0 \<le> a" "a \<le> 9223372036854775807" "- 9223372036854775808 \<le> b" "b \<le> 9223372036854775807"
  shows "port_range_parse (show_int a @ ''-'' @ show_int b) =
           Inr \<lparr>pr_min = max (min a b) 0, pr_max = min (max a b) 65535\<rparr>"
proof -
  have "show_int a @ ''-'' @ show_int b \<noteq> ''*''" by (simp add: append_eq_Cons_conv)
  moreover have "split_once CHR ''-'' (show_int a @ ''-'' @ show_int b) = Some (show_int a, show_int b)"
    using show_int_no_dash [OF assms(1)] by simp
  ultimately show ?thesis using assms by (simp add: port_range_parse_def parse_i64_show_int)
qed

lemma port_range_parse_bounds:
  assumes "port_range_parse s = Inr r"
  shows "0 \<le> pr_min r" "pr_min r \<le> 9223372036854775807" "0 \<le> pr_max r" "pr_max r \<le> 65535"
proof -
  have "0 \<le> pr_min r \<and> pr_min r \<le> 9223372036854775807 \<and> 0 \<le> pr_max r \<and> pr_max r \<le> 65535"
  proof (cases "split_once CHR ''-'' s")
    case None
    then show ?thesis using assms
      by (auto simp: port_range_parse_def split: option.splits if_splits)
  next
    case (Some uv)
    then obtain u v where uv: "split_once CHR ''-'' s = Some (u, v)" "CHR ''-'' \<notin> set u"
      by (cases uv) (auto dest: split_once_SomeD)
    moreover have "s \<noteq> ''*''" using split_once_SomeD [OF uv(1)] by (auto simp: append_eq_Cons_conv)
    moreover then obtain mn mx where "parse_i64 u = Some mn" "parse_i64 v = Some mx"
      "r = \<lparr>pr_min = max (min mn mx) 0, pr_max = min (max mn mx) 65535\<rparr>"
      using assms uv by (auto simp: port_range_parse_def split: option.splits)
    ultimately show ?thesis using parse_i64_nonneg [of u mn] parse_i64_bounds [of u mn] parse_i64_bounds [of v mx]
      by auto
  qed
  then show "0 \<le> pr_min r" "pr_min r \<le> 9223372036854775807" "0 \<le> pr_max r" "pr_max r \<le> 65535" by auto
qed

lemma port_range_display_parse:
  assumes "0 \<le> pr_min r" "pr_min r \<le> pr_max r" "pr_max r \<le> 65535"
  shows "port_range_parse (port_range_display r) = Inr r"
proof (cases "pr_min r = pr_max r")
  case True
  have "split_once CHR ''-'' (show_int (pr_max r)) = None"
    using assms True by (simp add: split_once_None show_int_no_dash)
  then show ?thesis using assms True
    by (cases r) (simp add: port_range_display_def port_range_parse_def parse_i64_show_int)
next
  case False
  then show ?thesis using assms port_range_parse_span [of "pr_min r" "pr_max r"]
    by (cases r) (simp add: port_range_display_def)
qed

text \<open>The meaning of one rule, with the reference glob semantics.\<close>

definition rule_matches :: "permission \<Rightarrow> string \<Rightarrow> string \<Rightarrow> nat \<Rightarrow> bool" where
  "rule_matches p action host port \<longleftrightarrow>
     (\<exists>a \<in> set (actions p). glob_ref a action) \<and> (\<exists>h \<in> set (hosts p). glob_ref h host) \<and>
     (\<exists>r \<in> set (ports p). pr_min r \<le> int port \<and> int port \<le> pr_max r)"

lemma permissions_can_iff:
  "permissions_can ps action host port \<longleftrightarrow> (\<exists>p \<in> set ps. rule_matches p action host port)"
  by (auto simp: permissions_can_def rule_matches_def string_set_contains_def port_set_contains_def
      port_range_contains_def go_glob_eq_ref list_ex_iff)

lemma split_host_port_iff: "split_host_port s = Inr (host, port) \<longleftrightarrow> host_port_form s host port"
  using split_host_port_sound split_host_port_complete by blast

text \<open>Rendering a rule list in the grammar \<^verbatim>\<open>action,..:host,..:port,..\<close>, rules separated by a space.\<close>

fun join_char :: "char \<Rightarrow> string list \<Rightarrow> string" where
  "join_char c [] = []"
| "join_char c [x] = x"
| "join_char c (x # xs) = x @ c # join_char c xs"

definition permission_render :: "permission \<Rightarrow> string" where
  "permission_render p =
     join_char CHR '':'' [join_char CHR '','' (actions p), join_char CHR '','' (hosts p),
                         join_char CHR '','' (map port_range_display (ports p))]"

definition word_ok :: "string \<Rightarrow> bool" where
  "word_ok w \<longleftrightarrow> w \<noteq> [] \<and> CHR '','' \<notin> set w \<and> CHR '':'' \<notin> set w \<and> CHR '' '' \<notin> set w"

definition range_ok :: "port_range \<Rightarrow> bool" where
  "range_ok r \<longleftrightarrow> 0 \<le> pr_min r \<and> pr_min r \<le> pr_max r \<and> pr_max r \<le> 65535"

definition permission_ok :: "permission \<Rightarrow> bool" where
  "permission_ok p \<longleftrightarrow> actions p \<noteq> [] \<and> hosts p \<noteq> [] \<and> ports p \<noteq> [] \<and>
     list_all word_ok (actions p) \<and> list_all word_ok (hosts p) \<and> list_all range_ok (ports p)"

lemma split_join:
  "xs \<noteq> [] \<Longrightarrow> \<forall>x \<in> set xs. c \<notin> set x \<Longrightarrow> split_char c (join_char c xs) = xs"
  by (induction c xs rule: join_char.induct) (auto simp: split_pred_append)

lemma join_char_mem: "d \<in> set (join_char c xs) \<Longrightarrow> d = c \<or> (\<exists>x \<in> set xs. d \<in> set x)"
  by (induction c xs rule: join_char.induct) auto

lemma join_char_ne: "xs \<noteq> [] \<Longrightarrow> \<forall>x \<in> set xs. x \<noteq> [] \<Longrightarrow> join_char c xs \<noteq> []"
  by (induction c xs rule: join_char.induct) auto

lemma show_int_chars: "0 \<le> i \<Longrightarrow> c \<in> set (show_int i) \<Longrightarrow> 48 \<le> (of_char c :: nat) \<and> (of_char c :: nat) \<le> 57"
  by (auto simp: show_int_def dest: show_nat_chars)

lemma range_display_chars:
  "range_ok r \<Longrightarrow> c \<in> set (port_range_display r) \<Longrightarrow> c = CHR ''-'' \<or> 48 \<le> (of_char c :: nat) \<and> (of_char c :: nat) \<le> 57"
  using show_int_chars [of "pr_min r" c] show_int_chars [of "pr_max r" c]
  by (auto simp: range_ok_def port_range_display_def split: if_splits)

lemma range_display_clean:
  assumes "range_ok r"
  shows "port_range_display r \<noteq> []" "list_all graphic (port_range_display r)"
    and "CHR '','' \<notin> set (port_range_display r)" "CHR '':'' \<notin> set (port_range_display r)"
    and "CHR '' '' \<notin> set (port_range_display r)"
proof -
  show "port_range_display r \<noteq> []" by (simp add: port_range_display_def)
  show "list_all graphic (port_range_display r)"
    by (auto simp: list_all_iff graphic_def dest!: range_display_chars [OF assms])
  show "CHR '','' \<notin> set (port_range_display r)" "CHR '':'' \<notin> set (port_range_display r)"
    "CHR '' '' \<notin> set (port_range_display r)"
    by (auto dest: range_display_chars [OF assms])
qed

lemma port_set_render_parse:
  assumes "rs \<noteq> []" "list_all range_ok rs"
  shows "port_set_parse (join_char CHR '','' (map port_range_display rs)) = Inr rs"
proof -
  have ok: "range_ok r" if "r \<in> set rs" for r using assms that by (simp add: list_all_iff)
  have "split_char CHR '','' (join_char CHR '','' (map port_range_display rs)) = map port_range_display rs"
    using assms(1) by (intro split_join) (auto dest!: ok range_display_clean(3))
  moreover have "join_char CHR '','' (map port_range_display rs) \<noteq> []"
    using assms(1) by (intro join_char_ne) (auto dest!: ok range_display_clean(1))
  moreover have "port_range_parse (trim (port_range_display r)) = Inr r" if "r \<in> set rs" for r
    using ok [OF that] range_display_clean [of r] port_range_display_parse [of r]
    by (simp add: range_ok_def)
  ultimately show ?thesis by (simp add: port_set_parse_def comp_def cong: map_cong) (rule collect_results_Inr)
qed

lemma string_set_render_parse:
  "xs \<noteq> [] \<Longrightarrow> list_all word_ok xs \<Longrightarrow> string_set_parse (join_char CHR '','' xs) = Inr xs"
  unfolding string_set_parse_def
  by (subst split_join) (auto simp: list_all_iff word_ok_def dest: join_char_ne)

lemma permission_render_parse:
  assumes "permission_ok p"
  shows "permission_parse (permission_render p) = Inr p"
    and "CHR '' '' \<notin> set (permission_render p)" and "permission_render p \<noteq> []"
proof -
  let ?a = "join_char CHR '','' (actions p)" and ?h = "join_char CHR '','' (hosts p)"
  let ?r = "join_char CHR '','' (map port_range_display (ports p))"
  have ok: "r \<in> set (ports p) \<Longrightarrow> range_ok r" for r using assms by (simp add: permission_ok_def list_all_iff)
  have c: "CHR '':'' \<notin> set ?a" "CHR '':'' \<notin> set ?h" "CHR '':'' \<notin> set ?r"
    and s: "CHR '' '' \<notin> set ?a" "CHR '' '' \<notin> set ?h" "CHR '' '' \<notin> set ?r"
    using assms ok range_display_clean(4,5)
    by (auto simp: permission_ok_def list_all_iff word_ok_def dest!: join_char_mem)
  have "split_char CHR '':'' (permission_render p) = [?a, ?h, ?r]"
    unfolding permission_render_def using c by (intro split_join) auto
  then show "permission_parse (permission_render p) = Inr p"
    using assms by (simp add: permission_parse_def permission_ok_def string_set_render_parse
        port_set_render_parse)
  show "CHR '' '' \<notin> set (permission_render p)" "permission_render p \<noteq> []"
    using s by (auto simp: permission_render_def)
qed

section \<open>Properties\<close>

text \<open>C11. The greedy glob matcher used for every whitelist and blacklist rule accepts exactly
  the subjects the reference semantics accepts: a star stands for any text, every other
  character, the brackets, braces and question mark included, for itself.\<close>

theorem go_glob_correct: "go_glob pattern subj \<longleftrightarrow> glob_ref pattern subj"
  by (rule go_glob_eq_ref)

text \<open>\<^verbatim>\<open>split_host_port\<close> succeeds exactly on the two address shapes, with exactly their
  host and port; everything else is an error.\<close>

theorem split_host_port_correct:
  "split_host_port s = Inr (host, port) \<longleftrightarrow> host_port_form s host port"
  by (rule split_host_port_iff)

text \<open>C4. The decision for an action on an address: the address (port 80 when it has no colon)
  has to be well formed with a port that fits 16 bits, some whitelist rule has to match
  when there is a whitelist, and no blacklist rule may match. Anything else is refused.\<close>

theorem Can_correct:
  "Can action addr whitelist blacklist \<longleftrightarrow>
     (\<exists>host port_str port.
        host_port_form (if CHR '':'' \<in> set addr then addr else addr @ '':80'') host port_str \<and>
        parse_u16 port_str = Some port \<and>
        (whitelist = None \<or> (\<exists>p \<in> set (the whitelist). rule_matches p action host port)) \<and>
        (blacklist = None \<or> (\<nexists>p. p \<in> set (the blacklist) \<and> rule_matches p action host port)))"
proof -
  let ?addr = "if CHR '':'' \<in> set addr then addr else addr @ '':80''"
  have "Can action addr whitelist blacklist \<longleftrightarrow>
     (\<exists>host port_str port. split_host_port ?addr = Inr (host, port_str) \<and>
        parse_u16 port_str = Some port \<and>
        (whitelist = None \<or> permissions_can (the whitelist) action host port) \<and>
        (blacklist = None \<or> \<not> permissions_can (the blacklist) action host port))"
    by (cases "split_host_port ?addr"; cases whitelist; cases blacklist)
      (auto simp: Can_def Let_def split: option.splits)
  then show ?thesis by (simp only: split_host_port_iff permissions_can_iff Bex_def)
qed

theorem Can_correct_witness:
  "Can ''tcp'' ''[::1]:443'' None
     (Some [\<lparr>actions = [''*''], hosts = [''::1''], ports = [\<lparr>pr_min = 22, pr_max = 80\<rparr>]\<rparr>])"
  unfolding Can_correct
  by (intro exI [of _ "''::1''"] exI [of _ "''443''"] exI [of _ 443])
    (simp add: host_port_form_def parse_uint_def digit_val_def rule_matches_def)

text \<open>A port range given by two bounds in either order contains exactly the 16-bit ports
  between them: the clamping of the bounds to the port space loses and adds nothing.\<close>

theorem port_range_span_exact:
  assumes "0 \<le> a" "a < 2 ^ 63" "- (2 ^ 63) \<le> b" "b < 2 ^ 63" "port < 2 ^ 16"
  shows "\<exists>r. port_range_parse (show_int a @ ''-'' @ show_int b) = Inr r \<and>
           (port_range_contains r port \<longleftrightarrow> min a b \<le> int port \<and> int port \<le> max a b)"
proof -
  have "port_range_parse (show_int a @ ''-'' @ show_int b) =
      Inr \<lparr>pr_min = max (min a b) 0, pr_max = min (max a b) 65535\<rparr>"
    using assms by (intro port_range_parse_span) auto
  then show ?thesis using assms(5) by (auto simp: port_range_contains_def)
qed

theorem port_range_span_exact_witness:
  "\<exists>r. port_range_parse ''70000-80000'' = Inr r \<and> \<not> port_range_contains r 65535"
proof -
  have s: "show_int 70000 @ ''-'' @ show_int 80000 = ''70000-80000''"
    by (simp add: show_int_def show_nat.simps digit_char_def)
  show ?thesis using port_range_span_exact [of 70000 80000 65535, unfolded s] by simp
qed

text \<open>Every rule list renders to a text that parses back to exactly that list, so the parser
  accepts the whole grammar and separates rules, fields, words and ranges where it should.\<close>

theorem permissions_parse_render:
  assumes "list_all permission_ok ps" "ps \<noteq> []"
  shows "permissions_parse (join_char CHR '' '' (map permission_render ps)) = Inr ps"
proof -
  have ok: "permission_ok p" if "p \<in> set ps" for p using assms that by (simp add: list_all_iff)
  have "split_char CHR '' '' (join_char CHR '' '' (map permission_render ps)) = map permission_render ps"
    using assms(2) by (intro split_join) (auto dest!: ok permission_render_parse(2))
  moreover have "join_char CHR '' '' (map permission_render ps) \<noteq> []"
    using assms(2) by (intro join_char_ne) (auto dest!: ok permission_render_parse(3))
  moreover have "map permission_parse (map permission_render ps) = map Inr ps"
    by (auto dest: ok permission_render_parse(1))
  ultimately show ?thesis unfolding permissions_parse_def by (metis collect_results_Inr)
qed

theorem permissions_parse_render_witness:
  "permissions_parse (join_char CHR '' '' (map permission_render
     [\<lparr>actions = [''tcp'', ''rudp''], hosts = [''*.example.org''], ports = [\<lparr>pr_min = 22, pr_max = 22\<rparr>]\<rparr>]))
   = Inr [\<lparr>actions = [''tcp'', ''rudp''], hosts = [''*.example.org''], ports = [\<lparr>pr_min = 22, pr_max = 22\<rparr>]\<rparr>]"
  by (rule permissions_parse_render) (simp_all add: permission_ok_def word_ok_def range_ok_def)

text \<open>Displaying a parsed range and parsing the text again gives the range back exactly when
  the range is not one of the empty ranges the clamping produces; those come back as a
  different range.\<close>

theorem port_range_display_roundtrip:
  assumes "port_range_parse s = Inr r"
  shows "port_range_parse (port_range_display r) = Inr r \<longleftrightarrow> pr_min r \<le> pr_max r"
proof (cases "pr_min r = pr_max r")
  case True
  then show ?thesis using port_range_parse_bounds [OF assms] port_range_display_parse [of r] by simp
next
  case False
  then have "port_range_parse (port_range_display r) =
      Inr \<lparr>pr_min = max (min (pr_min r) (pr_max r)) 0, pr_max = min (max (pr_min r) (pr_max r)) 65535\<rparr>"
    unfolding port_range_display_def
    using port_range_parse_bounds [OF assms] port_range_parse_span [of "pr_min r" "pr_max r"] by simp
  then show ?thesis using False port_range_parse_bounds [OF assms] by (cases r) auto
qed

theorem port_range_display_roundtrip_witness:
  "port_range_parse ''*'' = Inr \<lparr>pr_min = 0, pr_max = 65535\<rparr> \<and>
   port_range_parse (port_range_display \<lparr>pr_min = 0, pr_max = 65535\<rparr>) = Inr \<lparr>pr_min = 0, pr_max = 65535\<rparr>"
proof -
  have p: "port_range_parse ''*'' = Inr \<lparr>pr_min = 0, pr_max = 65535\<rparr>"
    by (simp add: port_range_parse_def)
  show ?thesis using port_range_display_roundtrip [OF p] p by simp
qed

end
