(* ===== verification/Bypass.thy ===== *)
theory Bypass
  imports ConfigLine Permissions IpAddr
begin

text \<open>
  Address bypass rules (\<^verbatim>\<open>src/src/bypass.rs\<close>): matchers for addresses, networks and domains, the
  decision \<^verbatim>\<open>Bypass::contains\<close>, the rule file and its live reload. Two things come from third
  party crates and are parameters, collected in the record \<open>bypass_libs\<close>: network prefixes
  (\<^verbatim>\<open>ipnet\<close>: parsing and membership) and shell patterns (\<^verbatim>\<open>glob_match\<close>).
\<close>

record 'n bypass_libs =
  parse_net :: "string \<Rightarrow> 'n option"
  net_contains :: "'n \<Rightarrow> ip_addr \<Rightarrow> bool"
  glob_match :: "string \<Rightarrow> string \<Rightarrow> bool"

definition parse_bool :: "string \<Rightarrow> bool option" where
  "parse_bool s =
     (if s \<in> set [''1'', ''t'', ''T'', ''TRUE'', ''true'', ''True''] then Some True
      else if s \<in> set [''0'', ''f'', ''F'', ''FALSE'', ''false'', ''False''] then Some False
      else None)"

definition strip_port :: "string \<Rightarrow> string" where
  "strip_port addr =
     (case split_host_port addr of
        Inl _ \<Rightarrow> addr
      | Inr (host, port) \<Rightarrow>
          if host \<noteq> [] \<and> port \<noteq> []
          then (case parse_i64 port of Some p \<Rightarrow> if p > 0 then host else addr | None \<Rightarrow> addr)
          else addr)"

section \<open>Matchers\<close>

datatype 'n matcher = IpMatcher ip_addr | CidrMatcher 'n | DomainMatcher string string

definition domain_matcher_new :: "string \<Rightarrow> 'n matcher" where
  "domain_matcher_new pattern =
     (case strip_prefix_char CHR ''.'' pattern of
        Some stripped \<Rightarrow> DomainMatcher (''*.'' @ stripped) stripped
      | None \<Rightarrow> DomainMatcher pattern pattern)"

definition new_matcher :: "'n bypass_libs \<Rightarrow> string \<Rightarrow> 'n matcher option" where
  "new_matcher L pattern =
     (if pattern = [] then None
      else case parse_ip pattern of
        Some ip \<Rightarrow> Some (IpMatcher ip)
      | None \<Rightarrow>
          (case parse_net L pattern of
             Some net \<Rightarrow> Some (CidrMatcher net)
           | None \<Rightarrow> Some (domain_matcher_new pattern)))"

fun match_value :: "'n bypass_libs \<Rightarrow> 'n matcher \<Rightarrow> string \<Rightarrow> bool" where
  "match_value L (IpMatcher ip) v = (parse_ip v = Some ip)"
| "match_value L (CidrMatcher net) v = (case parse_ip v of Some ip \<Rightarrow> net_contains L net ip | None \<Rightarrow> False)"
| "match_value L (DomainMatcher pattern plain) v = (v = plain \<or> glob_match L pattern v)"

section \<open>The bypass\<close>

record 'n bypass =
  by_matchers :: "'n matcher list"
  by_reversed :: bool
  by_period :: nat
  by_stopped :: bool

definition bypass_new :: "bool \<Rightarrow> 'n matcher list \<Rightarrow> 'n bypass" where
  "bypass_new reversed matchers =
     \<lparr>by_matchers = matchers, by_reversed = reversed, by_period = 0, by_stopped = False\<rparr>"

definition from_patterns :: "'n bypass_libs \<Rightarrow> bool \<Rightarrow> string list \<Rightarrow> 'n bypass" where
  "from_patterns L reversed patterns = bypass_new reversed (List.map_filter (new_matcher L) patterns)"

definition bypass_contains :: "'n bypass_libs \<Rightarrow> 'n bypass \<Rightarrow> string \<Rightarrow> bool" where
  "bypass_contains L b addr =
     (if addr = [] then False
      else let host = strip_port addr
           in if by_matchers b = [] then False
              else let matched = list_ex (\<lambda>m. match_value L m host) (by_matchers b);
                       reversed = by_reversed b
                   in (\<not> reversed \<and> matched) \<or> (reversed \<and> \<not> matched))"

definition add_matchers :: "'n matcher list \<Rightarrow> 'n bypass \<Rightarrow> 'n bypass" where
  "add_matchers ms b = b\<lparr>by_matchers := by_matchers b @ ms\<rparr>"

definition bypass_line ::
    "'n bypass_libs \<Rightarrow> 'n matcher list \<times> bool \<times> nat \<Rightarrow> string \<Rightarrow> 'n matcher list \<times> bool \<times> nat" where
  "bypass_line L acc line =
     (case acc of (matchers, reversed, period) \<Rightarrow>
        case split_line_ref line of
          [] \<Rightarrow> acc
        | k # args \<Rightarrow>
            if k = ''reload''
            then (case args of [] \<Rightarrow> acc
                  | d # _ \<Rightarrow> (matchers, reversed, case parse_go_duration d of Some p \<Rightarrow> p | None \<Rightarrow> 0))
            else if k = ''reverse''
            then (case args of [] \<Rightarrow> acc
                  | v # _ \<Rightarrow> (matchers, case parse_bool v of Some r \<Rightarrow> r | None \<Rightarrow> False, period))
            else (case new_matcher L k of
                    Some m \<Rightarrow> (matchers @ [m], reversed, period)
                  | None \<Rightarrow> acc))"

text \<open>
  The three writes at the end of a reload take one lock each, in this order; another thread
  can run between them.
\<close>

definition write_matchers :: "'n matcher list \<Rightarrow> 'n bypass \<Rightarrow> 'n bypass" where
  "write_matchers ms b = b\<lparr>by_matchers := ms\<rparr>"

definition write_reversed :: "bool \<Rightarrow> 'n bypass \<Rightarrow> 'n bypass" where
  "write_reversed r b = b\<lparr>by_reversed := r\<rparr>"

definition write_period :: "nat \<Rightarrow> 'n bypass \<Rightarrow> 'n bypass" where
  "write_period p b = b\<lparr>by_period := p\<rparr>"

definition bypass_reload :: "'n bypass_libs \<Rightarrow> reader \<Rightarrow> 'n bypass \<Rightarrow> (io_error + unit) \<times> 'n bypass" where
  "bypass_reload L r b =
     (if by_stopped b then (Inr (), b)
      else case fold_lines (bypass_line L) ([], False, 0) (buf_lines r) of
        Inl e \<Rightarrow> (Inl e, b)
      | Inr (matchers, reversed, period) \<Rightarrow>
          (Inr (), write_period period (write_reversed reversed (write_matchers matchers b))))"

definition bypass_period :: "'n bypass \<Rightarrow> nat" where
  "bypass_period b = (if by_stopped b then 0 else by_period b)"

definition bypass_stop :: "'n bypass \<Rightarrow> 'n bypass" where
  "bypass_stop b = b\<lparr>by_stopped := True\<rparr>"

interpretation bypass_reloads: reloadable "bypass_reload L" bypass_period bypass_stop by_stopped
  by unfold_locales
    (auto simp: bypass_stop_def bypass_period_def bypass_reload_def write_matchers_def write_reversed_def
      write_period_def split: if_splits sum.splits prod.splits)

section \<open>Ports\<close>

text \<open>An address with a port, the host in brackets when it contains a colon.\<close>

definition join_host_port :: "string \<Rightarrow> string \<Rightarrow> string" where
  "join_host_port host port =
     (if CHR '':'' \<in> set host then ''['' @ host @ '']:'' @ port else host @ '':'' @ port)"

lemma strip_port_join:
  assumes "host \<noteq> []" "CHR ''['' \<notin> set host" "CHR '']'' \<notin> set host" "0 < p" "p < 2 ^ 63"
  shows "strip_port (join_host_port host (show_nat p)) = host"
proof -
  have np: "CHR '':'' \<notin> set (show_nat p)" "CHR ''['' \<notin> set (show_nat p)" "CHR '']'' \<notin> set (show_nat p)"
    by (rule show_nat_not_mem; simp)+
  have "split_host_port (join_host_port host (show_nat p)) = Inr (host, show_nat p)"
    unfolding split_host_port_iff using assms np by (auto simp: host_port_form_def join_host_port_def)
  moreover have "parse_i64 (show_nat p) = Some (int p)"
    using parse_i64_show_int [of "int p"] assms by (simp add: show_int_def)
  ultimately show ?thesis using assms by (simp add: strip_port_def)
qed

text \<open>A host that is not itself of the shape host:port is its own address.\<close>

lemma strip_port_id:
  assumes "\<And>u v. host = u @ CHR '':'' # v \<Longrightarrow> CHR '':'' \<in> set (u @ v)" "CHR ''['' \<notin> set host"
  shows "strip_port host = host"
proof -
  have "split_host_port host \<noteq> Inr (h, p)" for h p
    unfolding split_host_port_iff using assms by (fastforce simp: host_port_form_def)
  then show ?thesis by (auto simp: strip_port_def split: sum.splits)
qed

section \<open>The rule file\<close>

datatype bypass_rule = Pattern string | Reverse bool | BypassReload "(nat \<times> go_unit) list" | Nothing

fun bypass_rule_ok :: "bypass_rule \<Rightarrow> bool" where
  "bypass_rule_ok (Pattern p) = (plain_token p \<and> p \<noteq> ''reload'' \<and> p \<noteq> ''reverse'')"
| "bypass_rule_ok (BypassReload cs) = (cs \<noteq> [] \<and> duration_nanos cs < 2 ^ 53)"
| "bypass_rule_ok _ = True"

fun show_bypass_rule :: "bypass_rule \<Rightarrow> string list" where
  "show_bypass_rule (Pattern p) = [p]"
| "show_bypass_rule (Reverse b) = [''reverse'', if b then ''true'' else ''false'']"
| "show_bypass_rule (BypassReload cs) = [''reload'', show_duration cs]"
| "show_bypass_rule Nothing = []"

lemma rule_tokens: "bypass_rule_ok r \<Longrightarrow> list_all plain_token (show_bypass_rule r)"
proof (cases r)
  case (BypassReload cs)
  moreover assume "bypass_rule_ok r"
  ultimately show ?thesis using plain_token_duration [of cs] by (simp add: plain_token_def graphic_def)
qed (auto simp: plain_token_def graphic_def)

definition rule_patterns :: "bypass_rule list \<Rightarrow> string list" where
  "rule_patterns rs = List.map_filter (\<lambda>r. case r of Pattern p \<Rightarrow> Some p | _ \<Rightarrow> None) rs"

definition rule_reversed :: "bypass_rule list \<Rightarrow> bool" where
  "rule_reversed rs = fold (\<lambda>r b. case r of Reverse x \<Rightarrow> x | _ \<Rightarrow> b) rs False"

lemma map_filter_app: "List.map_filter f (xs @ ys) = List.map_filter f xs @ List.map_filter f ys"
  by (simp add: map_filter_def)

lemma rule_patterns_app: "rule_patterns (xs @ ys) = rule_patterns xs @ rule_patterns ys"
  by (simp add: rule_patterns_def map_filter_app)

lemma bypass_line_rule:
  assumes "split_line_ref line = show_bypass_rule r" "bypass_rule_ok r"
  shows "\<exists>p'. bypass_line L (ms, rv, p) line =
    (ms @ List.map_filter (new_matcher L) (rule_patterns [r]), case r of Reverse x \<Rightarrow> x | _ \<Rightarrow> rv, p')"
  using assms
  by (cases r) (auto simp: bypass_line_def rule_patterns_def map_filter_def parse_bool_def split: option.splits)

lemma bypass_lines_fold:
  assumes "list_all (\<lambda>(sep, comment, r). (sep = CHR '' '' \<or> sep = CHR 0x09) \<and> bypass_rule_ok r) ls"
  shows "\<exists>p. foldl (bypass_line L) ([], False, 0) (map (\<lambda>(sep, comment, r). config_text sep comment (show_bypass_rule r)) ls) =
     (List.map_filter (new_matcher L) (rule_patterns (map (\<lambda>x. snd (snd x)) ls)), rule_reversed (map (\<lambda>x. snd (snd x)) ls), p)"
  using assms
proof (induction ls rule: rev_induct)
  case Nil
  then show ?case by (simp add: rule_patterns_def rule_reversed_def map_filter_def)
next
  case (snoc l ls)
  obtain sep comment r where l: "l = (sep, comment, r)" by (metis prod_cases3)
  have r: "bypass_rule_ok r" "sep = CHR '' '' \<or> sep = CHR 0x09" using snoc.prems by (auto simp: l)
  have w: "split_line_ref (config_text sep comment (show_bypass_rule r)) = show_bypass_rule r"
    by (rule split_line_words [OF rule_tokens [OF r(1)] r(2)])
  obtain p where p: "foldl (bypass_line L) ([], False, 0) (map (\<lambda>(sep, comment, r). config_text sep comment (show_bypass_rule r)) ls) =
     (List.map_filter (new_matcher L) (rule_patterns (map (\<lambda>x. snd (snd x)) ls)), rule_reversed (map (\<lambda>x. snd (snd x)) ls), p)"
    using snoc.IH [THEN exE] snoc.prems by (metis (no_types, lifting) list_all_append)
  have rv: "rule_reversed (map (\<lambda>x. snd (snd x)) (ls @ [l])) = (case r of Reverse x \<Rightarrow> x | _ \<Rightarrow> rule_reversed (map (\<lambda>x. snd (snd x)) ls))"
    by (cases r) (simp_all add: rule_reversed_def l)
  have "map (\<lambda>x. snd (snd x)) (ls @ [l]) = map (\<lambda>x. snd (snd x)) ls @ [r]" by (simp add: l)
  then show ?case using bypass_line_rule [OF w r(1), of L _ _ p] p
    unfolding rv by (simp add: l rule_patterns_app map_filter_app)
qed

lemma matchers_match:
  "list_ex (\<lambda>m. match_value L m h) (List.map_filter (new_matcher L) ps) \<longleftrightarrow>
     (\<exists>p m. p \<in> set ps \<and> new_matcher L p = Some m \<and> match_value L m h)"
  by (auto simp: list_ex_iff map_filter_def)

lemma patterns_matchers:
  "(\<And>p. p \<in> set ps \<Longrightarrow> p \<noteq> []) \<Longrightarrow> List.map_filter (new_matcher L) ps = [] \<longleftrightarrow> ps = []"
  by (cases ps) (auto simp: map_filter_def new_matcher_def split: option.splits)

lemma mem_rule_patterns: "p \<in> set (rule_patterns rs) \<longleftrightarrow> Pattern p \<in> set rs"
proof (induction rs)
  case (Cons r rs)
  then show ?case by (cases r) (auto simp: rule_patterns_def map_filter_simps)
qed (simp add: rule_patterns_def map_filter_simps)

lemma rule_patterns_ne: "list_all bypass_rule_ok rs \<Longrightarrow> p \<in> set (rule_patterns rs) \<Longrightarrow> p \<noteq> []"
  unfolding mem_rule_patterns by (auto simp: list_all_iff plain_token_def)

definition rule_lines :: "(char \<times> string option \<times> bypass_rule) list \<Rightarrow> bool" where
  "rule_lines ls = list_all (\<lambda>(sep, comment, r). (sep = CHR '' '' \<or> sep = CHR 0x09) \<and> comment_ok comment \<and> bypass_rule_ok r) ls"

definition rule_file :: "(char \<times> string option \<times> bypass_rule) list \<Rightarrow> reader" where
  "rule_file ls = file_reader (map (\<lambda>(sep, comment, r). config_text sep comment (show_bypass_rule r)) ls)"

lemma bypass_reload_rules:
  assumes "rule_lines ls" "\<not> by_stopped b"
  shows "\<exists>p. bypass_reload L (rule_file ls) b =
    (Inr (), b\<lparr>by_matchers := List.map_filter (new_matcher L) (rule_patterns (map (\<lambda>x. snd (snd x)) ls)),
               by_reversed := rule_reversed (map (\<lambda>x. snd (snd x)) ls), by_period := p\<rparr>)"
proof -
  have "plain_line (config_text sep comment (show_bypass_rule r))" if "(sep, comment, r) \<in> set ls" for sep comment r
  proof -
    have "(sep = CHR '' '' \<or> sep = CHR 0x09) \<and> comment_ok comment \<and> bypass_rule_ok r"
      using assms(1) that by (auto simp: rule_lines_def list_all_iff)
    then show ?thesis using rule_tokens [of r] by (intro plain_config_text) (auto simp: comment_ok_def)
  qed
  then have l: "buf_lines (rule_file ls) = map Inr (map (\<lambda>(sep, comment, r). config_text sep comment (show_bypass_rule r)) ls)"
    unfolding rule_file_def by (intro buf_lines_file) (auto simp: list_all_iff)
  have "list_all (\<lambda>(sep, comment, r). (sep = CHR '' '' \<or> sep = CHR 0x09) \<and> bypass_rule_ok r) ls"
    using assms(1) by (auto simp: rule_lines_def list_all_iff)
  from bypass_lines_fold [OF this, of L] show ?thesis
    using assms(2) unfolding bypass_reload_def l fold_lines_Inr
    by (auto simp: write_matchers_def write_reversed_def write_period_def)
qed

section \<open>Properties\<close>

text \<open>C30. A bypass loaded from a rule file decides as the file says: an address with a port is looked
  up by its host (brackets of an IPv6 host removed), it is bypassed when one of the patterns
  matches, or when none does under a reverse directive, and never when the file has no pattern.
  Comments after a blank, tabs and directives are handled as documented.\<close>

theorem bypass_file_semantics:
  assumes "rule_lines ls" "\<not> by_stopped b"
    and "host \<noteq> []" "CHR ''['' \<notin> set host" "CHR '']'' \<notin> set host" "0 < port" "port < 2 ^ 63"
  shows "\<exists>c. bypass_reload L (rule_file ls) b = (Inr (), c) \<and>
    bypass_contains L c (join_host_port host (show_nat port)) =
      (let ps = rule_patterns (map (\<lambda>x. snd (snd x)) ls)
       in ps \<noteq> [] \<and>
          (\<exists>p m. p \<in> set ps \<and> new_matcher L p = Some m \<and> match_value L m host) \<noteq> rule_reversed (map (\<lambda>x. snd (snd x)) ls))"
proof -
  let ?ps = "rule_patterns (map (\<lambda>x. snd (snd x)) ls)"
  have "list_all bypass_rule_ok (map (\<lambda>x. snd (snd x)) ls)" using assms(1) by (auto simp: rule_lines_def list_all_iff)
  then have ne: "List.map_filter (new_matcher L) ?ps = [] \<longleftrightarrow> ?ps = []"
    by (intro patterns_matchers) (rule rule_patterns_ne)
  have j: "join_host_port host (show_nat port) \<noteq> []" by (simp add: join_host_port_def)
  obtain p where p: "bypass_reload L (rule_file ls) b =
    (Inr (), b\<lparr>by_matchers := List.map_filter (new_matcher L) ?ps,
               by_reversed := rule_reversed (map (\<lambda>x. snd (snd x)) ls), by_period := p\<rparr>)"
    using bypass_reload_rules [OF assms(1,2)] by blast
  show ?thesis unfolding p using ne j
    by (auto simp: bypass_contains_def strip_port_join [OF assms(3-7)] matchers_match Let_def)
qed

definition demo_libs :: "string bypass_libs" where
  "demo_libs = \<lparr>parse_net = (\<lambda>s. None), net_contains = (\<lambda>n ip. False), glob_match = go_glob\<rparr>"

theorem bypass_file_semantics_witness:
  "\<exists>c. bypass_reload demo_libs (rule_file [(CHR '' '', Some ''loopback'', Pattern ''10.0.0.1''), (CHR 0x09, None, Reverse True)])
       (bypass_new False []) = (Inr (), c) \<and>
     \<not> bypass_contains demo_libs c (join_host_port ''10.0.0.1'' (show_nat 80))"
proof -
  let ?ls = "[(CHR '' '', Some ''loopback'', Pattern ''10.0.0.1''), (CHR 0x09, None, Reverse True)]"
  have a: "rule_lines ?ls" by (simp add: rule_lines_def comment_ok_def plain_token_def graphic_def)
  have ip: "parse_ip ''10.0.0.1'' = Some (V4 10 0 0 1)" by code_simp
  then have m: "new_matcher demo_libs ''10.0.0.1'' = Some (IpMatcher (V4 10 0 0 1))" by (simp add: new_matcher_def)
  have ps: "rule_patterns (map (\<lambda>x. snd (snd x)) ?ls) = [''10.0.0.1'']" "rule_reversed (map (\<lambda>x. snd (snd x)) ?ls)"
    by (simp_all add: rule_patterns_def rule_reversed_def map_filter_def)
  have "\<not> by_stopped (bypass_new False [])" by (simp add: bypass_new_def)
  from bypass_file_semantics [OF a this, of "''10.0.0.1''" 80 demo_libs] show ?thesis
    unfolding ps(1) using m ip ps(2) by (simp add: Let_def)
qed

text \<open>A rule with a leading dot covers a domain and all its subdomains and nothing else, given what
  the pattern crate documents about a leading star: it stands for any text without a slash.\<close>

theorem bypass_subdomains:
  assumes glob_star: "\<And>d. glob_match L (''*.'' @ domain) d \<longleftrightarrow>
      (\<exists>u. d = u @ ''.'' @ domain \<and> CHR ''/'' \<notin> set u)"
    and "parse_ip (CHR ''.'' # domain) = None" "parse_net L (CHR ''.'' # domain) = None"
    and "host \<noteq> []" "CHR ''['' \<notin> set host" "CHR '']'' \<notin> set host" "CHR ''/'' \<notin> set host" "0 < port" "port < 2 ^ 63"
  shows "bypass_contains L (from_patterns L False [CHR ''.'' # domain]) (join_host_port host (show_nat port)) \<longleftrightarrow>
    host = domain \<or> suffix (CHR ''.'' # domain) host"
proof -
  have m: "new_matcher L (CHR ''.'' # domain) = Some (DomainMatcher (''*.'' @ domain) domain)"
    using assms(2,3) by (simp add: new_matcher_def domain_matcher_new_def)
  have "(\<exists>u. host = u @ ''.'' @ domain \<and> CHR ''/'' \<notin> set u) \<longleftrightarrow> suffix (CHR ''.'' # domain) host"
    using assms(7) by (auto simp: suffix_def)
  then show ?thesis using glob_star [of host] m strip_port_join [OF assms(4-6,8,9)]
    by (simp add: bypass_contains_def from_patterns_def bypass_new_def map_filter_def join_host_port_def)
qed

definition star_glob :: "string \<Rightarrow> string \<Rightarrow> bool" where
  "star_glob pattern d =
     (case pattern of c # rest \<Rightarrow> suffix rest d \<and> CHR ''/'' \<notin> set (take (length d - length rest) d) | [] \<Rightarrow> d = [])"

theorem bypass_subdomains_witness:
  "bypass_contains (demo_libs\<lparr>glob_match := star_glob\<rparr>)
     (from_patterns (demo_libs\<lparr>glob_match := star_glob\<rparr>) False [''.example.com''])
     (join_host_port ''www.example.com'' (show_nat 443))"
proof -
  let ?L = "demo_libs\<lparr>glob_match := star_glob\<rparr>"
  have g: "glob_match ?L (''*.'' @ ''example.com'') d \<longleftrightarrow>
      (\<exists>u. d = u @ ''.'' @ ''example.com'' \<and> CHR ''/'' \<notin> set u)" for d
  proof -
    have "suffix r d \<and> P (take (length d - length r) d) \<longleftrightarrow> (\<exists>u. d = u @ r \<and> P u)" for r and P :: "string \<Rightarrow> bool"
      by (auto simp: suffix_def)
    from this [of "''.example.com''" "\<lambda>u. CHR ''/'' \<notin> set u"] show ?thesis by (simp add: star_glob_def)
  qed
  have p: "parse_ip (CHR ''.'' # ''example.com'') = None" "parse_net ?L (CHR ''.'' # ''example.com'') = None"
    by (rule parse_ip_name; simp add: to_digit_def) (simp add: demo_libs_def)
  have "suffix (CHR ''.'' # ''example.com'') ''www.example.com''" unfolding suffix_def by (rule exI [of _ "''www''"]) simp
  then show ?thesis using bypass_subdomains [OF g p, of "''www.example.com''" 443] by simp
qed

text \<open>A reload is not atomic for a concurrent lookup: between its first two writes a lookup can see
  the new patterns with the old direction, and give an answer that neither the old nor the new
  rules give.\<close>

theorem bypass_reload_tears:
  "let old = from_patterns L False [''x.example'']; ms = by_matchers (from_patterns L True [''y.example'']);
       mid = write_matchers ms old; new = write_period p (write_reversed True mid)
   in glob_match L ''x.example'' = (\<lambda>d. d = ''x.example'') \<and> glob_match L ''y.example'' = (\<lambda>d. d = ''y.example'') \<and>
      parse_net L ''x.example'' = None \<and> parse_net L ''y.example'' = None \<longrightarrow>
      bypass_contains L old ''x.example:80'' \<and> bypass_contains L new ''x.example:80'' \<and>
      \<not> bypass_contains L mid ''x.example:80''"
proof -
  have ip: "parse_ip ''x.example'' = None" "parse_ip ''y.example'' = None"
    by (rule parse_ip_name; simp add: to_digit_def)+
  have s: "strip_port ''x.example:80'' = ''x.example''"
    using strip_port_join [of "''x.example''" 80] by (simp add: join_host_port_def show_nat.simps digit_char_def)
  show ?thesis
    by (auto simp: Let_def from_patterns_def bypass_new_def map_filter_def new_matcher_def ip domain_matcher_new_def
        bypass_contains_def s write_matchers_def write_period_def write_reversed_def)
qed

theorem bypass_reload_tears_witness:
  "\<not> bypass_contains demo_libs (write_matchers (by_matchers (from_patterns demo_libs True [''y.example'']))
      (from_patterns demo_libs False [''x.example''])) ''x.example:80''"
proof -
  have g: "go_glob p d \<longleftrightarrow> d = p" if "p \<in> {''x.example'', ''y.example''}" for p d
  proof -
    have "go_glob p d = glob_ref p d" by (rule go_glob_eq_ref)
    also have "\<dots> \<longleftrightarrow> d = p" using that by (auto simp: glob_ref_char)
    finally show ?thesis .
  qed
  show ?thesis using bypass_reload_tears [of demo_libs 0] g by (simp add: Let_def demo_libs_def fun_eq_iff)
qed

end
