(* ===== verification/Socks5Wire.thy ===== *)
theory Socks5Wire
  imports ConnIO Bypass
begin

text \<open>
  The SOCKS5 wire formats (\<^verbatim>\<open>src/src/socks5.rs\<close>): constants, addresses in requests, replies and
  UDP datagrams, and the text form \<^verbatim>\<open>host:port\<close>. An address that fits its length byte comes
  back as it was sent; a longer name does not, and the last theorem shows what a receiver
  makes of it.
\<close>

section \<open>Constants\<close>

definition SOCKS5_VERSION :: u8 where "SOCKS5_VERSION = 0x05"
definition METHOD_NO_AUTH :: u8 where "METHOD_NO_AUTH = 0x00"
definition METHOD_USER_PASS :: u8 where "METHOD_USER_PASS = 0x02"
definition METHOD_TLS :: u8 where "METHOD_TLS = 0x80"
definition METHOD_TLS_AUTH :: u8 where "METHOD_TLS_AUTH = 0x82"
definition METHOD_NO_ACCEPTABLE :: u8 where "METHOD_NO_ACCEPTABLE = 0xFF"
definition CMD_CONNECT :: u8 where "CMD_CONNECT = 0x01"
definition CMD_BIND :: u8 where "CMD_BIND = 0x02"
definition CMD_UDP_ASSOCIATE :: u8 where "CMD_UDP_ASSOCIATE = 0x03"
definition CMD_MUX_BIND :: u8 where "CMD_MUX_BIND = 0xF2"
definition CMD_UDP_TUN :: u8 where "CMD_UDP_TUN = 0xF3"
definition UDP_BUFFER_SIZE :: nat where "UDP_BUFFER_SIZE = 64 * 1024"
definition UDP_TUN_MAX_PAYLOAD :: nat where "UDP_TUN_MAX_PAYLOAD = 65535"
definition UDP_TUN_HEAD_LEN :: nat where "UDP_TUN_HEAD_LEN = 5"
definition ATYP_IPV4 :: u8 where "ATYP_IPV4 = 0x01"
definition ATYP_DOMAIN :: u8 where "ATYP_DOMAIN = 0x03"
definition ATYP_IPV6 :: u8 where "ATYP_IPV6 = 0x04"
definition REP_SUCCESS :: u8 where "REP_SUCCESS = 0x00"
definition REP_GENERAL_FAILURE :: u8 where "REP_GENERAL_FAILURE = 0x01"
definition REP_NOT_ALLOWED :: u8 where "REP_NOT_ALLOWED = 0x02"
definition REP_HOST_UNREACHABLE :: u8 where "REP_HOST_UNREACHABLE = 0x04"
definition REP_CMD_NOT_SUPPORTED :: u8 where "REP_CMD_NOT_SUPPORTED = 0x07"

lemmas socks5_consts = SOCKS5_VERSION_def METHOD_NO_AUTH_def METHOD_USER_PASS_def METHOD_TLS_def
  METHOD_TLS_AUTH_def METHOD_NO_ACCEPTABLE_def CMD_CONNECT_def CMD_BIND_def CMD_UDP_ASSOCIATE_def
  CMD_MUX_BIND_def CMD_UDP_TUN_def ATYP_IPV4_def ATYP_DOMAIN_def ATYP_IPV6_def REP_SUCCESS_def
  REP_GENERAL_FAILURE_def REP_NOT_ALLOWED_def REP_HOST_UNREACHABLE_def REP_CMD_NOT_SUPPORTED_def

lemmas atyp_consts = ATYP_IPV4_def ATYP_DOMAIN_def ATYP_IPV6_def

section \<open>Addresses\<close>

text \<open>\<^verbatim>\<open>n as u8\<close> of a length.\<close>

definition usize_as_u8 :: "nat \<Rightarrow> u8" where
  "usize_as_u8 n = word_of_nat n"

text \<open>The text form of a host and a port.\<close>

definition join_addr :: "string \<Rightarrow> u16 \<Rightarrow> string" where
  "join_addr host port = join_host_port host (show_nat (unat port))"

definition parse_address :: "string \<Rightarrow> handler_error + (string \<times> u16)" where
  "parse_address addr =
     (case split_host_port addr of
        Inl _ \<Rightarrow> Inl (HandlerProxy (''invalid address: '' @ addr))
      | Inr (host, port_str) \<Rightarrow>
          (case parse_u16 port_str of
             None \<Rightarrow> Inl (HandlerProxy (''invalid port: '' @ port_str))
           | Some port \<Rightarrow> Inr (host, of_nat port)))"

text \<open>\<^verbatim>\<open>encode_address\<close>: the bytes it appends.\<close>

definition encode_address :: "string \<Rightarrow> u16 \<Rightarrow> bytes" where
  "encode_address host port =
     (case parse_v4 host of
        Some (a, b, c, d) \<Rightarrow> [ATYP_IPV4, a, b, c, d]
      | None \<Rightarrow>
          (case parse_v6 host of
             Some gs \<Rightarrow> ATYP_IPV6 # v6_octets gs
           | None \<Rightarrow> [ATYP_DOMAIN, usize_as_u8 (length host)] @ as_bytes host))
     @ u16_to_be port"

definition read_address :: "u8 \<Rightarrow> (handler_error, string \<times> u16) io" where
  "read_address atyp =
     io_bind
       (if atyp = ATYP_IPV4
        then io_bind (io_read HandlerIo 4) (\<lambda>a. io_ok (show_v4 (a ! 0) (a ! 1) (a ! 2) (a ! 3)))
        else if atyp = ATYP_DOMAIN
        then io_bind (io_read HandlerIo 1) (\<lambda>len.
             io_bind (io_read HandlerIo (unat (len ! 0))) (\<lambda>domain. io_ok (from_utf8_lossy domain)))
        else if atyp = ATYP_IPV6
        then io_bind (io_read HandlerIo 16) (\<lambda>a. io_ok (show_v6 (v6_of_octets a)))
        else io_err (HandlerProxy (''unsupported atyp: '' @ show_nat (unat atyp))))
       (\<lambda>host. io_bind (io_read HandlerIo 2) (\<lambda>port_buf.
             io_ok (host, u16_from_be (port_buf ! 0) (port_buf ! 1))))"

text \<open>\<^verbatim>\<open>skip_address\<close>: an unknown address type is skipped as nothing at all.\<close>

definition skip_address :: "u8 \<Rightarrow> (handler_error, unit) io" where
  "skip_address atyp =
     (if atyp = ATYP_IPV4 then io_bind (io_read HandlerIo 6) (\<lambda>_. io_ok ())
      else if atyp = ATYP_DOMAIN
      then io_bind (io_read HandlerIo 1) (\<lambda>len. io_bind (io_read HandlerIo (unat (len ! 0) + 2)) (\<lambda>_. io_ok ()))
      else if atyp = ATYP_IPV6 then io_bind (io_read HandlerIo 18) (\<lambda>_. io_ok ())
      else io_ok ())"

text \<open>\<^verbatim>\<open>send_reply\<close>: the bytes of a reply.\<close>

definition reply_bytes :: "u8 \<Rightarrow> string \<Rightarrow> u16 \<Rightarrow> bytes" where
  "reply_bytes rep addr port =
     [SOCKS5_VERSION, rep, 0x00]
     @ (case parse_v4 addr of
          Some (a, b, c, d) \<Rightarrow> [ATYP_IPV4, a, b, c, d]
        | None \<Rightarrow>
            (case parse_v6 addr of
               Some gs \<Rightarrow> ATYP_IPV6 # v6_octets gs
             | None \<Rightarrow> [ATYP_IPV4, 0, 0, 0, 0]))
     @ u16_to_be port"

definition send_reply :: "u8 \<Rightarrow> string \<Rightarrow> u16 \<Rightarrow> (handler_error, unit) io" where
  "send_reply rep addr port = io_write HandlerIo (reply_bytes rep addr port)"

section \<open>UDP datagrams\<close>

definition parse_udp_datagram :: "bytes \<Rightarrow> (u8 \<times> string \<times> u16 \<times> nat) option" where
  "parse_udp_datagram b =
     (if length b < 5 then None
      else let frag = b ! 2; atyp = b ! 3; i = 4
           in case (if atyp = ATYP_IPV4
                    then if length b < i + 4 then None
                         else Some (show_v4 (b ! i) (b ! (i + 1)) (b ! (i + 2)) (b ! (i + 3)), i + 4)
                    else if atyp = ATYP_DOMAIN
                    then let len = unat (b ! i); i = i + 1
                         in if len = 0 \<or> length b < i + len then None
                            else Some (from_utf8_lossy (take len (drop i b)), i + len)
                    else if atyp = ATYP_IPV6
                    then if length b < i + 16 then None
                         else Some (show_v6 (v6_of_octets (take 16 (drop i b))), i + 16)
                    else None) of
                None \<Rightarrow> None
              | Some (host, i) \<Rightarrow>
                  if length b < i + 2 then None
                  else Some (frag, host, u16_from_be (b ! i) (b ! (i + 1)), i + 2))"

definition encode_udp_datagram :: "socket_addr \<Rightarrow> bytes \<Rightarrow> bytes" where
  "encode_udp_datagram addr data = [0x00, 0x00, 0x00] @ encode_address (show_ip (fst addr)) (snd addr) @ data"

text \<open>\<^verbatim>\<open>encode_udp_tunnel_datagram_into\<close>: the bytes it appends.\<close>

definition encode_udp_tunnel_datagram :: "string \<Rightarrow> u16 \<Rightarrow> bytes \<Rightarrow> bytes" where
  "encode_udp_tunnel_datagram host port data =
     u16_to_be (usize_as_u16 (length data)) @ [0x00] @ encode_address host port @ data"

section \<open>What a receiver makes of an encoded address\<close>

text \<open>The host as it comes back: address literals in their canonical form.\<close>

definition canon_host :: "string \<Rightarrow> string" where
  "canon_host host =
     (case parse_v4 host of
        Some (a, b, c, d) \<Rightarrow> show_v4 a b c d
      | None \<Rightarrow> (case parse_v6 host of Some gs \<Rightarrow> show_v6 gs | None \<Rightarrow> host))"

text \<open>The hosts an address can carry.\<close>

definition host_fits :: "string \<Rightarrow> bool" where
  "host_fits host \<longleftrightarrow> host \<noteq> [] \<and> length host \<le> 255 \<and> utf8_valid host"

lemma parse_v6_length: "parse_v6 s = Some gs \<Longrightarrow> length gs = 8"
proof -
  have "length gs = 8" if r6: "read_ipv6 s = Some (gs, r)" for gs r
  proof -
    obtain head v4 u where h: "read_groups 0 8 s = (head, v4, u)" by (metis prod_cases3)
    note l = read_groups_length [OF h]
    have t: "length tl \<le> 7 - length head" if "read_groups 0 (7 - length head) w = (tl, x, y)" for w tl x y
      by (rule read_groups_length [OF that])
    show ?thesis using r6 h l
      by (auto simp: read_ipv6_def Let_def split: prod.splits if_splits option.splits dest!: t)
  qed
  then show "parse_v6 s = Some gs \<Longrightarrow> length gs = 8"
    by (auto simp: parse_v6_def split: option.splits prod.splits if_splits)
qed

lemma encode_address_cases:
  obtains (v4) a b c d where "parse_v4 host = Some (a, b, c, d)" "canon_host host = show_v4 a b c d"
      "encode_address host port = ATYP_IPV4 # [a, b, c, d] @ u16_to_be port"
  | (v6) gs where "parse_v4 host = None" "parse_v6 host = Some gs" "length gs = 8" "canon_host host = show_v6 gs"
      "encode_address host port = ATYP_IPV6 # v6_octets gs @ u16_to_be port"
  | (name) "parse_v4 host = None" "parse_v6 host = None" "canon_host host = host"
      "encode_address host port = ATYP_DOMAIN # [usize_as_u8 (length host)] @ as_bytes host @ u16_to_be port"
  using that parse_v6_length by (cases "parse_v4 host"; cases "parse_v6 host") (auto simp: encode_address_def canon_host_def)

lemma unat_usize_as_u8: "n \<le> 255 \<Longrightarrow> unat (usize_as_u8 n) = n"
  by (simp add: usize_as_u8_def unat_of_nat take_bit_eq_mod)

text \<open>Reading an encoded address, for any chunking of the stream.\<close>

lemma read_address_name:
  assumes "conn_at l (n # name @ u16_to_be port @ ys) out c" "length name = unat n"
    "\<And>c'. conn_at l ys out c' \<Longrightarrow> Q (Inr (from_utf8_lossy name, port)) c'"
  shows "runs (read_address ATYP_DOMAIN) c Q"
  using assms(1) unfolding read_address_def
  by - (rule run_intros | erule runs_read_step | simp add: atyp_consts assms(2,3) u16_to_be_def)+

lemma read_address_roundtrip:
  assumes "conn_at l (tl (encode_address host port) @ ys) out c" "length host \<le> 255" "utf8_valid host"
    "\<And>c'. conn_at l ys out c' \<Longrightarrow> Q (Inr (canon_host host, port)) c'"
  shows "runs (read_address (hd (encode_address host port))) c Q"
proof (cases rule: encode_address_cases [of host port])
  case (v4 a b x d)
  with assms(1) have "conn_at l ([a, b, x, d] @ u16_to_be port @ ys) out c" by simp
  then show ?thesis unfolding read_address_def
    by - (rule run_intros | erule runs_read_step | simp add: v4 atyp_consts assms(4) [unfolded v4(2)] u16_to_be_def)+
next
  case (v6 gs)
  with assms(1) have "conn_at l (v6_octets gs @ u16_to_be port @ ys) out c" by simp
  then show ?thesis unfolding read_address_def
    by - (rule run_intros | erule runs_read_step | simp add: v6 atyp_consts assms(4) [unfolded v6(4)] u16_to_be_def)+
next
  case name
  then show ?thesis using assms read_address_name [of l "usize_as_u8 (length host)" "as_bytes host" port ys out c Q]
    by (simp add: unat_usize_as_u8)
qed

lemma parse_udp_datagram_encode:
  assumes "parse_v4 host = None \<Longrightarrow> parse_v6 host = None \<Longrightarrow> host_fits host"
  shows "parse_udp_datagram ([a, b, frag] @ encode_address host port @ data) =
     Some (frag, canon_host host, port, 3 + length (encode_address host port))"
proof (cases rule: encode_address_cases [of host port])
  case (v4 a b x d)
  then show ?thesis by (simp add: parse_udp_datagram_def atyp_consts u16_to_be_def)
next
  case (v6 gs)
  obtain p q where pq: "u16_to_be port = [p, q]" by (simp add: u16_to_be_def)
  have "u16_from_be p q = port" using u16_be_nth [of port] by (simp add: pq)
  then show ?thesis using v6 by (simp add: parse_udp_datagram_def atyp_consts pq nth_append)
next
  case name
  obtain p q where pq: "u16_to_be port = [p, q]" by (simp add: u16_to_be_def)
  have "u16_from_be p q = port" using u16_be_nth [of port] by (simp add: pq)
  then show ?thesis using name assms
    by (simp add: parse_udp_datagram_def atyp_consts pq nth_append host_fits_def unat_usize_as_u8)
qed

lemma skip_address_encoded:
  assumes "conn_at l (tl (encode_address host port) @ ys) out c" "length host \<le> 255"
    "\<And>c'. conn_at l ys out c' \<Longrightarrow> Q (Inr ()) c'"
  shows "runs (skip_address (hd (encode_address host port))) c Q"
proof (cases rule: encode_address_cases [of host port])
  case (v4 a b x d)
  with assms(1) have "conn_at l ([a, b, x, d] @ u16_to_be port @ ys) out c" by simp
  then show ?thesis unfolding skip_address_def v4
    by - (rule run_intros | erule runs_read_step | simp add: atyp_consts assms(3) u16_to_be_def)+
next
  case (v6 gs)
  with assms(1) have "conn_at l (v6_octets gs @ u16_to_be port @ ys) out c" by simp
  then show ?thesis unfolding skip_address_def v6
    by - (rule run_intros | erule runs_read_step | simp add: v6(3) atyp_consts assms(3) u16_to_be_def)+
next
  case name
  with assms(1) have "conn_at l (usize_as_u8 (length host) # as_bytes host @ u16_to_be port @ ys) out c" by simp
  then show ?thesis unfolding skip_address_def name
    by - (rule run_intros | erule runs_read_step | simp add: atyp_consts unat_usize_as_u8 assms(2,3) u16_to_be_def)+
qed

lemma parse_address_join:
  assumes "CHR ''['' \<notin> set host" "CHR '']'' \<notin> set host"
  shows "parse_address (join_addr host port) = Inr (host, port)"
proof -
  have np: "CHR '':'' \<notin> set (show_nat n)" "CHR ''['' \<notin> set (show_nat n)" "CHR '']'' \<notin> set (show_nat n)" for n
    by (rule show_nat_not_mem; simp)+
  have "split_host_port (join_addr host port) = Inr (host, show_nat (unat port))"
    unfolding split_host_port_iff using assms np by (auto simp: host_port_form_def join_addr_def join_host_port_def)
  moreover have "unat port < 65536" using unsigned_less [of port, where ?'a = nat] by simp
  ultimately show ?thesis by (simp add: parse_address_def)
qed

section \<open>Properties\<close>

definition demo_conn :: "bytes \<Rightarrow> proxy_conn" where
  "demo_conn bs = conn_new \<lparr>w_in = map (\<lambda>b. Data [b]) bs, w_out = [], w_acc = [], w_fin = False\<rparr> None None"

lemma demo_conn_at: "conn_at None bs [] (demo_conn bs)"
proof -
  have "arrives (map (\<lambda>b. Data [b]) bs) = bs" "ending (map (\<lambda>b. Data [b]) bs) = None" by (induction bs) auto
  then show ?thesis by (simp add: conn_at_def demo_conn_def conn_new_def conn_ok_def content_def buffered_def short_error_def)
qed

text \<open>An address put on the wire comes back: for a host of at most 255 bytes, reading the
  encoded bytes gives the host (an address literal in canonical form) and the port and
  consumes exactly those bytes, however the stream is cut into chunks; skipping the address
  consumes the same bytes; and the datagram parser agrees and finds where the data starts.\<close>

theorem socks5_address_roundtrip:
  assumes "host_fits host" "conn_at l (tl (encode_address host port) @ rest) out c"
  shows "(\<exists>c'. read_address (hd (encode_address host port)) c = (Inr (canon_host host, port), c') \<and> conn_at l rest out c') \<and>
    (\<exists>c'. skip_address (hd (encode_address host port)) c = (Inr (), c') \<and> conn_at l rest out c') \<and>
    parse_udp_datagram ([a, b, frag] @ encode_address host port @ data) =
      Some (frag, canon_host host, port, 3 + length (encode_address host port))"
proof (intro conjI)
  have h: "length host \<le> 255" "utf8_valid host" using assms(1) by (simp_all add: host_fits_def)
  have "runs (read_address (hd (encode_address host port))) c (\<lambda>r c'. r = Inr (canon_host host, port) \<and> conn_at l rest out c')"
    by (rule read_address_roundtrip [OF assms(2) h]) simp
  then show "\<exists>c'. read_address (hd (encode_address host port)) c = (Inr (canon_host host, port), c') \<and> conn_at l rest out c'"
    by (auto simp: runs_def prod_eq_iff)
  have "runs (skip_address (hd (encode_address host port))) c (\<lambda>r c'. r = Inr () \<and> conn_at l rest out c')"
    by (rule skip_address_encoded [OF assms(2) h(1)]) simp
  then show "\<exists>c'. skip_address (hd (encode_address host port)) c = (Inr (), c') \<and> conn_at l rest out c'"
    by (auto simp: runs_def prod_eq_iff)
qed (rule parse_udp_datagram_encode [OF assms(1)])

lemma host_fits_demo: "host_fits ''internal.lan''"
  by (simp add: host_fits_def byte_in_def)

theorem socks5_address_roundtrip_witness:
  "\<exists>c'. read_address (hd (encode_address ''internal.lan'' 443)) (demo_conn (tl (encode_address ''internal.lan'' 443) @ [7, 8]))
     = (Inr (canon_host ''internal.lan'', 443), c') \<and> conn_at None [7, 8] [] c'"
  by (rule conjunct1 [OF socks5_address_roundtrip [OF host_fits_demo demo_conn_at]])

text \<open>C34. A name longer than 255 bytes is not refused but sent with its length modulo 256. Whoever
  chooses the name chooses what the next proxy reads: for every short ASCII name and every
  port of two ASCII bytes there is a long name, itself plain ASCII, whose encoding is read
  back as that other name and port, with the rest of the bytes left in the stream.\<close>

theorem socks5_long_name_smuggles:
  assumes "ascii name" "length name \<le> 255" "list_all (\<lambda>b. unat b \<le> 127) (u16_to_be p)"
  shows "\<exists>host. ascii host \<and> length host = length name + 256 \<and>
    (\<forall>port l out rest c. conn_at l (tl (encode_address host port) @ rest) out c \<longrightarrow>
       (\<exists>c' left. read_address (hd (encode_address host port)) c = (Inr (name, p), c') \<and>
          length left = 254 \<and> conn_at l (left @ u16_to_be port @ rest) out c'))"
proof -
  define host where "host = name @ of_bytes (u16_to_be p) @ replicate 254 CHR ''x''"
  have pb: "ascii (of_bytes (u16_to_be p))"
    using assms(3) by (simp add: u16_to_be_def of_bytes_def ascii_def byte_in_def char_of_byte_def of_char_of unsigned_less)
  have len: "length host = length name + 256" by (simp add: host_def u16_to_be_def of_bytes_def)
  have "CHR ''x'' \<in> set host" "\<not> addr_char CHR ''x''" by (simp_all add: host_def addr_char_def to_digit_def)
  note na = not_address [OF this]
  have enc: "encode_address host port = ATYP_DOMAIN # usize_as_u8 (length host) # as_bytes name @ u16_to_be p @ as_bytes (replicate 254 CHR ''x'') @ u16_to_be port" for port
    by (simp add: encode_address_def na) (simp add: host_def)
  have n: "unat (usize_as_u8 (length host)) = length name"
    using assms(2) by (simp add: usize_as_u8_def len unat_of_nat take_bit_eq_mod del: of_nat_add)
  have "ascii host" using assms(1) pb by (auto simp: host_def ascii_def list_all_iff byte_in_def)
  moreover have "\<exists>c' left. read_address (hd (encode_address host port)) c = (Inr (name, p), c') \<and>
          length left = 254 \<and> conn_at l (left @ u16_to_be port @ rest) out c'"
    if "conn_at l (tl (encode_address host port) @ rest) out c" for port l out rest c
  proof -
    have "runs (read_address ATYP_DOMAIN) c (\<lambda>r c'. r = Inr (name, p) \<and> conn_at l (as_bytes (replicate 254 CHR ''x'') @ u16_to_be port @ rest) out c')"
      by (rule read_address_name [where n = "usize_as_u8 (length host)" and name = "as_bytes name"])
        (use that assms(1) n in \<open>simp_all add: enc\<close>)
    then show ?thesis by (auto simp: runs_def prod_eq_iff enc intro!: exI [of _ "as_bytes (replicate 254 CHR ''x'')"])
  qed
  ultimately show ?thesis using len by blast
qed

theorem socks5_long_name_smuggles_witness:
  "\<exists>host c' left. ascii host \<and> length host = length ''internal.lan'' + 256 \<and>
     read_address (hd (encode_address host 443)) (demo_conn (tl (encode_address host 443) @ [])) = (Inr (''internal.lan'', 80), c') \<and>
     length left = 254 \<and> conn_at None (left @ u16_to_be 443 @ []) [] c'"
proof -
  have "ascii ''internal.lan''" "length ''internal.lan'' \<le> 255" "list_all (\<lambda>b. unat b \<le> 127) (u16_to_be 80)"
    by (simp_all add: ascii_def byte_in_def u16_to_be_def)
  from socks5_long_name_smuggles [OF this] show ?thesis using demo_conn_at by meson
qed

end
