(* ===== verification/Socks5Tunnel.thy ===== *)
theory Socks5Tunnel
  imports Socks5Wire
begin

text \<open>
  UDP datagrams over a byte stream (\<^verbatim>\<open>Socks5UdpTunnelConn\<close> of \<^verbatim>\<open>src/src/socks5.rs\<close>). The reader is a
  state machine driven by polls; the main result is that it refines a function on the bytes
  of the stream, so what it delivers does not depend on how the stream is cut into chunks or
  on how often a poll finds nothing, and that two tunnel ends deliver the datagrams in order.
\<close>

section \<open>State\<close>

datatype tunnel_read_state = THead | TBody nat nat | TEof

record tunnel =
  tn_inner :: wire
  tn_taddr :: "string \<times> u16"
  tn_bound_addr :: "string option"
  tn_state :: tunnel_read_state
  tn_buf :: bytes
  tn_need :: nat
  tn_plain :: bytes
  tn_plain_pos :: nat
  tn_plain_host :: string
  tn_plain_port :: u16
  tn_out :: bytes
  tn_out_pos :: nat

definition tunnel_with_taddr :: "wire \<Rightarrow> string \<times> u16 \<Rightarrow> string option \<Rightarrow> tunnel" where
  "tunnel_with_taddr inner taddr bound_addr =
     \<lparr>tn_inner = inner, tn_taddr = taddr, tn_bound_addr = bound_addr, tn_state = THead, tn_buf = [],
      tn_need = UDP_TUN_HEAD_LEN, tn_plain = [], tn_plain_pos = 0, tn_plain_host = [], tn_plain_port = 0,
      tn_out = [], tn_out_pos = 0\<rparr>"

definition tunnel_server :: "wire \<Rightarrow> tunnel" where
  "tunnel_server inner = tunnel_with_taddr inner (''0.0.0.0'', 0) None"

definition tunnel_client :: "wire \<Rightarrow> string \<times> u16 \<Rightarrow> string \<Rightarrow> tunnel" where
  "tunnel_client inner taddr bound_addr = tunnel_with_taddr inner taddr (Some bound_addr)"

section \<open>Reading\<close>

lemma wire_read_weight:
  assumes "wire_read cap w = (r, w')"
  shows "r = Pending \<Longrightarrow> wire_weight w' < wire_weight w"
    "r = Ready (Inr bs) \<Longrightarrow> wire_weight w' + length bs \<le> wire_weight w"
    "r = Ready (Inr bs) \<Longrightarrow> bs \<noteq> [] \<Longrightarrow> wire_weight w' < wire_weight w"
  using assms by (cases rule: wire_read_cases [of w cap]; auto simp: wire_weight_def split: if_splits)+

text \<open>\<^verbatim>\<open>poll_fill\<close>: \<open>Inr False\<close> means that the peer closed the stream first.\<close>

function tunnel_fill :: "tunnel \<Rightarrow> (io_error + bool) poll \<times> tunnel" where
  "tunnel_fill t =
     (if length (tn_buf t) < tn_need t
      then (case wire_read (tn_need t - length (tn_buf t)) (tn_inner t) of
              (Pending, w) \<Rightarrow> (Pending, t\<lparr>tn_inner := w\<rparr>)
            | (Ready (Inl e), w) \<Rightarrow> (Ready (Inl e), t\<lparr>tn_inner := w\<rparr>)
            | (Ready (Inr bs), w) \<Rightarrow>
                if bs = [] then (Ready (Inr False), t\<lparr>tn_inner := w\<rparr>)
                else tunnel_fill (t\<lparr>tn_inner := w, tn_buf := tn_buf t @ bs\<rparr>))
      else (Ready (Inr True), t))"
  by pat_completeness auto
termination
  by (relation "measure (\<lambda>t. wire_weight (tn_inner t))") (auto intro: wire_read_weight(3) [OF sym])

declare tunnel_fill.simps [simp del]

definition head_dlen :: "bytes \<Rightarrow> nat" where
  "head_dlen b = unat (u16_from_be (b ! 0) (b ! 1))"

definition head_hlen :: "bytes \<Rightarrow> nat option" where
  "head_hlen b =
     (if b ! 3 = ATYP_IPV4 then Some 10
      else if b ! 3 = ATYP_IPV6 then Some 22
      else if b ! 3 = ATYP_DOMAIN then Some (7 + unat (b ! 4))
      else None)"

definition bad_atyp :: "u8 \<Rightarrow> io_error" where
  "bad_atyp a = IoError Other (''socks5: bad address type in UDP tunnel frame: '' @ show_nat (unat a))"

definition bad_address :: io_error where
  "bad_address = IoError Other ''socks5: malformed address in UDP tunnel frame''"

definition truncated :: io_error where
  "truncated = IoError UnexpectedEof ''socks5: truncated UDP tunnel datagram''"

definition tunnel_weight :: "tunnel \<Rightarrow> nat" where
  "tunnel_weight t = wire_weight (tn_inner t) + length (tn_buf t)"

lemma tunnel_fill_weight: "tunnel_fill t = (r, t') \<Longrightarrow> tunnel_weight t' \<le> tunnel_weight t"
proof (induction t arbitrary: r t' rule: tunnel_fill.induct)
  case (1 t)
  obtain x w where w: "wire_read (tn_need t - length (tn_buf t)) (tn_inner t) = (x, w)"
    by (cases "wire_read (tn_need t - length (tn_buf t)) (tn_inner t)")
  note wt = wire_read_weight [OF w]
  show ?case
  proof (cases "length (tn_buf t) < tn_need t")
    case True
    note IH = 1(1) [OF True w [symmetric]]
    show ?thesis
    proof (cases x)
      case Pending
      then show ?thesis using 1(2) True w wt(1) by (auto simp: tunnel_fill.simps [of t] tunnel_weight_def)
    next
      case (Ready y)
      show ?thesis
      proof (cases y)
        case (Inl e)
        then show ?thesis using 1(2) True w Ready
          by (cases rule: wire_read_cases [of "tn_inner t" "tn_need t - length (tn_buf t)"])
            (auto simp: tunnel_fill.simps [of t] tunnel_weight_def wire_weight_def)
      next
        case (Inr bs)
        then show ?thesis using 1(2) True w Ready IH [OF Ready Inr] wt(2) [of bs]
          by (fastforce simp: tunnel_fill.simps [of t] tunnel_weight_def split: if_splits)
      qed
    qed
  next
    case False
    then show ?thesis using 1(2) by (simp add: tunnel_fill.simps [of t])
  qed
qed

lemma tunnel_fill_state: "tunnel_fill t = (r, t') \<Longrightarrow> tn_state t' = tn_state t"
proof (induction t arbitrary: r t' rule: tunnel_fill.induct)
  case (1 t)
  then show ?case by (fastforce simp: tunnel_fill.simps [of t] split: if_splits prod.splits poll.splits sum.splits)
qed

text \<open>
  The handling of a complete header or frame inside \<^verbatim>\<open>poll_datagram\<close>: \<open>None\<close> continues the loop,
  \<open>Some\<close> returns.
\<close>

definition tunnel_parse :: "tunnel \<Rightarrow> (io_error + bool) poll option \<times> tunnel" where
  "tunnel_parse t =
     (case tn_state t of
        THead \<Rightarrow>
          (case head_hlen (tn_buf t) of
             None \<Rightarrow> (Some (Ready (Inl (bad_atyp (tn_buf t ! 3)))), t)
           | Some hlen \<Rightarrow>
               let dlen = head_dlen (tn_buf t)
               in (None, t\<lparr>tn_state := TBody hlen dlen, tn_need := hlen + dlen\<rparr>))
      | TBody hlen dlen \<Rightarrow>
          let frame = tn_buf t;
              t' = t\<lparr>tn_buf := [], tn_state := THead, tn_need := UDP_TUN_HEAD_LEN\<rparr>
          in (case parse_udp_datagram (take hlen frame) of
                None \<Rightarrow> (Some (Ready (Inl bad_address)), t')
              | Some (frag, host, port, off) \<Rightarrow>
                  if frag \<noteq> 0 then (None, t')
                  else (None, t'\<lparr>tn_plain_host := host, tn_plain_port := port,
                                 tn_plain := take dlen (drop hlen frame), tn_plain_pos := 0\<rparr>))
      | TEof \<Rightarrow> (Some (Ready (Inr False)), t))"

text \<open>One round of the loop.\<close>

definition tunnel_round :: "tunnel \<Rightarrow> (io_error + bool) poll option \<times> tunnel" where
  "tunnel_round t0 =
     (if tn_plain_pos t0 < length (tn_plain t0) then (Some (Ready (Inr True)), t0)
      else let t1 = t0\<lparr>tn_plain := [], tn_plain_pos := 0\<rparr>
           in if tn_state t1 = TEof then (Some (Ready (Inr False)), t1)
              else (case tunnel_fill t1 of
                (Pending, t) \<Rightarrow> (Some Pending, t)
              | (Ready (Inl e), t) \<Rightarrow> (Some (Ready (Inl e)), t)
              | (Ready (Inr full), t) \<Rightarrow>
                  if full then tunnel_parse t
                  else if tn_buf t = [] \<and> tn_state t = THead
                       then (Some (Ready (Inr False)), t\<lparr>tn_state := TEof\<rparr>)
                       else (Some (Ready (Inl truncated)), t)))"

definition tunnel_rank :: "tunnel \<Rightarrow> nat" where
  "tunnel_rank t = 2 * tunnel_weight t + (if tn_state t = THead then 1 else 0)"

lemma tunnel_parse_rank: "tunnel_parse t = (None, t') \<Longrightarrow> tunnel_rank t' < tunnel_rank t"
proof (cases "tn_state t")
  case (TBody hlen dlen)
  assume p: "tunnel_parse t = (None, t')"
  then have "parse_udp_datagram (take hlen (tn_buf t)) \<noteq> None" using TBody by (auto simp: tunnel_parse_def Let_def split: option.splits)
  then have "1 < length (tn_buf t)" by (auto simp: parse_udp_datagram_def split: if_splits)
  then show ?thesis using p TBody
    by (auto simp: tunnel_parse_def tunnel_rank_def tunnel_weight_def Let_def split: option.splits prod.splits if_splits)
qed (auto simp: tunnel_parse_def tunnel_rank_def tunnel_weight_def Let_def split: option.splits)

lemma tunnel_round_rank: "tunnel_round t = (None, t') \<Longrightarrow> tunnel_rank t' < tunnel_rank t"
proof -
  assume r: "tunnel_round t = (None, t')"
  let ?t = "t\<lparr>tn_plain := [], tn_plain_pos := 0\<rparr>"
  obtain t1 where "tunnel_fill ?t = (Ready (Inr True), t1)" "tunnel_parse t1 = (None, t')"
    using r by (auto simp: tunnel_round_def Let_def split: if_splits prod.splits poll.splits sum.splits)
  moreover from this(1) have "tunnel_rank t1 \<le> tunnel_rank ?t"
    using tunnel_fill_weight tunnel_fill_state by (fastforce simp: tunnel_rank_def)
  moreover have "tunnel_rank ?t = tunnel_rank t" by (simp add: tunnel_rank_def tunnel_weight_def)
  ultimately show ?thesis using tunnel_parse_rank by fastforce
qed

text \<open>\<^verbatim>\<open>poll_datagram\<close>: \<open>Inr False\<close> means that the stream ended on a frame boundary.\<close>

function tunnel_datagram :: "tunnel \<Rightarrow> (io_error + bool) poll \<times> tunnel" where
  "tunnel_datagram t =
     (case tunnel_round t of
        (Some r, t') \<Rightarrow> (r, t')
      | (None, t') \<Rightarrow> tunnel_datagram t')"
  by pat_completeness auto
termination
  by (relation "measure tunnel_rank") (auto intro: tunnel_round_rank [OF sym])

declare tunnel_datagram.simps [simp del]

definition tunnel_poll_recv :: "tunnel \<Rightarrow> (io_error + (bytes \<times> string \<times> u16) option) poll \<times> tunnel" where
  "tunnel_poll_recv t =
     (case tunnel_datagram t of
        (Pending, t) \<Rightarrow> (Pending, t)
      | (Ready (Inl e), t) \<Rightarrow> (Ready (Inl e), t)
      | (Ready (Inr False), t) \<Rightarrow> (Ready (Inr None), t)
      | (Ready (Inr True), t) \<Rightarrow>
          (Ready (Inr (Some (drop (tn_plain_pos t) (tn_plain t), tn_plain_host t, tn_plain_port t))),
           t\<lparr>tn_plain := [], tn_plain_pos := 0\<rparr>))"

text \<open>\<^verbatim>\<open>AsyncRead::poll_read\<close>: what is put into a buffer with room for \<open>cap\<close> bytes.\<close>

definition tunnel_hand_out :: "nat \<Rightarrow> tunnel \<Rightarrow> bytes \<times> tunnel" where
  "tunnel_hand_out cap t =
     (let n = min cap (length (tn_plain t) - tn_plain_pos t);
          t1 = t\<lparr>tn_plain_pos := tn_plain_pos t + n\<rparr>;
          t2 = (if tn_plain_pos t1 = length (tn_plain t1) then t1\<lparr>tn_plain := [], tn_plain_pos := 0\<rparr> else t1)
      in (take n (drop (tn_plain_pos t) (tn_plain t)), t2))"

definition tunnel_poll_read :: "nat \<Rightarrow> tunnel \<Rightarrow> (io_error + bytes) poll \<times> tunnel" where
  "tunnel_poll_read cap t =
     (if tn_plain_pos t < length (tn_plain t)
      then (let (bs, t') = tunnel_hand_out cap t in (Ready (Inr bs), t'))
      else case tunnel_datagram t of
        (Pending, t) \<Rightarrow> (Pending, t)
      | (Ready (Inl e), t) \<Rightarrow> (Ready (Inl e), t)
      | (Ready (Inr False), t) \<Rightarrow> (Ready (Inr []), t)
      | (Ready (Inr True), t) \<Rightarrow> (let (bs, t') = tunnel_hand_out cap t in (Ready (Inr bs), t')))"

section \<open>Writing\<close>

definition queue_datagram :: "string \<Rightarrow> u16 \<Rightarrow> bytes \<Rightarrow> tunnel \<Rightarrow> (io_error + unit) \<times> tunnel" where
  "queue_datagram host port data t =
     (if length data > UDP_TUN_MAX_PAYLOAD
      then (Inl (IoError Other (''socks5: datagram of '' @ show_nat (length data) @ '' bytes exceeds the ''
              @ show_nat UDP_TUN_MAX_PAYLOAD @ ''-byte tunnel maximum'')), t)
      else (Inr (), t\<lparr>tn_out := tn_out t @ encode_udp_tunnel_datagram host port data\<rparr>))"

text \<open>\<^verbatim>\<open>poll_flush_out\<close>.\<close>

function tunnel_flush_out :: "tunnel \<Rightarrow> (io_error + unit) poll \<times> tunnel" where
  "tunnel_flush_out t =
     (if tn_out_pos t < length (tn_out t)
      then (case wire_write (drop (tn_out_pos t) (tn_out t)) (tn_inner t) of
              (Pending, w) \<Rightarrow> (Pending, t\<lparr>tn_inner := w\<rparr>)
            | (Ready (Inl e), w) \<Rightarrow> (Ready (Inl e), t\<lparr>tn_inner := w\<rparr>)
            | (Ready (Inr n), w) \<Rightarrow>
                if n = 0 then (Ready (Inl (IoError WriteZero ''write zero'')), t\<lparr>tn_inner := w\<rparr>)
                else tunnel_flush_out (t\<lparr>tn_inner := w, tn_out_pos := tn_out_pos t + n\<rparr>))
      else (Ready (Inr ()), t\<lparr>tn_out := [], tn_out_pos := 0\<rparr>))"
  by pat_completeness auto
termination
  by (relation "measure (\<lambda>t. length (tn_out t) - tn_out_pos t)") auto

declare tunnel_flush_out.simps [simp del]

text \<open>\<^verbatim>\<open>AsyncWrite::poll_write\<close>, \<^verbatim>\<open>poll_flush\<close> and \<^verbatim>\<open>poll_shutdown\<close>.\<close>

definition tunnel_poll_write :: "bytes \<Rightarrow> tunnel \<Rightarrow> (io_error + nat) poll \<times> tunnel" where
  "tunnel_poll_write buf t =
     (if buf = [] then (Ready (Inr 0), t)
      else case tunnel_flush_out t of
        (Pending, t) \<Rightarrow> (Pending, t)
      | (Ready (Inl e), t) \<Rightarrow> (Ready (Inl e), t)
      | (Ready (Inr _), t) \<Rightarrow>
          let (host, port) = tn_taddr t
          in (case queue_datagram host port buf t of
                (Inl e, t) \<Rightarrow> (Ready (Inl e), t)
              | (Inr _, t) \<Rightarrow> (Ready (Inr (length buf)), snd (tunnel_flush_out t))))"

definition tunnel_poll_flush :: "tunnel \<Rightarrow> (io_error + unit) poll \<times> tunnel" where
  "tunnel_poll_flush t =
     (case tunnel_flush_out t of
        (Pending, t) \<Rightarrow> (Pending, t)
      | (Ready (Inl e), t) \<Rightarrow> (Ready (Inl e), t)
      | (Ready (Inr _), t) \<Rightarrow> let (r, w) = wire_flush (tn_inner t) in (r, t\<lparr>tn_inner := w\<rparr>))"

definition tunnel_poll_shutdown :: "tunnel \<Rightarrow> (io_error + unit) poll \<times> tunnel" where
  "tunnel_poll_shutdown t =
     (case tunnel_flush_out t of
        (Pending, t) \<Rightarrow> (Pending, t)
      | (Ready (Inl e), t) \<Rightarrow> (Ready (Inl e), t)
      | (Ready (Inr _), t) \<Rightarrow> let (r, w) = wire_shutdown (tn_inner t) in (r, t\<lparr>tn_inner := w\<rparr>))"

section \<open>Awaiting\<close>

lemma tunnel_fill_pending: "tunnel_fill t = (Pending, t') \<Longrightarrow> tunnel_weight t' < tunnel_weight t"
proof (induction t arbitrary: t' rule: tunnel_fill.induct)
  case (1 t)
  obtain x w where w: "wire_read (tn_need t - length (tn_buf t)) (tn_inner t) = (x, w)"
    by (cases "wire_read (tn_need t - length (tn_buf t)) (tn_inner t)")
  note wt = wire_read_weight [OF w]
  have True: "length (tn_buf t) < tn_need t" using 1(2) by (auto simp: tunnel_fill.simps [of t] split: if_splits)
  show ?case
  proof (cases x)
    case Pending
    then show ?thesis using 1(2) True w wt(1) by (auto simp: tunnel_fill.simps [of t] tunnel_weight_def)
  next
    case (Ready y)
    then obtain bs where y: "y = Inr bs" "bs \<noteq> []"
      using 1(2) True w by (auto simp: tunnel_fill.simps [of t] split: sum.splits if_splits)
    then show ?thesis using 1(2) True w Ready 1(1) [OF True w [symmetric] Ready y] wt(2) [of bs]
      by (fastforce simp: tunnel_fill.simps [of t] tunnel_weight_def)
  qed
qed

lemma tunnel_parse_not_pending: "tunnel_parse t \<noteq> (Some Pending, t')"
  by (auto simp: tunnel_parse_def Let_def split: tunnel_read_state.splits option.splits prod.splits if_splits)

lemma tunnel_datagram_pending: "tunnel_datagram t = (Pending, t') \<Longrightarrow> tunnel_rank t' < tunnel_rank t"
proof (induction t rule: tunnel_datagram.induct)
  case (1 t)
  obtain x t1 where x: "tunnel_round t = (x, t1)" by (cases "tunnel_round t")
  show ?case
  proof (cases x)
    case None
    then show ?thesis using 1 x tunnel_round_rank [of t t1] by (fastforce simp: tunnel_datagram.simps [of t])
  next
    case (Some r)
    then have p: "tunnel_round t = (Some Pending, t')" using 1(2) x by (simp add: tunnel_datagram.simps [of t])
    let ?t = "t\<lparr>tn_plain := [], tn_plain_pos := 0\<rparr>"
    have "tunnel_fill ?t = (Pending, t')"
      using p tunnel_parse_not_pending
      by (auto simp: tunnel_round_def Let_def split: if_splits prod.splits poll.splits sum.splits)
    then show ?thesis using tunnel_fill_pending [of ?t t'] by (simp add: tunnel_rank_def tunnel_weight_def)
  qed
qed

lemma tunnel_poll_recv_pending: "tunnel_poll_recv t = (Pending, t') \<Longrightarrow> tunnel_rank t' < tunnel_rank t"
  by (auto simp: tunnel_poll_recv_def split: prod.splits poll.splits sum.splits bool.splits intro: tunnel_datagram_pending)

text \<open>\<^verbatim>\<open>recv_from().await\<close>.\<close>

function tunnel_recv_from :: "tunnel \<Rightarrow> (io_error + (bytes \<times> string \<times> u16) option) \<times> tunnel" where
  "tunnel_recv_from t =
     (case tunnel_poll_recv t of
        (Pending, t') \<Rightarrow> tunnel_recv_from t'
      | (Ready r, t') \<Rightarrow> (r, t'))"
  by pat_completeness auto
termination
  by (relation "measure tunnel_rank") (auto intro: tunnel_poll_recv_pending [OF sym])

declare tunnel_recv_from.simps [simp del]

lemma tunnel_flush_pending:
  "tunnel_flush_out t = (Pending, t') \<Longrightarrow>
   length (w_acc (tn_inner t')) < length (w_acc (tn_inner t))"
proof (induction t arbitrary: t' rule: tunnel_flush_out.induct)
  case (1 t)
  obtain x w where w: "wire_write (drop (tn_out_pos t) (tn_out t)) (tn_inner t) = (x, w)"
    by (cases "wire_write (drop (tn_out_pos t) (tn_out t)) (tn_inner t)")
  have le: "length (w_acc w) \<le> length (w_acc (tn_inner t))" "x = Pending \<Longrightarrow> length (w_acc w) < length (w_acc (tn_inner t))"
    using w by (auto simp: wire_write_def split: list.splits wr_event.splits)
  have True: "tn_out_pos t < length (tn_out t)" using 1(2) by (auto simp: tunnel_flush_out.simps [of t] split: if_splits)
  show ?case
  proof (cases x)
    case Pending
    then show ?thesis using 1(2) True w le by (auto simp: tunnel_flush_out.simps [of t])
  next
    case (Ready y)
    then obtain n where y: "y = Inr n" "n \<noteq> 0"
      using 1(2) True w by (auto simp: tunnel_flush_out.simps [of t] split: sum.splits if_splits)
    then show ?thesis using 1(2) True w Ready 1(1) [OF True w [symmetric] Ready y] le
      by (fastforce simp: tunnel_flush_out.simps [of t])
  qed
qed

function tunnel_await_flush :: "tunnel \<Rightarrow> (io_error + unit) \<times> tunnel" where
  "tunnel_await_flush t =
     (case tunnel_flush_out t of
        (Pending, t') \<Rightarrow> tunnel_await_flush t'
      | (Ready r, t') \<Rightarrow> (r, t'))"
  by pat_completeness auto
termination
  by (relation "measure (\<lambda>t. length (w_acc (tn_inner t)))") (auto intro: tunnel_flush_pending [OF sym])

declare tunnel_await_flush.simps [simp del]

definition tunnel_send_to :: "bytes \<Rightarrow> string \<Rightarrow> u16 \<Rightarrow> tunnel \<Rightarrow> (io_error + unit) \<times> tunnel" where
  "tunnel_send_to data host port t =
     (case tunnel_await_flush t of
        (Inl e, t) \<Rightarrow> (Inl e, t)
      | (Inr _, t) \<Rightarrow>
          (case queue_datagram host port data t of
             (Inl e, t) \<Rightarrow> (Inl e, t)
           | (Inr _, t) \<Rightarrow> tunnel_await_flush t))"

section \<open>What a tunnel stream means\<close>

text \<open>The next frame of a byte string.\<close>

datatype frame_view = Short | BadAtyp u8 | BadAddress bytes | Frame u8 string u16 bytes bytes

definition next_frame :: "bytes \<Rightarrow> frame_view" where
  "next_frame bs =
     (if length bs < 5 then Short
      else case head_hlen bs of
        None \<Rightarrow> BadAtyp (bs ! 3)
      | Some hlen \<Rightarrow>
          let dlen = head_dlen bs
          in if length bs < hlen + dlen then Short
             else case parse_udp_datagram (take hlen bs) of
               None \<Rightarrow> BadAddress (drop (hlen + dlen) bs)
             | Some (frag, host, port, off) \<Rightarrow> Frame frag host port (take dlen (drop hlen bs)) (drop (hlen + dlen) bs))"

text \<open>
  What one receive gives on a stream that delivers \<open>bs\<close> and then ends or fails with \<open>e\<close>:
  fragments and empty datagrams are passed over.
\<close>

lemma head_hlen_ge: "head_hlen b = Some h \<Longrightarrow> 7 \<le> h"
  by (auto simp: head_hlen_def split: if_splits)

lemma next_frame_shorter: "next_frame bs = Frame frag h p d r \<Longrightarrow> length r < length bs"
  using head_hlen_ge by (fastforce simp: next_frame_def Let_def split: if_splits option.splits prod.splits)

function spec_recv :: "io_error option \<Rightarrow> bytes \<Rightarrow> (io_error + (bytes \<times> string \<times> u16) option) \<times> bytes" where
  "spec_recv e bs =
     (case next_frame bs of
        Short \<Rightarrow> (case e of Some err \<Rightarrow> Inl err | None \<Rightarrow> if bs = [] then Inr None else Inl truncated, bs)
      | BadAtyp a \<Rightarrow> (Inl (bad_atyp a), bs)
      | BadAddress r \<Rightarrow> (Inl bad_address, r)
      | Frame frag h p d r \<Rightarrow>
          if frag \<noteq> 0 \<or> d = [] then spec_recv e r else (Inr (Some (d, h, p)), r))"
  by pat_completeness auto
termination
  by (relation "measure (\<lambda>(_, bs). length bs)") (auto dest: next_frame_shorter)

declare spec_recv.simps [simp del]

definition tn_stream :: "tunnel \<Rightarrow> bytes" where
  "tn_stream t = tn_buf t @ arrives (w_in (tn_inner t))"

abbreviation tn_ending :: "tunnel \<Rightarrow> io_error option" where
  "tn_ending t \<equiv> ending (w_in (tn_inner t))"

definition tunnel_ok :: "tunnel \<Rightarrow> bool" where
  "tunnel_ok t \<longleftrightarrow> length (tn_buf t) \<le> tn_need t \<and>
     (case tn_state t of
        THead \<Rightarrow> tn_need t = UDP_TUN_HEAD_LEN
      | TBody h d \<Rightarrow> 5 \<le> length (tn_buf t) \<and> head_hlen (tn_buf t) = Some h \<and> head_dlen (tn_buf t) = d \<and> tn_need t = h + d
      | TEof \<Rightarrow> True)"

definition exhausted :: "tunnel \<Rightarrow> bool" where
  "exhausted t \<longleftrightarrow> length (tn_plain t) \<le> tn_plain_pos t"

lemma tunnel_ok_plain [simp]:
  "tunnel_ok (t\<lparr>tn_plain := p, tn_plain_pos := n\<rparr>) = tunnel_ok t"
  "tn_stream (t\<lparr>tn_plain := p, tn_plain_pos := n\<rparr>) = tn_stream t"
  by (cases "tn_state t"; simp add: tunnel_ok_def tn_stream_def)+

section \<open>The state machine refines the stream\<close>

lemma wire_read_ending:
  assumes "wire_read cap w = (r, w')"
  shows "(\<And>e. r \<noteq> Ready (Inl e)) \<Longrightarrow> ending (w_in w') = ending (w_in w)"
    "r = Ready (Inl e) \<Longrightarrow> arrives (w_in w) = [] \<and> ending (w_in w) = Some e"
    "r = Ready (Inr []) \<Longrightarrow> 0 < cap \<Longrightarrow> ending (w_in w) = None"
  using assms by (cases rule: wire_read_cases [of w cap]; auto)+

text \<open>What filling keeps: everything but the stream and the buffer.\<close>

definition tn_frame :: "tunnel \<Rightarrow> tunnel" where
  "tn_frame t = t\<lparr>tn_inner := \<lparr>w_in = [], w_out = [], w_acc = [], w_fin = False\<rparr>, tn_buf := []\<rparr>"

lemma tunnel_fill_spec:
  assumes "length (tn_buf t) \<le> tn_need t" "tunnel_fill t = (r, t')"
  shows "tn_frame t' = tn_frame t \<and> prefix (tn_buf t) (tn_buf t') \<and> length (tn_buf t') \<le> tn_need t \<and>
    (case r of
       Pending \<Rightarrow> tn_stream t' = tn_stream t \<and> tn_ending t' = tn_ending t
     | Ready (Inr True) \<Rightarrow> tn_stream t' = tn_stream t \<and> tn_ending t' = tn_ending t \<and> length (tn_buf t') = tn_need t
     | Ready (Inr False) \<Rightarrow> tn_buf t' = tn_stream t \<and> tn_ending t = None \<and> length (tn_stream t) < tn_need t
     | Ready (Inl e) \<Rightarrow> tn_buf t' = tn_stream t \<and> tn_ending t = Some e \<and> length (tn_stream t) < tn_need t)"
  using assms
proof (induction t arbitrary: r t' rule: tunnel_fill.induct)
  case (1 t)
  let ?cap = "tn_need t - length (tn_buf t)"
  obtain x w where w: "wire_read ?cap (tn_inner t) = (x, w)" by (cases "wire_read ?cap (tn_inner t)")
  show ?case
  proof (cases "length (tn_buf t) < tn_need t")
    case True
    note en = wire_read_ending [OF w]
    show ?thesis
    proof (cases x)
      case Pending
      then show ?thesis using 1(2,3) True w wires.read_pends [of ?cap "tn_inner t" w] en(1)
        by (auto simp: tunnel_fill.simps [of t] tn_stream_def tn_frame_def)
    next
      case (Ready y)
      show ?thesis
      proof (cases y)
        case (Inl e)
        then show ?thesis using 1(2,3) True w Ready en(2) [of e]
          by (auto simp: tunnel_fill.simps [of t] tn_stream_def tn_frame_def)
      next
        case (Inr bs)
        have d: "arrives (w_in (tn_inner t)) = bs @ arrives (w_in w)" "length bs \<le> ?cap"
          using wires.read_delivers [of ?cap "tn_inner t" bs w] w Ready Inr by auto
        show ?thesis
        proof (cases "bs = []")
          case e: True
          have "arrives (w_in (tn_inner t)) = []" "tn_ending t = None"
            using wires.read_ends [of ?cap "tn_inner t" w] en(3) w Ready Inr e True by auto
          then show ?thesis using 1(2,3) True w Ready Inr e
            by (auto simp: tunnel_fill.simps [of t] tn_stream_def tn_frame_def)
        next
          case False
          let ?t = "t\<lparr>tn_inner := w, tn_buf := tn_buf t @ bs\<rparr>"
          have f: "tunnel_fill ?t = (r, t')" using 1(3) True w Ready Inr False by (simp add: tunnel_fill.simps [of t])
          have q: "tn_stream ?t = tn_stream t" "tn_ending ?t = tn_ending t" "tn_frame ?t = tn_frame t"
            "tn_need ?t = tn_need t" "tn_buf ?t = tn_buf t @ bs"
            using d en(1) Ready Inr by (simp_all add: tn_stream_def tn_frame_def)
          have "length (tn_buf ?t) \<le> tn_need ?t" using d(2) True by simp
          note ih = 1(1) [OF True w [symmetric] Ready Inr False this f, unfolded q]
          from ih have "prefix (tn_buf t) (tn_buf t')" by (blast intro: append_prefixD)
          with ih show ?thesis by blast
        qed
      qed
    qed
  next
    case False
    then show ?thesis using 1(2,3) by (auto simp: tunnel_fill.simps [of t])
  qed
qed

lemma tn_frame_fields:
  assumes "tn_frame t' = tn_frame t"
  shows "tn_state t' = tn_state t" "tn_need t' = tn_need t" "tn_plain t' = tn_plain t" "tn_plain_pos t' = tn_plain_pos t"
  using arg_cong [OF assms, of tn_state] arg_cong [OF assms, of tn_need] arg_cong [OF assms, of tn_plain]
    arg_cong [OF assms, of tn_plain_pos] by (simp_all add: tn_frame_def)

lemma head_append:
  assumes "5 \<le> length b"
  shows "head_hlen (b @ r) = head_hlen b" "head_dlen (b @ r) = head_dlen b"
  using assms by (auto simp: head_hlen_def head_dlen_def nth_append)

text \<open>One round of the loop on a connection with no datagram in hand.\<close>

lemma tunnel_parse_spec:
  assumes "tunnel_ok t" "length (tn_buf t) = tn_need t" "tn_state t \<noteq> TEof" "exhausted t" "tn_plain t = []" "tn_plain_pos t = 0"
    "tunnel_parse t = (x, t')"
  shows "case x of
      None \<Rightarrow> tunnel_ok t' \<and> tn_state t' \<noteq> TEof \<and> tn_ending t' = tn_ending t \<and>
        (if exhausted t' then spec_recv e (tn_stream t') = spec_recv e (tn_stream t)
         else tn_plain_pos t' = 0 \<and> spec_recv e (tn_stream t) = (Inr (Some (tn_plain t', tn_plain_host t', tn_plain_port t')), tn_stream t'))
    | Some (Ready (Inl err)) \<Rightarrow> fst (spec_recv e (tn_stream t)) = Inl err
    | Some _ \<Rightarrow> False"
proof (cases "tn_state t")
  case THead
  then have l: "length (tn_buf t) = 5" using assms(1,2) by (simp add: tunnel_ok_def UDP_TUN_HEAD_LEN_def)
  then have l': "\<not> length (tn_stream t) < 5" "tn_stream t ! 3 = tn_buf t ! 3" by (simp_all add: tn_stream_def nth_append)
  have h: "head_hlen (tn_stream t) = head_hlen (tn_buf t)" unfolding tn_stream_def using l by (simp add: head_append)
  show ?thesis
  proof (cases "head_hlen (tn_buf t)")
    case None
    then have "next_frame (tn_stream t) = BadAtyp (tn_buf t ! 3)" using h l' by (simp add: next_frame_def)
    then have "fst (spec_recv e (tn_stream t)) = Inl (bad_atyp (tn_buf t ! 3))" by (subst spec_recv.simps) simp
    then show ?thesis using assms(7) THead None by (auto simp: tunnel_parse_def)
  next
    case (Some hl)
    then have "t' = t\<lparr>tn_state := TBody hl (head_dlen (tn_buf t)), tn_need := hl + head_dlen (tn_buf t)\<rparr>" "x = None"
      using assms(7) THead by (auto simp: tunnel_parse_def Let_def)
    then show ?thesis using assms(5,6) Some l head_hlen_ge [OF Some]
      by (simp add: tunnel_ok_def exhausted_def) (simp add: tn_stream_def)
  qed
next
  case (TBody h d)
  define rest where "rest = arrives (w_in (tn_inner t))"
  have st: "tn_stream t = tn_buf t @ rest" by (simp add: tn_stream_def rest_def)
  have l: "length (tn_buf t) = h + d" "5 \<le> length (tn_buf t)" "head_hlen (tn_buf t) = Some h" "head_dlen (tn_buf t) = d"
    using assms(1,2) TBody by (simp_all add: tunnel_ok_def)
  have nf: "next_frame (tn_stream t) = (case parse_udp_datagram (take h (tn_buf t)) of
      None \<Rightarrow> BadAddress rest
    | Some (frag, host, port, off) \<Rightarrow> Frame frag host port (take d (drop h (tn_buf t))) rest)"
    using l by (simp add: next_frame_def st head_append split: option.splits)
  show ?thesis
  proof (cases "parse_udp_datagram (take h (tn_buf t))")
    case None
    with nf have "fst (spec_recv e (tn_stream t)) = Inl bad_address" by (subst spec_recv.simps) simp
    then show ?thesis using assms(7) TBody None by (auto simp: tunnel_parse_def)
  next
    case (Some q)
    obtain frag host port off where q: "q = (frag, host, port, off)" by (cases q)
    note nf' = nf [unfolded Some q, simplified]
    have p: "tunnel_ok (t\<lparr>tn_buf := [], tn_state := THead, tn_need := UDP_TUN_HEAD_LEN\<rparr>)" by (simp add: tunnel_ok_def)
    have dl: "length (take d (drop h (tn_buf t))) = d" using l by simp
    show ?thesis
    proof (cases "frag = 0")
      case False
      then have "t' = t\<lparr>tn_buf := [], tn_state := THead, tn_need := UDP_TUN_HEAD_LEN\<rparr>" "x = None"
        using assms(7) TBody Some q by (auto simp: tunnel_parse_def)
      moreover have "spec_recv e (tn_stream t) = spec_recv e rest" using False nf' by (subst spec_recv.simps) simp
      ultimately show ?thesis using assms(5,6) p
        by (simp add: exhausted_def) (simp add: tn_stream_def rest_def)
    next
      case True
      then have "t' = t\<lparr>tn_buf := [], tn_state := THead, tn_need := UDP_TUN_HEAD_LEN, tn_plain_host := host, tn_plain_port := port,
          tn_plain := take d (drop h (tn_buf t)), tn_plain_pos := 0\<rparr>" "x = None"
        using assms(7) TBody Some q by (auto simp: tunnel_parse_def)
      moreover have "spec_recv e (tn_stream t) = (if take d (drop h (tn_buf t)) = [] then spec_recv e rest
          else (Inr (Some (take d (drop h (tn_buf t)), host, port)), rest))"
        using True nf' by (subst spec_recv.simps) simp
      moreover have "tn_stream t' = rest" using calculation(1) by (simp add: tn_stream_def rest_def)
      ultimately show ?thesis by (auto simp: tunnel_ok_def exhausted_def)
    qed
  qed
qed (use assms in simp)

lemma next_frame_short:
  assumes "tunnel_ok t" "tn_state t \<noteq> TEof" "length (tn_stream t) < tn_need t"
  shows "next_frame (tn_stream t) = Short"
proof (cases "tn_state t")
  case THead
  then show ?thesis using assms by (simp add: tunnel_ok_def next_frame_def UDP_TUN_HEAD_LEN_def)
next
  case (TBody h d)
  then show ?thesis using assms by (simp add: tunnel_ok_def next_frame_def tn_stream_def head_append)
qed (use assms in simp)

lemma tunnel_ok_fill:
  assumes "tunnel_ok t" "tn_frame t' = tn_frame t" "prefix (tn_buf t) (tn_buf t')" "length (tn_buf t') \<le> tn_need t"
  shows "tunnel_ok t'"
proof -
  obtain r where "tn_buf t' = tn_buf t @ r" using assms(3) by (auto simp: prefix_def)
  then show ?thesis using assms(1,4) tn_frame_fields [OF assms(2)]
    by (auto simp: tunnel_ok_def head_append split: tunnel_read_state.splits)
qed

lemma tunnel_round_spec:
  assumes "tunnel_ok t" "exhausted t" "tn_state t \<noteq> TEof" "tunnel_round t = (x, t')"
  shows "case x of
      None \<Rightarrow> tunnel_ok t' \<and> tn_state t' \<noteq> TEof \<and> tn_ending t' = tn_ending t \<and>
        (if exhausted t' then spec_recv (tn_ending t) (tn_stream t') = spec_recv (tn_ending t) (tn_stream t)
         else tn_plain_pos t' = 0 \<and> spec_recv (tn_ending t) (tn_stream t) =
            (Inr (Some (tn_plain t', tn_plain_host t', tn_plain_port t')), tn_stream t'))
    | Some Pending \<Rightarrow> tunnel_ok t' \<and> exhausted t' \<and> tn_state t' \<noteq> TEof \<and> tn_ending t' = tn_ending t \<and> tn_stream t' = tn_stream t
    | Some (Ready (Inr True)) \<Rightarrow> False
    | Some (Ready (Inr False)) \<Rightarrow> fst (spec_recv (tn_ending t) (tn_stream t)) = Inr None \<and> tn_state t' = TEof
    | Some (Ready (Inl err)) \<Rightarrow> fst (spec_recv (tn_ending t) (tn_stream t)) = Inl err"
proof -
  define t1 where "t1 = t\<lparr>tn_plain := [], tn_plain_pos := 0\<rparr>"
  have t1: "tunnel_ok t1" "tn_state t1 = tn_state t" "tn_stream t1 = tn_stream t" "tn_ending t1 = tn_ending t" "tn_plain t1 = []" "tn_plain_pos t1 = 0"
    using assms(1) by (simp_all add: t1_def)
  obtain r t2 where f: "tunnel_fill t1 = (r, t2)" by (cases "tunnel_fill t1")
  have "length (tn_buf t1) \<le> tn_need t1" using t1(1) by (simp add: tunnel_ok_def)
  note fs = tunnel_fill_spec [OF this f, unfolded t1]
  note ff = tn_frame_fields [OF conjunct1 [OF fs], unfolded t1]
  have ok2: "tunnel_ok t2" using tunnel_ok_fill [OF t1(1)] fs by blast
  have ex: "exhausted t2" using ff by (simp add: exhausted_def)
  have rd: "tunnel_round t = (case r of
      Pending \<Rightarrow> (Some Pending, t2)
    | Ready (Inl e) \<Rightarrow> (Some (Ready (Inl e)), t2)
    | Ready (Inr full) \<Rightarrow> if full then tunnel_parse t2
        else if tn_buf t2 = [] \<and> tn_state t2 = THead then (Some (Ready (Inr False)), t2\<lparr>tn_state := TEof\<rparr>)
        else (Some (Ready (Inl truncated)), t2))"
    using assms(2,3) f by (simp add: tunnel_round_def exhausted_def t1_def [symmetric] t1 split: poll.splits sum.splits)
  have short: "spec_recv (tn_ending t) (tn_stream t) =
      (case tn_ending t of Some err \<Rightarrow> Inl err | None \<Rightarrow> if tn_stream t = [] then Inr None else Inl truncated, tn_stream t)"
    if "length (tn_stream t) < tn_need t1"
  proof -
    have "next_frame (tn_stream t) = Short"
      using next_frame_short [OF t1(1)] that assms(3) by (simp add: t1)
    then show ?thesis by (subst spec_recv.simps) simp
  qed
  consider (p) "r = Pending" | (e) e where "r = Ready (Inl e)" | (T) "r = Ready (Inr True)" | (F) "r = Ready (Inr False)"
    by (cases r) (metis old.sum.exhaust)+
  then show ?thesis
  proof cases
    case p
    then show ?thesis using rd assms(3,4) fs ff ok2 ex by auto
  next
    case e
    then show ?thesis using rd assms(4) fs short by auto
  next
    case T
    have st: "tn_stream t2 = tn_stream t" "tn_ending t2 = tn_ending t" "length (tn_buf t2) = tn_need t2"
      using fs ff T by simp_all
    have "tunnel_parse t2 = (x, t')" "tn_state t2 \<noteq> TEof" "tn_plain t2 = []" "tn_plain_pos t2 = 0"
      using rd assms(3,4) T ff by simp_all
    from tunnel_parse_spec [OF ok2 st(3) this(2) ex this(3,4,1), of "tn_ending t", unfolded st] show ?thesis
      by (cases x) (auto split: poll.splits sum.splits)
  next
    case F
    have "tn_state t \<noteq> THead \<Longrightarrow> tn_stream t \<noteq> []"
      using assms(1,3) by (cases "tn_state t") (auto simp: tunnel_ok_def tn_stream_def)
    then show ?thesis using F rd assms(4) fs short ff by (auto split: if_splits)
  qed
qed

lemma tunnel_datagram_spec:
  assumes "tunnel_ok t" "exhausted t" "tn_state t \<noteq> TEof" "tunnel_datagram t = (x, t')"
  shows "case x of
      Pending \<Rightarrow> tunnel_ok t' \<and> exhausted t' \<and> tn_state t' \<noteq> TEof \<and> tn_ending t' = tn_ending t \<and>
        spec_recv (tn_ending t) (tn_stream t') = spec_recv (tn_ending t) (tn_stream t)
    | Ready (Inr True) \<Rightarrow> tunnel_ok t' \<and> tn_state t' \<noteq> TEof \<and> tn_ending t' = tn_ending t \<and> tn_plain_pos t' = 0 \<and>
        spec_recv (tn_ending t) (tn_stream t) = (Inr (Some (tn_plain t', tn_plain_host t', tn_plain_port t')), tn_stream t')
    | Ready (Inr False) \<Rightarrow> fst (spec_recv (tn_ending t) (tn_stream t)) = Inr None \<and> tn_state t' = TEof
    | Ready (Inl err) \<Rightarrow> fst (spec_recv (tn_ending t) (tn_stream t)) = Inl err"
  using assms
proof (induction t rule: tunnel_datagram.induct)
  case (1 t)
  obtain y t1 where y: "tunnel_round t = (y, t1)" by (cases "tunnel_round t")
  note rs = tunnel_round_spec [OF 1(2,3,4) y]
  show ?case
  proof (cases y)
    case (Some r)
    then have "r = x" "t1 = t'" using 1(5) y by (simp_all add: tunnel_datagram.simps [of t])
    then show ?thesis using rs Some by (auto split: poll.splits sum.splits bool.splits)
  next
    case None
    then have d: "tunnel_datagram t1 = (x, t')" using 1(5) y by (simp add: tunnel_datagram.simps [of t])
    show ?thesis
    proof (cases "exhausted t1")
      case True
      then show ?thesis using 1(1) [OF y [symmetric] None _ True _ d] rs None
        by (auto split: poll.splits sum.splits bool.splits)
    next
      case False
      then have "tunnel_round t1 = (Some (Ready (Inr True)), t1)" by (simp add: tunnel_round_def exhausted_def)
      then have "x = Ready (Inr True)" "t' = t1" using d by (simp_all add: tunnel_datagram.simps [of t1])
      then show ?thesis using rs None False by simp
    qed
  qed
qed

lemma tunnel_recv_spec:
  assumes "tunnel_ok t" "exhausted t" "tn_state t \<noteq> TEof"
  shows "fst (tunnel_recv_from t) = fst (spec_recv (tn_ending t) (tn_stream t)) \<and>
    (\<forall>dg. fst (tunnel_recv_from t) = Inr (Some dg) \<longrightarrow>
       tn_stream (snd (tunnel_recv_from t)) = snd (spec_recv (tn_ending t) (tn_stream t)) \<and>
       tn_ending (snd (tunnel_recv_from t)) = tn_ending t \<and>
       tunnel_ok (snd (tunnel_recv_from t)) \<and> exhausted (snd (tunnel_recv_from t)) \<and> tn_state (snd (tunnel_recv_from t)) \<noteq> TEof)"
  using assms
proof (induction t rule: tunnel_recv_from.induct)
  case (1 t)
  obtain x t1 where x: "tunnel_datagram t = (x, t1)" by (cases "tunnel_datagram t")
  note ds = tunnel_datagram_spec [OF 1(2,3,4) x]
  consider (p) "x = Pending" | (e) e where "x = Ready (Inl e)" | (T) "x = Ready (Inr True)" | (F) "x = Ready (Inr False)"
    by (cases x) (metis old.sum.exhaust)+
  then show ?case
  proof cases
    case p
    then have q: "tunnel_poll_recv t = (Pending, t1)" using x by (simp add: tunnel_poll_recv_def)
    show ?thesis using 1(1) [OF q [symmetric] refl] ds p q by (simp add: tunnel_recv_from.simps [of t])
  next
    case e
    then show ?thesis using x ds by (simp add: tunnel_recv_from.simps [of t] tunnel_poll_recv_def)
  next
    case T
    then show ?thesis using x ds
      by (simp add: tunnel_recv_from.simps [of t] tunnel_poll_recv_def exhausted_def)
  next
    case F
    then show ?thesis using x ds by (simp add: tunnel_recv_from.simps [of t] tunnel_poll_recv_def)
  qed
qed

section \<open>Two ends\<close>

lemma next_frame_encoded:
  assumes "host_fits h" "length d \<le> 65535"
  shows "next_frame (encode_udp_tunnel_datagram h p d @ rest) = Frame 0 (canon_host h) p d rest"
proof -
  let ?a = "encode_address h p"
  obtain x y where xy: "u16_to_be (usize_as_u16 (length d)) = [x, y]" by (simp add: u16_to_be_def)
  have be: "unat (u16_from_be x y) = length d"
    using u16_be_nth [of "usize_as_u16 (length d)"] xy unat_usize_as_u16 [of "length d"] assms(2) by simp
  have bytes: "encode_udp_tunnel_datagram h p d @ rest = [x, y, 0] @ ?a @ d @ rest"
    by (simp add: encode_udp_tunnel_datagram_def xy)
  define bs n where "bs = [x, y, 0] @ ?a @ d @ rest" and "n = 3 + length ?a"
  have dl: "head_dlen bs = length d" by (simp add: head_dlen_def be bs_def)
  have hl: "head_hlen bs = Some n" "4 \<le> length ?a"
    using assms(1) by (cases rule: encode_address_cases [of h p];
      simp add: head_hlen_def atyp_consts host_fits_def unat_usize_as_u8 bs_def n_def)+
  have td: "take n bs = [x, y, 0] @ ?a @ []" "drop n bs = d @ rest" "drop (n + length d) bs = rest"
      "length bs = n + length d + length rest"
    by (simp_all add: bs_def n_def numeral_3_eq_3)
  have "parse_udp_datagram (take n bs) = Some (0, canon_host h, p, 3 + length ?a)"
    unfolding td(1) by (rule parse_udp_datagram_encode [OF assms(1)])
  moreover have "\<not> length bs < 5" using td(4) hl(2) by (simp add: n_def)
  ultimately have "next_frame bs = Frame 0 (canon_host h) p d rest"
    by (simp add: next_frame_def dl hl(1) td)
  then show ?thesis by (simp only: bytes bs_def)
qed

lemma tunnel_flush_out_spec:
  assumes "tunnel_flush_out t = (r, t')"
  shows "tn_taddr t' = tn_taddr t \<and>
    (case r of
       Ready (Inr _) \<Rightarrow> w_out (tn_inner t') = w_out (tn_inner t) @ drop (tn_out_pos t) (tn_out t) \<and> tn_out t' = [] \<and> tn_out_pos t' = 0
     | Ready (Inl _) \<Rightarrow> True
     | Pending \<Rightarrow> w_out (tn_inner t') @ drop (tn_out_pos t') (tn_out t') = w_out (tn_inner t) @ drop (tn_out_pos t) (tn_out t))"
  using assms
proof (induction t arbitrary: r t' rule: tunnel_flush_out.induct)
  case (1 t)
  let ?o = "drop (tn_out_pos t) (tn_out t)"
  obtain x w where w: "wire_write ?o (tn_inner t) = (x, w)" by (cases "wire_write ?o (tn_inner t)")
  show ?case
  proof (cases "tn_out_pos t < length (tn_out t)")
    case True
    consider (p) "x = Pending" "w_out w = w_out (tn_inner t)" | (e) e where "x = Ready (Inl e)"
      | (n) n where "x = Ready (Inr n)" "w_out w = w_out (tn_inner t) @ take n ?o"
      using w by (auto simp: wire_write_def min_def split: list.splits wr_event.splits if_splits)
    then show ?thesis
    proof cases
      case p
      then show ?thesis using 1(2) True w by (auto simp: tunnel_flush_out.simps [of t])
    next
      case e
      then show ?thesis using 1(2) True w by (auto simp: tunnel_flush_out.simps [of t])
    next
      case n
      have sp: "take n ?o @ drop (tn_out_pos t + n) (tn_out t) = ?o"
        by (metis append_take_drop_id drop_drop add.commute)
      show ?thesis
      proof (cases "n = 0")
        case False
        then have "tunnel_flush_out (t\<lparr>tn_inner := w, tn_out_pos := tn_out_pos t + n\<rparr>) = (r, t')"
          using 1(2) True w n by (simp add: tunnel_flush_out.simps [of t])
        from 1(1) [OF True w [symmetric] n(1) refl False this] n(2) sp show ?thesis
          by (cases r) (auto split: sum.splits)
      qed (use 1(2) True w n in \<open>auto simp: tunnel_flush_out.simps [of t]\<close>)
    qed
  next
    case False
    then show ?thesis using 1(2) by (auto simp: tunnel_flush_out.simps [of t])
  qed
qed

lemma tunnel_await_flush_spec:
  "tunnel_await_flush t = (Inr u, t') \<Longrightarrow>
   w_out (tn_inner t') = w_out (tn_inner t) @ drop (tn_out_pos t) (tn_out t) \<and> tn_out t' = [] \<and> tn_out_pos t' = 0"
proof (induction t rule: tunnel_await_flush.induct)
  case (1 t)
  obtain x t1 where x: "tunnel_flush_out t = (x, t1)" by (cases "tunnel_flush_out t")
  note f = tunnel_flush_out_spec [OF x]
  show ?case
  proof (cases x)
    case Pending
    then show ?thesis using 1(1) [OF x [symmetric] Pending] 1(2) x f by (simp add: tunnel_await_flush.simps [of t])
  next
    case (Ready y)
    then show ?thesis using 1(2) x f by (auto simp: tunnel_await_flush.simps [of t] split: sum.splits)
  qed
qed

lemma tunnel_send_to_spec:
  assumes "tunnel_send_to d h p t = (Inr u, t')" "tn_out t = []" "tn_out_pos t = 0"
  shows "w_out (tn_inner t') = w_out (tn_inner t) @ encode_udp_tunnel_datagram h p d \<and> tn_out t' = [] \<and> tn_out_pos t' = 0
    \<and> length d \<le> 65535"
proof -
  obtain t1 v where f: "tunnel_await_flush t = (Inr v, t1)" "length d \<le> 65535"
    "tunnel_await_flush (t1\<lparr>tn_out := tn_out t1 @ encode_udp_tunnel_datagram h p d\<rparr>) = (Inr u, t')"
    using assms(1) by (auto simp: tunnel_send_to_def queue_datagram_def UDP_TUN_MAX_PAYLOAD_def split: prod.splits sum.splits if_splits)
  then show ?thesis using tunnel_await_flush_spec [OF f(1)] tunnel_await_flush_spec [OF f(3)] assms(2,3) by simp
qed

text \<open>A run of sends that all succeed, and a run of receives.\<close>

fun tunnel_send_all :: "(bytes \<times> string \<times> u16) list \<Rightarrow> tunnel \<Rightarrow> (io_error + unit) \<times> tunnel" where
  "tunnel_send_all [] t = (Inr (), t)"
| "tunnel_send_all ((d, h, p) # ds) t =
     (case tunnel_send_to d h p t of (Inl e, t') \<Rightarrow> (Inl e, t') | (Inr _, t') \<Rightarrow> tunnel_send_all ds t')"

fun tunnel_recv_all :: "nat \<Rightarrow> tunnel \<Rightarrow> (io_error + (bytes \<times> string \<times> u16) option) list" where
  "tunnel_recv_all 0 t = []"
| "tunnel_recv_all (Suc n) t = (let (r, t') = tunnel_recv_from t in r # tunnel_recv_all n t')"

definition tunnel_bytes :: "(bytes \<times> string \<times> u16) list \<Rightarrow> bytes" where
  "tunnel_bytes ds = concat (map (\<lambda>(d, h, p). encode_udp_tunnel_datagram h p d) ds)"

text \<open>The datagrams a tunnel can carry, and how they arrive; empty ones are dropped.\<close>

definition dgram_ok :: "bytes \<times> string \<times> u16 \<Rightarrow> bool" where
  "dgram_ok x \<longleftrightarrow> host_fits (fst (snd x)) \<and> length (fst x) \<le> 65535"

definition arrived :: "bytes \<times> string \<times> u16 \<Rightarrow> bytes \<times> string \<times> u16" where
  "arrived x = (fst x, canon_host (fst (snd x)), snd (snd x))"

abbreviation carried :: "(bytes \<times> string \<times> u16) list \<Rightarrow> (bytes \<times> string \<times> u16) list" where
  "carried ds \<equiv> filter (\<lambda>x. fst x \<noteq> []) ds"

lemma tunnel_send_all_spec:
  "tunnel_send_all ds t = (Inr u, t') \<Longrightarrow> tn_out t = [] \<Longrightarrow> tn_out_pos t = 0 \<Longrightarrow>
   w_out (tn_inner t') = w_out (tn_inner t) @ tunnel_bytes ds \<and> list_all (\<lambda>x. length (fst x) \<le> 65535) ds"
proof (induction ds t rule: tunnel_send_all.induct)
  case (2 d h p ds t)
  then obtain v t1 where s: "tunnel_send_to d h p t = (Inr v, t1)" "tunnel_send_all ds t1 = (Inr u, t')"
    by (auto split: prod.splits sum.splits)
  note f = tunnel_send_to_spec [OF s(1) 2(3,4)]
  from 2(1) [OF s(1) [symmetric] refl s(2)] f show ?case by (simp add: tunnel_bytes_def)
qed (simp add: tunnel_bytes_def)

lemma spec_recv_bytes:
  assumes "list_all dgram_ok ds"
  shows "spec_recv None (tunnel_bytes ds) =
    (case carried ds of
       [] \<Rightarrow> (Inr None, [])
     | x # _ \<Rightarrow> (Inr (Some (arrived x)), tunnel_bytes (tl (dropWhile (\<lambda>x. fst x = []) ds))))"
  using assms
proof (induction ds)
  case Nil
  show ?case by (simp add: tunnel_bytes_def spec_recv.simps next_frame_def)
next
  case (Cons x ds)
  obtain d h p where x: "x = (d, h, p)" by (cases x)
  have "next_frame (tunnel_bytes (x # ds)) = Frame 0 (canon_host h) p d (tunnel_bytes ds)"
    using Cons.prems next_frame_encoded [of h d p "tunnel_bytes ds"] by (simp add: x tunnel_bytes_def dgram_ok_def)
  then show ?case using Cons by (subst spec_recv.simps) (auto simp: x arrived_def split: list.splits)
qed

lemma tunnel_recv_all_bytes:
  assumes "list_all dgram_ok ds"
    "tunnel_ok t" "exhausted t" "tn_state t \<noteq> TEof" "tn_ending t = None" "tn_stream t = tunnel_bytes ds"
  shows "tunnel_recv_all (Suc (length (carried ds))) t = map (\<lambda>x. Inr (Some (arrived x))) (carried ds) @ [Inr None]"
  using assms
proof (induction "length (carried ds)" arbitrary: ds t)
  case 0
  then have "carried ds = []" by simp
  then show ?case using spec_recv_bytes [OF 0(2)] tunnel_recv_spec [OF 0(3-5)] 0(6,7)
    by (auto split: prod.splits)
next
  case (Suc n)
  let ?ds = "tl (dropWhile (\<lambda>x. fst x = []) ds)"
  obtain x r where c: "carried ds = x # r" using Suc(2) by (cases "carried ds") auto
  have r: "carried ?ds = r" using c by (induction ds) (auto split: if_splits)
  note sr = spec_recv_bytes [OF Suc(3)] tunnel_recv_spec [OF Suc(4-6)]
  define t' where "t' = snd (tunnel_recv_from t)"
  have st: "tunnel_recv_from t = (Inr (Some (arrived x)), t')"
    "tunnel_ok t'" "exhausted t'" "tn_state t' \<noteq> TEof" "tn_ending t' = None" "tn_stream t' = tunnel_bytes ?ds"
    using sr Suc(7,8) c by (auto simp: t'_def prod_eq_iff)
  have "list_all dgram_ok ?ds"
  proof -
    have "set (tl xs) \<subseteq> set xs" for xs :: "(bytes \<times> string \<times> u16) list" by (cases xs) auto
    then show ?thesis using Suc(3) set_dropWhileD by (fastforce simp: list_all_iff)
  qed
  then have "tunnel_recv_all (Suc (length (carried ?ds))) t' = map (\<lambda>x. Inr (Some (arrived x))) (carried ?ds) @ [Inr None]"
    using Suc(1) [of ?ds t'] st r c Suc(2) by simp
  then show ?case using st(1) c r by simp
qed

section \<open>Properties\<close>

text \<open>C10. The tunnel reader implements the meaning of the byte stream: what a receive returns is
  determined by the bytes the peer sent and how the stream ends, whatever the chunks, the
  polls that find nothing and the state the reader was left in by earlier receives; it
  covers clean ends, truncation, bad address types and malformed addresses.\<close>

theorem tunnel_recv_refines:
  assumes "tunnel_ok t" "exhausted t" "tn_state t \<noteq> TEof" "tunnel_recv_from t = (r, t')"
  shows "r = fst (spec_recv (tn_ending t) (tn_stream t)) \<and>
    (case r of
       Inr (Some dg) \<Rightarrow> tn_stream t' = snd (spec_recv (tn_ending t) (tn_stream t)) \<and> tn_ending t' = tn_ending t \<and>
         tunnel_ok t' \<and> exhausted t' \<and> tn_state t' \<noteq> TEof
     | _ \<Rightarrow> True)"
  using tunnel_recv_spec [OF assms(1-3)] assms(4) by (auto split: sum.splits option.splits)

definition demo_wire :: "rd_event list \<Rightarrow> wire" where
  "demo_wire evs = \<lparr>w_in = evs, w_out = [], w_acc = [], w_fin = False\<rparr>"

lemma tunnel_fresh:
  "tunnel_ok (tunnel_with_taddr w ta b)" "exhausted (tunnel_with_taddr w ta b)"
  "tn_state (tunnel_with_taddr w ta b) \<noteq> TEof" "tn_stream (tunnel_with_taddr w ta b) = arrives (w_in w)"
  "tn_inner (tunnel_with_taddr w ta b) = w" "tn_out (tunnel_with_taddr w ta b) = []" "tn_out_pos (tunnel_with_taddr w ta b) = 0"
  by (simp_all add: tunnel_with_taddr_def tunnel_ok_def exhausted_def tn_stream_def)

theorem tunnel_recv_refines_witness:
  "fst (tunnel_recv_from (tunnel_server (demo_wire [Data [0, 1], Stall, Data [0, 1]]))) = Inl truncated"
proof -
  let ?t = "tunnel_server (demo_wire [Data [0, 1], Stall, Data [0, 1]])"
  have "fst (tunnel_recv_from ?t) = fst (spec_recv (tn_ending ?t) (tn_stream ?t))"
    using tunnel_recv_refines [of ?t "fst (tunnel_recv_from ?t)" "snd (tunnel_recv_from ?t)"]
    by (simp add: tunnel_server_def tunnel_fresh)
  also have "\<dots> = Inl truncated"
    by (simp add: tunnel_server_def tunnel_fresh demo_wire_def spec_recv.simps next_frame_def)
  finally show ?thesis .
qed

text \<open>C24. Datagrams sent over a tunnel arrive: after a run of successful sends the other end, fed the
  bytes that were written in chunks of any size, receives exactly the datagrams that were not
  empty, in order, whole, with their addresses in canonical form, and then the end of the
  stream.\<close>

theorem udp_tunnel_delivery:
  assumes "tunnel_send_all ds (tunnel_with_taddr w\<^sub>1 ta\<^sub>1 b\<^sub>1) = (Inr (), t)" "w_out w\<^sub>1 = []"
    "list_all (\<lambda>x. host_fits (fst (snd x))) ds"
    "arrives (w_in w\<^sub>2) = w_out (tn_inner t)" "ending (w_in w\<^sub>2) = None"
  shows "tunnel_recv_all (Suc (length (carried ds))) (tunnel_with_taddr w\<^sub>2 ta\<^sub>2 b\<^sub>2) =
    map (\<lambda>x. Inr (Some (arrived x))) (carried ds) @ [Inr None]"
proof (rule tunnel_recv_all_bytes)
  have s: "w_out (tn_inner t) = tunnel_bytes ds \<and> list_all (\<lambda>x. length (fst x) \<le> 65535) ds"
    using tunnel_send_all_spec [OF assms(1)] assms(2) by (simp add: tunnel_fresh)
  then show "list_all dgram_ok ds" using assms(3) by (simp add: dgram_ok_def list_all_iff)
  show "tn_stream (tunnel_with_taddr w\<^sub>2 ta\<^sub>2 b\<^sub>2) = tunnel_bytes ds" using s assms(4) by (simp add: tunnel_fresh)
qed (use assms(5) in \<open>simp_all add: tunnel_fresh\<close>)

text \<open>Over a stream that takes every write, sends succeed.\<close>

lemma tunnel_flush_free:
  "w_acc (tn_inner t) = [] \<Longrightarrow> \<exists>t'. tunnel_await_flush t = (Inr (), t') \<and> w_acc (tn_inner t') = []"
  by (cases "tn_out_pos t < length (tn_out t)")
    (simp_all add: tunnel_await_flush.simps [of t] tunnel_flush_out.simps [of t] tunnel_flush_out.simps wire_write_def)

lemma tunnel_send_free:
  assumes "list_all (\<lambda>x. length (fst x) \<le> 65535) ds" "w_acc (tn_inner t) = []"
  shows "\<exists>t'. tunnel_send_all ds t = (Inr (), t')"
  using assms
proof (induction ds arbitrary: t)
  case (Cons x ds)
  obtain d h p where x: "x = (d, h, p)" by (cases x)
  obtain t1 where t1: "tunnel_await_flush t = (Inr (), t1)" "w_acc (tn_inner t1) = []"
    using tunnel_flush_free [OF Cons.prems(2)] by auto
  let ?t = "t1\<lparr>tn_out := tn_out t1 @ encode_udp_tunnel_datagram h p d\<rparr>"
  obtain t2 where t2: "tunnel_await_flush ?t = (Inr (), t2)" "w_acc (tn_inner t2) = []"
    using tunnel_flush_free [of ?t] t1(2) by auto
  have "tunnel_send_to d h p t = (Inr (), t2)"
    using t1 t2 Cons.prems(1) by (simp add: tunnel_send_to_def queue_datagram_def UDP_TUN_MAX_PAYLOAD_def x)
  then show ?case using Cons.IH [of t2] Cons.prems(1) t2(2) by (simp add: x)
qed simp

theorem udp_tunnel_delivery_witness:
  "\<exists>t. tunnel_send_all [([1, 2], ''dns.lan'', 53), ([], ''dns.lan'', 53), ([3], ''dns.lan'', 54)]
         (tunnel_with_taddr (demo_wire []) (''0.0.0.0'', 0) None) = (Inr (), t) \<and>
     tunnel_recv_all 3 (tunnel_with_taddr (demo_wire (map (\<lambda>b. Data [b]) (w_out (tn_inner t)))) (''0.0.0.0'', 0) None) =
       [Inr (Some (arrived ([1, 2], ''dns.lan'', 53))), Inr (Some (arrived ([3], ''dns.lan'', 54))), Inr None]"
proof -
  let ?ds = "[([1, 2], ''dns.lan'', 53), ([], ''dns.lan'', 53), ([3], ''dns.lan'', 54)] :: (bytes \<times> string \<times> u16) list"
  obtain t where t: "tunnel_send_all ?ds (tunnel_with_taddr (demo_wire []) (''0.0.0.0'', 0) None) = (Inr (), t)"
    using tunnel_send_free [of ?ds "tunnel_with_taddr (demo_wire []) (''0.0.0.0'', 0) None"]
    by (auto simp: tunnel_fresh demo_wire_def)
  have a: "arrives (map (\<lambda>b. Data [b]) bs) = bs" "ending (map (\<lambda>b. Data [b]) bs) = None" for bs by (induction bs) auto
  have h: "host_fits ''dns.lan''" by (simp add: host_fits_def byte_in_def)
  have "tunnel_recv_all (Suc (length (carried ?ds)))
      (tunnel_with_taddr (demo_wire (map (\<lambda>b. Data [b]) (w_out (tn_inner t)))) (''0.0.0.0'', 0) None) =
      map (\<lambda>x. Inr (Some (arrived x))) (carried ?ds) @ [Inr None]"
    by (rule udp_tunnel_delivery [OF t]) (simp_all add: demo_wire_def a h)
  then have "tunnel_recv_all 3 (tunnel_with_taddr (demo_wire (map (\<lambda>b. Data [b]) (w_out (tn_inner t)))) (''0.0.0.0'', 0) None) =
       [Inr (Some (arrived ([1, 2], ''dns.lan'', 53))), Inr (Some (arrived ([3], ''dns.lan'', 54))), Inr None]"
    by (simp add: numeral_3_eq_3)
  with t show ?thesis by blast
qed

end
