(* ===== verification/Socks5Client.thy ===== *)
theory Socks5Client
  imports Socks5Tunnel Socks5Wire
begin

text \<open>
  The client side of SOCKS5 (\<^verbatim>\<open>Socks5Connector\<close> and \<^verbatim>\<open>socks5_method_handshake\<close> of
  \<^verbatim>\<open>src/src/socks5.rs\<close>) as protocol code over a connection.
\<close>

type_synonym credentials = "(string \<times> string option) option"

definition or_empty :: "string option \<Rightarrow> string" where
  "or_empty p = (case p of Some s \<Rightarrow> s | None \<Rightarrow> [])"

definition offered_methods :: "credentials \<Rightarrow> bytes" where
  "offered_methods user = (if user \<noteq> None then [METHOD_NO_AUTH, METHOD_USER_PASS] else [METHOD_NO_AUTH])"

definition greeting :: "bytes \<Rightarrow> bytes" where
  "greeting methods = [SOCKS5_VERSION, usize_as_u8 (length methods)] @ methods"

definition auth_request :: "string \<Rightarrow> string \<Rightarrow> bytes" where
  "auth_request user pass =
     [0x01, usize_as_u8 (length user)] @ as_bytes user @ [usize_as_u8 (length pass)] @ as_bytes pass"

text \<open>\<^verbatim>\<open>Socks5Connector::connect\<close>: a method it did not offer counts as no authentication.\<close>

definition connector_connect :: "credentials \<Rightarrow> string \<Rightarrow> (handler_error, unit) io" where
  "connector_connect user address =
     io_bind (io_write HandlerIo (greeting (offered_methods user))) (\<lambda>_.
     io_bind (io_read HandlerIo 2) (\<lambda>resp.
     if resp ! 0 \<noteq> SOCKS5_VERSION then io_err (HandlerProxy ''invalid SOCKS5 version'')
     else
       io_bind
         (if resp ! 1 = METHOD_USER_PASS
          then (case user of
                  Some (u, p) \<Rightarrow>
                    io_bind (io_write HandlerIo (auth_request u (or_empty p))) (\<lambda>_.
                    io_bind (io_read HandlerIo 2) (\<lambda>auth_resp.
                    if auth_resp ! 1 \<noteq> 0 then io_err AuthFailed else io_ok ()))
                | None \<Rightarrow> io_err AuthFailed)
          else if resp ! 1 = METHOD_NO_ACCEPTABLE then io_err (HandlerProxy ''no acceptable method'')
          else io_ok ()) (\<lambda>_.
       io_bind (io_try (parse_address address)) (\<lambda>(host, port).
       io_bind (io_write HandlerIo ([SOCKS5_VERSION, CMD_CONNECT, 0x00] @ encode_address host port)) (\<lambda>_.
       io_bind (io_read HandlerIo 4) (\<lambda>reply.
       if reply ! 1 \<noteq> REP_SUCCESS
       then io_err (HandlerProxy (''SOCKS5 connect failed: code '' @ show_nat (unat (reply ! 1))))
       else skip_address (reply ! 3)))))))"

text \<open>\<^verbatim>\<open>socks5_method_handshake\<close>: only the two methods it knows are accepted.\<close>

definition method_handshake :: "credentials \<Rightarrow> (handler_error, unit) io" where
  "method_handshake user =
     io_bind (io_write HandlerIo (greeting (offered_methods user))) (\<lambda>_.
     io_bind (io_read HandlerIo 2) (\<lambda>resp.
     if resp ! 0 \<noteq> SOCKS5_VERSION then io_err (HandlerProxy ''invalid SOCKS5 version'')
     else if resp ! 1 = METHOD_NO_AUTH then io_ok ()
     else if resp ! 1 = METHOD_USER_PASS
     then (case user of
             None \<Rightarrow> io_err AuthFailed
           | Some (u, p) \<Rightarrow>
               io_bind (io_write HandlerIo (auth_request u (or_empty p))) (\<lambda>_.
               io_bind (io_read HandlerIo 2) (\<lambda>ar.
               if ar ! 1 \<noteq> 0 then io_err AuthFailed else io_ok ())))
     else io_err (HandlerProxy ''no acceptable method'')))"

text \<open>\<^verbatim>\<open>Socks5Connector::udp_tunnel\<close>: what the new tunnel is given besides the stream.\<close>

definition udp_tunnel_open :: "credentials \<Rightarrow> string \<Rightarrow> string option \<Rightarrow> (handler_error, (string \<times> u16) \<times> string) io" where
  "udp_tunnel_open user bind_addr target =
     io_bind (method_handshake user) (\<lambda>_.
     io_bind (io_try (parse_address bind_addr)) (\<lambda>(host, port).
     io_bind (io_write HandlerIo ([SOCKS5_VERSION, CMD_UDP_TUN, 0x00] @ encode_address host port)) (\<lambda>_.
     io_bind (io_read HandlerIo 4) (\<lambda>head.
     if head ! 0 \<noteq> SOCKS5_VERSION then io_err (HandlerProxy ''invalid SOCKS5 version'')
     else if head ! 1 \<noteq> REP_SUCCESS
     then io_err (HandlerProxy (''socks5 UDP tunnel failure: code '' @ show_nat (unat (head ! 1))))
     else
       io_bind (read_address (head ! 3)) (\<lambda>(bhost, bport).
       io_bind (io_try (case target of Some t \<Rightarrow> parse_address t | None \<Rightarrow> Inr (''0.0.0.0'', 0))) (\<lambda>taddr.
       io_ok (taddr, join_addr bhost bport)))))))"

text \<open>The connection a tunnel runs over: what was read ahead of the handshake stays in front.\<close>

definition tunnel_over :: "proxy_conn \<Rightarrow> wire" where
  "tunnel_over c = (px_inner c)\<lparr>w_in := (if buffered c = [] then [] else [Data (buffered c)]) @ w_in (px_inner c)\<rparr>"

definition udp_tunnel :: "credentials \<Rightarrow> string \<Rightarrow> string option \<Rightarrow> proxy_conn \<Rightarrow> handler_error + tunnel" where
  "udp_tunnel user bind_addr target c =
     (case udp_tunnel_open user bind_addr target c of
        (Inl e, _) \<Rightarrow> Inl e
      | (Inr (taddr, bound), c') \<Rightarrow> Inr (tunnel_client (tunnel_over c') taddr bound))"

end
