(* ===== verification/Node.thy ===== *)
theory Node
  imports Bypass
begin

text \<open>
  Proxy nodes (\<^verbatim>\<open>src/src/node.rs\<close>): parsing of node URLs, the typed accessors of their
  parameters, the display form and the failure marker. The \<^verbatim>\<open>url\<close> crate is a parameter: a function
  from a text to an error or to the parts of the URL that the code reads. A failure marker is
  shared by all clones of a node (an \<^verbatim>\<open>Arc\<close>), so a node holds the index of its marker.
\<close>

section \<open>Nodes\<close>

datatype parse_node_error = EmptyNode | InvalidUrl string | InvalidNode string

record node =
  nd_id :: nat
  nd_addr :: string
  nd_host :: string
  nd_protocol :: string
  nd_transport :: string
  nd_remote :: string
  nd_user :: "(string \<times> string option) option"
  nd_values :: "(string \<times> string) list"
  nd_marker :: nat
  nd_bypass :: "nat option"

definition node_default :: "nat \<Rightarrow> node" where
  "node_default marker =
     \<lparr>nd_id = 0, nd_addr = [], nd_host = [], nd_protocol = [], nd_transport = [], nd_remote = [],
      nd_user = None, nd_values = [], nd_marker = marker, nd_bypass = None\<rparr>"

text \<open>What the code reads of a parsed URL.\<close>

record parsed_url =
  url_scheme :: string
  url_username :: string
  url_password :: "string option"
  url_host :: "string option"
  url_path :: string
  url_query_pairs :: "(string \<times> string) list"

text \<open>The names that the two normalisations keep.\<close>

definition transport_names :: "string list" where
  "transport_names = [''tls'', ''mtls'', ''http2'', ''h2'', ''h2c'', ''ws'', ''mws'', ''wss'', ''mwss'', ''kcp'', ''ssh'',
     ''quic'', ''ohttp'', ''otls'', ''obfs4'', ''tcp'', ''udp'', ''rtcp'', ''rudp'', ''tun'', ''tap'',
     ''ftcp'', ''dns'', ''redu'', ''redirectu'', ''vsock'', ''ssu'']"

definition protocol_names :: "string list" where
  "protocol_names = [''http'', ''http2'', ''socks4'', ''socks4a'', ''ss'', ''ssu'', ''sni'', ''tcp'', ''udp'', ''rtcp'',
     ''rudp'', ''direct'', ''remote'', ''forward'', ''red'', ''redirect'', ''redu'', ''redirectu'',
     ''tun'', ''tap'', ''ftcp'', ''dns'', ''dot'', ''doh'', ''relay'']"

definition normalize_transport :: "string \<Rightarrow> string" where
  "normalize_transport t =
     (if t = ''https'' then ''tls''
      else if t \<in> set transport_names
      then (if t = ''ssu'' then ''udp'' else t)
      else ''tcp'')"

definition normalize_protocol :: "string \<Rightarrow> string" where
  "normalize_protocol p =
     (if p = ''https'' then ''http''
      else if p = ''socks'' \<or> p = ''socks5'' then ''socks5''
      else if p = ''ss2'' then ''ss''
      else if p \<in> set protocol_names then p
      else [])"

text \<open>The authority of a URL: where it starts and where it ends.\<close>

definition auth_end :: "string \<Rightarrow> nat \<Rightarrow> nat" where
  "auth_end s auth_start =
     (case find_pred (\<lambda>c. c = CHR ''/'' \<or> c = CHR ''?'' \<or> c = CHR ''#'') (drop auth_start s) of
        Some i \<Rightarrow> auth_start + i
      | None \<Rightarrow> length s)"

definition raw_host_port :: "string \<Rightarrow> string option" where
  "raw_host_port s =
     (case str_find ''://'' s of
        None \<Rightarrow> None
      | Some i \<Rightarrow>
          let auth_start = i + 3;
              authority = take (auth_end s auth_start - auth_start) (drop auth_start s)
          in Some (case rfind_char CHR ''@'' authority of
                     Some j \<Rightarrow> drop (j + 1) authority
                   | None \<Rightarrow> authority))"

definition insert_sentinel_host :: "string \<Rightarrow> string \<times> bool" where
  "insert_sentinel_host s =
     (case str_find ''://'' s of
        None \<Rightarrow> (s, False)
      | Some scheme_end \<Rightarrow>
          let auth_start = scheme_end + 3;
              authority = take (auth_end s auth_start - auth_start) (drop auth_start s);
              host_start = (case rfind_char CHR ''@'' authority of Some i \<Rightarrow> i + 1 | None \<Rightarrow> 0);
              hostport = drop host_start authority
          in if hostport \<noteq> [] \<and> \<not> prefix '':'' hostport then (s, False)
             else (take (auth_start + host_start) s @ ''0.0.0.0'' @ drop (auth_start + host_start) s, True))"

definition node_schemes :: "string \<Rightarrow> string \<times> string" where
  "node_schemes scheme =
     (let schemes = split_char CHR ''+'' scheme
      in if length schemes = 2 then (schemes ! 0, schemes ! 1) else (schemes ! 0, schemes ! 0))"

definition node_parse :: "(string \<Rightarrow> string + parsed_url) \<Rightarrow> nat \<Rightarrow> string \<Rightarrow> parse_node_error + node" where
  "node_parse url marker s =
     (let s = trim s
      in if s = [] then Inl EmptyNode
         else
           let s = (if str_find ''://'' s = None then ''auto://'' @ s else s);
               (sentinel_url, _) = insert_sentinel_host s
           in case url sentinel_url of
                Inl e \<Rightarrow> Inl (InvalidUrl e)
              | Inr u \<Rightarrow>
                  let addr = (case raw_host_port s of
                                Some hp \<Rightarrow> hp
                              | None \<Rightarrow> (case url_host u of Some h \<Rightarrow> h | None \<Rightarrow> []));
                      (protocol, transport) = node_schemes (url_scheme u)
                  in Inr
                      \<lparr>nd_id = 0, nd_addr = addr, nd_host = addr,
                       nd_protocol = normalize_protocol protocol, nd_transport = normalize_transport transport,
                       nd_remote = trim_matches CHR ''/'' (url_path u),
                       nd_user = (if url_username u \<noteq> [] then Some (url_username u, url_password u) else None),
                       nd_values = fold (\<lambda>(k, v). AList.update k v) (url_query_pairs u) [],
                       nd_marker = marker, nd_bypass = None\<rparr>)"

section \<open>Accessors\<close>

definition node_get :: "node \<Rightarrow> string \<Rightarrow> string option" where
  "node_get n key = map_of (nd_values n) key"

text \<open>\<^verbatim>\<open>parse_go_bool\<close> accepts exactly what \<^verbatim>\<open>bypass::parse_bool\<close> accepts.\<close>

definition parse_go_bool :: "string \<Rightarrow> bool option" where
  "parse_go_bool s =
     (if s \<in> set [''1'', ''t'', ''T'', ''TRUE'', ''true'', ''True''] then Some True
      else if s \<in> set [''0'', ''f'', ''F'', ''FALSE'', ''false'', ''False''] then Some False
      else None)"

definition node_get_bool :: "node \<Rightarrow> string \<Rightarrow> bool" where
  "node_get_bool n key =
     (case map_of (nd_values n) key of
        None \<Rightarrow> False
      | Some v \<Rightarrow> (case parse_go_bool v of Some b \<Rightarrow> b | None \<Rightarrow> False))"

definition node_get_int :: "node \<Rightarrow> string \<Rightarrow> int" where
  "node_get_int n key =
     (case map_of (nd_values n) key of
        None \<Rightarrow> 0
      | Some v \<Rightarrow> (case parse_i64 v of Some i \<Rightarrow> i | None \<Rightarrow> 0))"

definition unit_word_nanos :: "string \<Rightarrow> nat option" where
  "unit_word_nanos w =
     (if w = ''ns'' then Some 1
      else if w = ''us'' \<or> w = [CHR 0xC2, CHR 0xB5, CHR ''s''] \<or> w = [CHR 0xCE, CHR 0xBC, CHR ''s''] then Some 1000
      else if w = ''ms'' then Some 1000000
      else if w = ''s'' then Some 1000000000
      else if w = ''m'' then Some 60000000000
      else if w = ''h'' then Some 3600000000000
      else None)"

text \<open>
  \<^verbatim>\<open>f64::from_str\<close> on a non-empty text of digits and points: \<open>None\<close> unless there is a digit and at
  most one point.
\<close>

definition parse_f64_digits :: "string \<Rightarrow> f64 option" where
  "parse_f64_digits s =
     (if s = ''.'' \<or> count_list s CHR ''.'' > 1 then None else parse_decimal s)"

function node_duration_loop :: "string \<Rightarrow> nat \<Rightarrow> nat option" where
  "node_duration_loop rest total_nanos =
     (if rest = [] then Some total_nanos
      else
        let num_len = (case find_pred (\<lambda>c. \<not> is_ascii_digit c \<and> c \<noteq> CHR ''.'') rest of
                         Some i \<Rightarrow> i | None \<Rightarrow> length rest)
        in if num_len = 0 then None
           else case parse_f64_digits (take num_len rest) of
             None \<Rightarrow> None
           | Some value \<Rightarrow>
               let rest1 = drop num_len rest;
                   unit_len = (case find_pred is_ascii_digit rest1 of Some i \<Rightarrow> i | None \<Rightarrow> length rest1)
               in if unit_len = 0 then None
                  else case unit_word_nanos (take unit_len rest1) of
                    None \<Rightarrow> None
                  | Some nanos_per_unit \<Rightarrow>
                      let nanos = f64_scale value nanos_per_unit
                      in if nanos = Infinity then None
                         else node_duration_loop (drop unit_len rest1) (total_nanos + f64_as_u64 nanos))"
  by pat_completeness auto
termination by (relation "measure (length \<circ> fst)") auto

declare node_duration_loop.simps [simp del]

definition parse_duration :: "string \<Rightarrow> nat option" where
  "parse_duration s =
     (let s = trim s
      in if s = [] then None
         else case parse_u64 s of
           Some secs \<Rightarrow> Some (secs * 1000000000)
         | None \<Rightarrow>
             let (negative, rest) =
               (case strip_prefix_char CHR ''-'' s of
                  Some r \<Rightarrow> (True, r)
                | None \<Rightarrow> (False, case strip_prefix_char CHR ''+'' s of Some r \<Rightarrow> r | None \<Rightarrow> s))
             in if rest = ''0'' then Some 0
                else if rest = [] then None
                else map_option (\<lambda>d. if negative then 0 else d) (node_duration_loop rest 0))"

definition node_get_duration :: "node \<Rightarrow> string \<Rightarrow> nat" where
  "node_get_duration n key =
     (case map_of (nd_values n) key of
        Some v \<Rightarrow> (case parse_duration v of Some d \<Rightarrow> d | None \<Rightarrow> 0)
      | None \<Rightarrow> 0)"

definition bind_addr :: "node \<Rightarrow> string" where
  "bind_addr n =
     (case strip_prefix_char CHR '':'' (nd_addr n) of
        Some port \<Rightarrow> ''0.0.0.0:'' @ port
      | None \<Rightarrow> nd_addr n)"

definition display_scheme :: "string \<Rightarrow> string \<Rightarrow> string" where
  "display_scheme protocol transport =
     (if protocol = []
      then (if transport = [] \<or> transport = ''tcp'' then ''auto'' else ''auto+'' @ transport)
      else if protocol = transport \<or> transport = ''tcp'' \<or> transport = [] then protocol
      else protocol @ ''+'' @ transport)"

definition node_display :: "node \<Rightarrow> string" where
  "node_display n = display_scheme (nd_protocol n) (nd_transport n) @ ''://'' @ nd_addr n"

section \<open>Failure markers\<close>

record fail_marker =
  fm_time :: int
  fm_count :: u32

definition marker_new :: fail_marker where
  "marker_new = \<lparr>fm_time = 0, fm_count = 0\<rparr>"

text \<open>\<open>now\<close> is the clock in Unix seconds.\<close>

definition marker_mark :: "int \<Rightarrow> fail_marker \<Rightarrow> fail_marker" where
  "marker_mark now m = \<lparr>fm_time = now, fm_count = fm_count m + 1\<rparr>"

definition marker_reset :: "fail_marker \<Rightarrow> fail_marker" where
  "marker_reset m = \<lparr>fm_time = 0, fm_count = 0\<rparr>"

text \<open>The markers of all nodes; \<^verbatim>\<open>mark_dead\<close> and \<^verbatim>\<open>reset_dead\<close> act on a node's shared marker.\<close>

type_synonym markers = "nat \<Rightarrow> fail_marker"

definition mark_dead :: "int \<Rightarrow> node \<Rightarrow> markers \<Rightarrow> markers" where
  "mark_dead now n ms = ms(nd_marker n := marker_mark now (ms (nd_marker n)))"

definition reset_dead :: "node \<Rightarrow> markers \<Rightarrow> markers" where
  "reset_dead n ms = ms(nd_marker n := marker_reset (ms (nd_marker n)))"

section \<open>Lemmas\<close>

lemma str_find_scheme:
  assumes "CHR '':'' \<notin> set scheme"
  shows "str_find ''://'' (scheme @ ''://'' @ rest) = Some (length scheme)"
  using assms by (induction scheme) auto

lemma authority_parts:
  assumes "\<forall>c \<in> set a. c \<noteq> CHR ''/'' \<and> c \<noteq> CHR ''?'' \<and> c \<noteq> CHR ''#''"
    and "rest = [] \<or> hd rest = CHR ''/'' \<or> hd rest = CHR ''?'' \<or> hd rest = CHR ''#''"
  shows "take (auth_end (u @ a @ rest) (length u) - length u) (drop (length u) (u @ a @ rest)) = a"
proof (cases rest)
  case Nil
  then have "find_pred (\<lambda>c. c = CHR ''/'' \<or> c = CHR ''?'' \<or> c = CHR ''#'') (a @ rest) = None" using assms(1) by auto
  then show ?thesis using Nil by (simp add: auth_end_def del: find_pred_None)
next
  case (Cons c r)
  then have "find_pred (\<lambda>c. c = CHR ''/'' \<or> c = CHR ''?'' \<or> c = CHR ''#'') (a @ c # r) = Some (length a)"
    using assms by (intro find_pred_append) auto
  then show ?thesis using Cons by (simp add: auth_end_def)
qed

definition userinfo_ok :: "string \<Rightarrow> bool" where
  "userinfo_ok ui \<longleftrightarrow> ui = [] \<or> (last ui = CHR ''@'' \<and> (\<forall>c \<in> set ui. c \<noteq> CHR ''/'' \<and> c \<noteq> CHR ''?'' \<and> c \<noteq> CHR ''#''))"

definition hostport_ok :: "string \<Rightarrow> bool" where
  "hostport_ok hp \<longleftrightarrow> (\<forall>c \<in> set hp. c \<noteq> CHR ''/'' \<and> c \<noteq> CHR ''?'' \<and> c \<noteq> CHR ''#'' \<and> c \<noteq> CHR ''@'')"

definition url_tail_ok :: "string \<Rightarrow> bool" where
  "url_tail_ok rest \<longleftrightarrow> rest = [] \<or> hd rest = CHR ''/'' \<or> hd rest = CHR ''?'' \<or> hd rest = CHR ''#''"

lemma rfind_at:
  assumes "userinfo_ok ui" "hostport_ok hp"
  shows "(case rfind_char CHR ''@'' (ui @ hp) of Some j \<Rightarrow> j + 1 | None \<Rightarrow> 0) = length ui"
proof (cases "ui = []")
  case True
  have "rfind_char CHR ''@'' hp = None" unfolding rfind_char_None using assms(2) by (auto simp: hostport_ok_def)
  then show ?thesis using True by (simp del: rfind_char_None)
next
  case False
  then obtain v where v: "ui = v @ [CHR ''@'']" using assms(1) by (metis append_butlast_last_id userinfo_ok_def)
  have "rfind_char CHR ''@'' (v @ CHR ''@'' # hp) = Some (length v)"
    using assms(2) by (intro rfind_char_append) (auto simp: hostport_ok_def)
  then show ?thesis by (simp add: v)
qed

lemma url_parts:
  assumes "CHR '':'' \<notin> set scheme" "userinfo_ok ui" "hostport_ok hp" "url_tail_ok rest"
  defines "s \<equiv> scheme @ ''://'' @ ui @ hp @ rest"
  shows "raw_host_port s = Some hp"
    and "insert_sentinel_host s =
      (if hp \<noteq> [] \<and> \<not> prefix '':'' hp then (s, False) else (scheme @ ''://'' @ ui @ ''0.0.0.0'' @ hp @ rest, True))"
proof -
  have f: "str_find ''://'' s = Some (length scheme)" unfolding s_def by (rule str_find_scheme [OF assms(1)])
  have "\<forall>c \<in> set (ui @ hp). c \<noteq> CHR ''/'' \<and> c \<noteq> CHR ''?'' \<and> c \<noteq> CHR ''#''"
    using assms(2,3) by (cases "ui = []") (simp_all add: userinfo_ok_def hostport_ok_def ball_Un)
  note ap = authority_parts [OF this, of rest "scheme @ ''://''"]
  have l: "length (scheme @ ''://'') = length scheme + 3" by simp
  have s2: "(scheme @ ''://'') @ (ui @ hp) @ rest = s" by (simp add: s_def)
  have a: "take (auth_end s (length scheme + 3) - (length scheme + 3)) (drop (length scheme + 3) s) = ui @ hp"
    using ap assms(4) unfolding l s2 url_tail_ok_def by blast
  note r = rfind_at [OF assms(2,3)]
  have d: "(case rfind_char CHR ''@'' (ui @ hp) of Some j \<Rightarrow> drop (j + 1) (ui @ hp) | None \<Rightarrow> ui @ hp) = hp"
    using r by (cases "rfind_char CHR ''@'' (ui @ hp)") (auto simp del: rfind_char_None)
  show "raw_host_port s = Some hp" unfolding raw_host_port_def f option.case Let_def a d by (rule refl)
  show "insert_sentinel_host s =
      (if hp \<noteq> [] \<and> \<not> prefix '':'' hp then (s, False) else (scheme @ ''://'' @ ui @ ''0.0.0.0'' @ hp @ rest, True))"
    unfolding insert_sentinel_host_def f option.case Let_def a r by (simp add: s_def numeral_3_eq_3)
qed

lemma normalize_transport_range: "normalize_transport t \<in> set (removeAll ''ssu'' transport_names)"
  by (simp add: normalize_transport_def transport_names_def)

lemma normalize_protocol_range: "normalize_protocol p \<in> set ([] # ''socks5'' # protocol_names)"
  by (simp add: normalize_protocol_def protocol_names_def)

lemma transport_names_fixed:
  "list_all (\<lambda>t. normalize_transport t = t \<and> CHR ''+'' \<notin> set t \<and> t \<noteq> []) (removeAll ''ssu'' transport_names)"
  by (simp add: normalize_transport_def transport_names_def)

lemma protocol_names_fixed:
  "list_all (\<lambda>p. normalize_protocol p = p \<and> CHR ''+'' \<notin> set p) ([] # ''socks5'' # protocol_names)"
  by (simp add: normalize_protocol_def protocol_names_def)

lemma normalize_idem:
  "normalize_transport (normalize_transport t) = normalize_transport t"
  "normalize_protocol (normalize_protocol p) = normalize_protocol p"
  "CHR ''+'' \<notin> set (normalize_protocol p)" "CHR ''+'' \<notin> set (normalize_transport t)" "normalize_transport t \<noteq> []"
  using normalize_transport_range [of t] normalize_protocol_range [of p] transport_names_fixed protocol_names_fixed
  unfolding list_all_iff by blast+

lemma bind_addr_eq:
  "bind_addr n = (if nd_addr n \<noteq> [] \<and> hd (nd_addr n) = CHR '':'' then ''0.0.0.0'' @ nd_addr n else nd_addr n)"
  by (cases "nd_addr n") (auto simp: bind_addr_def)

lemma node_schemes_plain: "CHR ''+'' \<notin> set p \<Longrightarrow> node_schemes p = (p, p)"
  by (simp add: node_schemes_def)

lemma node_schemes_plus:
  "CHR ''+'' \<notin> set p \<Longrightarrow> CHR ''+'' \<notin> set t \<Longrightarrow> node_schemes (p @ ''+'' @ t) = (p, t)"
  by (simp add: node_schemes_def split_pred_append)

section \<open>Properties\<close>

text \<open>A node's address is what was written: for every URL \<open>scheme://userinfo@host:port/...\<close> that the
  URL parser accepts (after the sentinel host is put in where the host is empty), the node's
  address and host are the text between the user info and the path, default ports and empty
  hosts included, and protocol and transport are the normalised halves of the scheme.\<close>

theorem node_parse_as_written:
  assumes "CHR '':'' \<notin> set scheme" "userinfo_ok ui" "hostport_ok hp" "url_tail_ok rest"
    and "trim (scheme @ ''://'' @ ui @ hp @ rest) = scheme @ ''://'' @ ui @ hp @ rest"
    and url_accepts: "url (scheme @ ''://'' @ ui @ (if hp = [] \<or> hd hp = CHR '':'' then ''0.0.0.0'' else []) @ hp @ rest) = Inr u"
    and url_keeps_scheme: "url_scheme u = scheme"
  shows "\<exists>n. node_parse url m (scheme @ ''://'' @ ui @ hp @ rest) = Inr n \<and>
    nd_addr n = hp \<and> nd_host n = hp \<and>
    nd_protocol n = normalize_protocol (fst (node_schemes scheme)) \<and>
    nd_transport n = normalize_transport (snd (node_schemes scheme)) \<and>
    bind_addr n = (if hp \<noteq> [] \<and> hd hp = CHR '':'' then ''0.0.0.0'' @ hp else hp)"
proof -
  let ?s = "scheme @ ''://'' @ ui @ hp @ rest"
  note p = url_parts [OF assms(1-4)]
  have f: "str_find ''://'' ?s = Some (length scheme)" by (rule str_find_scheme [OF assms(1)])
  have px: "prefix '':'' hp \<longleftrightarrow> hp \<noteq> [] \<and> hd hp = CHR '':''" by (cases hp) auto
  have i: "fst (insert_sentinel_host ?s) = scheme @ ''://'' @ ui @ (if hp = [] \<or> hd hp = CHR '':'' then ''0.0.0.0'' else []) @ hp @ rest"
    unfolding p(2) px by simp
  have ne: "?s \<noteq> []" by simp
  obtain pr tr where sc: "node_schemes scheme = (pr, tr)" by fastforce
  show ?thesis unfolding node_parse_def Let_def assms(5) using ne f i url_accepts p(1) sc
    by (simp add: url_keeps_scheme bind_addr_eq split_beta)
qed

theorem node_parse_as_written_witness:
  "\<exists>n. node_parse (\<lambda>t. if t = ''socks5+wss://u:p@0.0.0.0:443/x''
         then Inr \<lparr>url_scheme = ''socks5+wss'', url_username = ''u'', url_password = Some ''p'', url_host = Some ''0.0.0.0'',
                   url_path = ''/x'', url_query_pairs = []\<rparr> else Inl ''rejected'')
       0 (''socks5+wss'' @ ''://'' @ ''u:p@'' @ '':443'' @ ''/x'') = Inr n \<and>
     nd_addr n = '':443'' \<and> nd_protocol n = ''socks5'' \<and> nd_transport n = ''wss'' \<and> bind_addr n = ''0.0.0.0:443''"
proof -
  let ?url = "\<lambda>t. if t = ''socks5+wss://u:p@0.0.0.0:443/x''
         then Inr \<lparr>url_scheme = ''socks5+wss'', url_username = ''u'', url_password = Some ''p'', url_host = Some ''0.0.0.0'',
                   url_path = ''/x'', url_query_pairs = []\<rparr> else Inl ''rejected''"
  have g: "trim (''socks5+wss'' @ ''://'' @ ''u:p@'' @ '':443'' @ ''/x'') = ''socks5+wss'' @ ''://'' @ ''u:p@'' @ '':443'' @ ''/x''"
    by (rule trim_ends_graphic) (simp_all add: graphic_def)
  have sc: "node_schemes ''socks5+wss'' = (''socks5'', ''wss'')" using node_schemes_plus [of "''socks5''" "''wss''"] by simp
  have nn: "normalize_protocol ''socks5'' = ''socks5''" "normalize_transport ''wss'' = ''wss''"
    by (simp_all add: normalize_protocol_def normalize_transport_def transport_names_def)
  show ?thesis
    using node_parse_as_written [of "''socks5+wss''" "''u:p@''" "'':443''" "''/x''" ?url, OF _ _ _ _ g, where m = 0]
    by (simp add: sc nn userinfo_ok_def hostport_ok_def url_tail_ok_def) blast
qed

text \<open>The display form of a node reads back to the same protocol and transport, except for a
  protocol that is also the name of a transport when it runs over plain TCP (for instance
  \<open>udp+tcp\<close> or \<open>dns+tcp\<close>): it is displayed without the transport and reads back as its own transport.\<close>

theorem display_scheme_roundtrip:
  "(let p = normalize_protocol a; t = normalize_transport b; (p', t') = node_schemes (display_scheme p t)
    in normalize_protocol p' = p \<and> normalize_transport t' = t) \<longleftrightarrow>
   (normalize_transport b = ''tcp'' \<longrightarrow> normalize_protocol a = [] \<or> normalize_transport (normalize_protocol a) = ''tcp'')"
proof -
  define p t where "p = normalize_protocol a" and "t = normalize_transport b"
  have i: "normalize_protocol p = p" "normalize_transport t = t" "CHR ''+'' \<notin> set p" "CHR ''+'' \<notin> set t" "t \<noteq> []"
    by (simp_all add: p_def t_def normalize_idem)
  have au: "normalize_protocol ''auto'' = []" "normalize_transport ''auto'' = ''tcp''"
    by (simp_all add: normalize_protocol_def normalize_transport_def transport_names_def protocol_names_def)
  have s: "node_schemes p = (p, p)" "node_schemes (p @ ''+'' @ t) = (p, t)" "node_schemes ''auto'' = (''auto'', ''auto'')"
    "node_schemes (''auto+'' @ t) = (''auto'', t)"
    using i node_schemes_plain [of p] node_schemes_plus [of p t] node_schemes_plain [of "''auto''"] node_schemes_plus [of "''auto''" t]
    by simp_all
  show ?thesis unfolding p_def [symmetric] t_def [symmetric]
    using i au s by (auto simp: display_scheme_def Let_def)
qed

theorem display_scheme_roundtrip_witness:
  "(let p = normalize_protocol ''dns''; t = normalize_transport ''tcp''; (p', t') = node_schemes (display_scheme p t)
    in normalize_protocol p' = p \<and> normalize_transport t' = t) = False"
proof -
  have "normalize_transport ''tcp'' = ''tcp''" "normalize_protocol ''dns'' = ''dns''" "normalize_transport ''dns'' = ''dns''"
    by (simp_all add: normalize_protocol_def normalize_transport_def transport_names_def protocol_names_def)
  then show ?thesis using display_scheme_roundtrip [of "''dns''" "''tcp''"] by simp
qed

end
