(* ===== verification/Connectors.thy ===== *)
theory Connectors
  imports Socks5Client Node
begin

text \<open>
  The client connectors a chain runs on each hop (\<^verbatim>\<open>src/src/chain.rs\<close>): HTTP CONNECT, SOCKS4,
  SOCKS4a and SOCKS5. Base64 (crate \<^verbatim>\<open>base64\<close>) and TLS are parameters. The lemmas give, for
  each connector, the exact request it writes and that it consumes exactly the answer, so
  that bytes the peer sends right behind its answer belong to the next user of the
  connection.
\<close>

section \<open>Addresses\<close>

definition rsplit_once :: "char \<Rightarrow> string \<Rightarrow> (string \<times> string) option" where
  "rsplit_once c s = (case rfind_char c s of None \<Rightarrow> None | Some i \<Rightarrow> Some (take i s, drop (i + 1) s))"

definition chain_split_host_port :: "string \<Rightarrow> chain_error + (string \<times> u16)" where
  "chain_split_host_port addr =
     (let hp = (case strip_prefix_char CHR ''['' addr of
                  Some rest \<Rightarrow>
                    (case split_once CHR '']'' rest of
                       None \<Rightarrow> Inl (ProxyError ''unbalanced IPv6 brackets'')
                     | Some (host, rest) \<Rightarrow>
                         (case strip_prefix_char CHR '':'' rest of
                            None \<Rightarrow> Inl (ProxyError ''missing port'')
                          | Some port \<Rightarrow> Inr (host, port)))
                | None \<Rightarrow>
                    (case rsplit_once CHR '':'' addr of
                       None \<Rightarrow> Inl (ProxyError ''invalid target address'')
                     | Some hp \<Rightarrow> Inr hp))
      in case hp of
           Inl e \<Rightarrow> Inl e
         | Inr (host, port) \<Rightarrow>
             (case parse_u16 port of
                None \<Rightarrow> Inl (ProxyError ''invalid port'')
              | Some p \<Rightarrow> Inr (host, of_nat p)))"

definition chain_join_host_port :: "string \<Rightarrow> u16 \<Rightarrow> string" where
  "chain_join_host_port host port =
     (if CHR '':'' \<in> set host \<and> \<not> prefix ''['' host
      then ''['' @ host @ '']:'' @ show_nat (unat port)
      else host @ '':'' @ show_nat (unat port))"

definition hop_hostname :: "node \<Rightarrow> string" where
  "hop_hostname n =
     (case node_get n ''host'' of
        Some h \<Rightarrow> if h \<noteq> [] then h
                  else (case chain_split_host_port (nd_addr n) of Inr (h, _) \<Rightarrow> h | Inl _ \<Rightarrow> ''localhost'')
      | None \<Rightarrow> (case chain_split_host_port (nd_addr n) of Inr (h, _) \<Rightarrow> h | Inl _ \<Rightarrow> ''localhost''))"

definition is_mux_transport :: "string \<Rightarrow> bool" where
  "is_mux_transport t \<longleftrightarrow> t \<in> set [''mtls'', ''mws'', ''mwss'']"

section \<open>HTTP CONNECT\<close>

definition basic_credentials :: "(bytes \<Rightarrow> string) \<Rightarrow> credentials \<Rightarrow> string option" where
  "basic_credentials b64 user =
     (case user of
        None \<Rightarrow> None
      | Some (name, pass) \<Rightarrow> Some (b64 (as_bytes (name @ '':'' @ or_empty pass))))"

definition crlf :: string where "crlf = [CHR 0x0D, CHR 0x0A]"

definition MEDIUM_BUFFER_SIZE :: nat where "MEDIUM_BUFFER_SIZE = 8 * 1024"

definition DEFAULT_USER_AGENT :: string where "DEFAULT_USER_AGENT = ''Chrome/78.0.3904.106''"

text \<open>\<^verbatim>\<open>read(&mut chunk).await\<close> on a connection.\<close>

function conn_await_read :: "nat \<Rightarrow> proxy_conn \<Rightarrow> (io_error + bytes) \<times> proxy_conn" where
  "conn_await_read cap c =
     (case conn_poll_read cap c of
        (Pending, c') \<Rightarrow> conn_await_read cap c'
      | (Ready r, c') \<Rightarrow> (r, c'))"
  by pat_completeness auto
termination
  by (relation "measure (\<lambda>(_, c). conn_weight c)") (auto intro: conn_read_weight [OF sym])

declare conn_await_read.simps [simp del]

lemma conn_await_read_cases:
  assumes "conn_ok c" "conn_await_read cap c = (r, c')"
  shows "conn_ok c' \<and> conn_frame c' = conn_frame c \<and>
    (\<forall>bs. r = Inr bs \<longrightarrow> content c = bs @ content c' \<and> length bs \<le> cap \<and> short_error c' = short_error c
       \<and> (bs \<noteq> [] \<longrightarrow> conn_weight c' < conn_weight c) \<and> (0 < cap \<longrightarrow> bs = [] \<longrightarrow> content c = [])) \<and>
    (\<forall>e. r = Inl e \<longrightarrow> content c = [])"
  using assms
proof (induction cap c rule: conn_await_read.induct)
  case (1 cap c)
  obtain x c1 where x: "conn_poll_read cap c = (x, c1)" by (cases "conn_poll_read cap c")
  note k = conns.read_keeps [OF 1(2) x] conn_read_frame [OF x] conn_read_short_error [OF x]
  show ?case
  proof (cases x)
    case Pending
    note p = conns.read_pends [OF 1(2) x [unfolded Pending]] conn_read_weight [OF x]
    from 1(1) [OF x [symmetric] Pending] 1(3) k p x Pending show ?thesis
      by (fastforce simp: conn_await_read.simps [of cap c])
  next
    case (Ready y)
    then have y: "y = r" "c1 = c'" using 1(3) x by (simp_all add: conn_await_read.simps [of cap c])
    show ?thesis
    proof (cases y)
      case (Inl e)
      have "content c = []" using conn_read_progress [OF 1(2) _ x [unfolded Ready], of e] Inl by blast
      then show ?thesis using k y Inl by auto
    next
      case (Inr bs)
      note d = conns.read_delivers [OF 1(2) x [unfolded Ready Inr]]
      have "0 < cap \<Longrightarrow> bs = [] \<Longrightarrow> content c = []" using conns.read_ends [OF 1(2)] x Ready Inr by blast
      moreover have "bs \<noteq> [] \<Longrightarrow> conn_weight c' < conn_weight c" using conn_read_weight [OF x] Ready Inr y by blast
      ultimately show ?thesis using k d y Ready Inr by auto
    qed
  qed
qed

lemma conn_await_read_weight:
  "conn_await_read cap c = (Inr bs, c') \<Longrightarrow> bs \<noteq> [] \<Longrightarrow> conn_weight c' < conn_weight c"
proof (induction cap c rule: conn_await_read.induct)
  case (1 cap c)
  obtain x c1 where x: "conn_poll_read cap c = (x, c1)" by (cases "conn_poll_read cap c")
  note w = conn_read_weight [OF x]
  show ?case
  proof (cases x)
    case Pending
    then show ?thesis using 1 x w by (fastforce simp: conn_await_read.simps [of cap c])
  next
    case (Ready y)
    then show ?thesis using 1(2,3) x w by (auto simp: conn_await_read.simps [of cap c])
  qed
qed

text \<open>The loop of \<^verbatim>\<open>read_response_head\<close>, started with what has been read so far.\<close>

function read_head :: "bytes \<Rightarrow> proxy_conn \<Rightarrow> (chain_error + string) \<times> proxy_conn" where
  "read_head acc c =
     (case conn_await_read 512 c of
        (Inl e, c') \<Rightarrow> (Inl (ChainIo e), c')
      | (Inr chunk, c') \<Rightarrow>
          if chunk = [] then (Inl (ProxyError ''proxy closed the connection during CONNECT''), c')
          else let acc' = acc @ chunk
               in case str_find (crlf @ crlf) (of_bytes acc') of
                    Some pos \<Rightarrow>
                      let head_len = pos + 4
                      in (Inr (from_utf8_lossy (take head_len acc')), unread (drop head_len acc') c')
                  | None \<Rightarrow>
                      if length acc' > MEDIUM_BUFFER_SIZE
                      then (Inl (ProxyError ''CONNECT response headers too large''), c')
                      else read_head acc' c')"
  by pat_completeness auto
termination
  by (relation "measure (\<lambda>(_, c). conn_weight c)") (auto intro: conn_await_read_weight [OF sym])

declare read_head.simps [simp del]

definition read_response_head :: "(chain_error, string) io" where
  "read_response_head = read_head []"

text \<open>\<^verbatim>\<open>str::lines().next().unwrap_or_default()\<close> and \<^verbatim>\<open>split_whitespace()\<close>.\<close>

definition first_line :: "string \<Rightarrow> string" where
  "first_line s =
     (let l = takeWhile (\<lambda>c. c \<noteq> CHR 0x0A) s
      in if CHR 0x0A \<in> set s then strip_cr l else l)"

function split_ws :: "string \<Rightarrow> string \<Rightarrow> string list" where
  "split_ws cur s =
     (if s = [] then (if cur = [] then [] else [cur])
      else case find (\<lambda>w. w \<noteq> [] \<and> prefix w s) ws_enc of
        Some w \<Rightarrow> (if cur = [] then [] else [cur]) @ split_ws [] (drop (length w) s)
      | None \<Rightarrow> split_ws (cur @ [hd s]) (tl s))"
  by pat_completeness auto
termination
  by (relation "measure (\<lambda>(_, s). length s)") (auto simp: find_Some_iff)

declare split_ws.simps [simp del]

definition nth_word :: "nat \<Rightarrow> string \<Rightarrow> string" where
  "nth_word n s = (let ws = split_ws [] s in if n < length ws then ws ! n else [])"

definition connect_request :: "(bytes \<Rightarrow> string) \<Rightarrow> string \<Rightarrow> credentials \<Rightarrow> string" where
  "connect_request b64 target user =
     ''CONNECT '' @ target @ '' HTTP/1.1'' @ crlf @ ''Host: '' @ target @ crlf @ ''User-Agent: '' @ DEFAULT_USER_AGENT @ crlf
     @ ''Proxy-Connection: keep-alive'' @ crlf
     @ (case basic_credentials b64 user of
          Some creds \<Rightarrow> ''Proxy-Authorization: Basic '' @ creds @ crlf
        | None \<Rightarrow> [])
     @ crlf"

definition http_connect :: "(bytes \<Rightarrow> string) \<Rightarrow> string \<Rightarrow> credentials \<Rightarrow> (chain_error, unit) io" where
  "http_connect b64 target user =
     io_bind (io_write ChainIo (as_bytes (connect_request b64 target user))) (\<lambda>_.
     io_bind read_response_head (\<lambda>head.
     let status_line = first_line head;
         code = nth_word 1 status_line
     in if code = ''200'' then io_ok ()
        else io_err (ProxyError (''HTTP CONNECT failed: '' @ status_line))))"

section \<open>SOCKS4 and SOCKS4a\<close>

text \<open>\<^verbatim>\<open>{:02X}\<close> of a byte.\<close>

definition hex2 :: "u8 \<Rightarrow> string" where
  "hex2 b = [''0123456789ABCDEF'' ! (unat b div 16), ''0123456789ABCDEF'' ! (unat b mod 16)]"

definition socks4_request :: "credentials \<Rightarrow> bool \<Rightarrow> string \<Rightarrow> u16 \<Rightarrow> chain_error + bytes" where
  "socks4_request user allow_domain host port =
     (let head = [0x04, 0x01] @ u16_to_be port;
          userid = (case user of Some (name, _) \<Rightarrow> as_bytes name | None \<Rightarrow> []) @ [0x00]
      in case parse_v4 host of
           Some (a, b, c, d) \<Rightarrow> Inr (head @ [a, b, c, d] @ userid)
         | None \<Rightarrow>
             if allow_domain then Inr (head @ [0, 0, 0, 1] @ userid @ as_bytes host @ [0x00])
             else Inl (ProxyError ''SOCKS4 requires an IPv4 target address; use socks4a for domains''))"

definition socks4_connect :: "string \<Rightarrow> credentials \<Rightarrow> bool \<Rightarrow> (chain_error, unit) io" where
  "socks4_connect target user allow_domain =
     io_bind (io_try (chain_split_host_port target)) (\<lambda>(host, port).
     io_bind (io_try (socks4_request user allow_domain host port)) (\<lambda>req.
     io_bind (io_write ChainIo req) (\<lambda>_.
     io_bind (io_read ChainIo 8) (\<lambda>resp.
     if resp ! 1 \<noteq> 0x5A
     then io_err (ProxyError (''SOCKS4 connect rejected with code: 0x'' @ hex2 (resp ! 1)))
     else io_ok ()))))"

section \<open>SOCKS5\<close>

text \<open>A client TLS session over the connection: the server name, the stream under it, and either
  a description of the failure or the stream inside.\<close>

type_synonym tls_client = "string \<Rightarrow> bool \<Rightarrow> proxy_conn \<Rightarrow> string + wire"

definition io_tls :: "tls_client \<Rightarrow> string \<Rightarrow> bool \<Rightarrow> (string \<Rightarrow> 'e) \<Rightarrow> ('e, unit) io" where
  "io_tls tls host insecure wrap c =
     (case tls host insecure c of
        Inl e \<Rightarrow> (Inl (wrap e), c)
      | Inr w \<Rightarrow> (Inr (), layered w (px_peer c) (px_local c)))"

definition hop_methods :: "node \<Rightarrow> bytes" where
  "hop_methods n =
     [METHOD_NO_AUTH] @ (if nd_user n \<noteq> None then [METHOD_USER_PASS] else [])
     @ (if node_get_bool n ''notls'' then [] else [METHOD_TLS])"

definition hop_auth :: "credentials \<Rightarrow> (chain_error, unit) io" where
  "hop_auth user =
     (case user of
        None \<Rightarrow> io_err (ProxyError ''proxy requires credentials but none were configured'')
      | Some (name, pass) \<Rightarrow>
          let pass = or_empty pass
          in if length name > 255 \<or> length pass > 255
             then io_err (ProxyError ''SOCKS5 username/password exceeds 255 bytes'')
             else
               io_bind (io_write ChainIo (auth_request name pass)) (\<lambda>_.
               io_bind (io_read ChainIo 2) (\<lambda>reply.
               if reply ! 1 \<noteq> 0 then io_err (ProxyError ''SOCKS5 authentication rejected'') else io_ok ())))"

definition hop_skip_address :: "u8 \<Rightarrow> (chain_error, unit) io" where
  "hop_skip_address atyp =
     (if atyp = 0x01 then io_bind (io_read ChainIo 6) (\<lambda>_. io_ok ())
      else if atyp = 0x03
      then io_bind (io_read ChainIo 1) (\<lambda>len. io_bind (io_read ChainIo (unat (len ! 0) + 2)) (\<lambda>_. io_ok ()))
      else if atyp = 0x04 then io_bind (io_read ChainIo 18) (\<lambda>_. io_ok ())
      else io_ok ())"

definition socks5_connect :: "tls_client \<Rightarrow> string \<Rightarrow> node \<Rightarrow> (chain_error, unit) io" where
  "socks5_connect tls target n =
     io_bind (io_write ChainIo (greeting (hop_methods n))) (\<lambda>_.
     io_bind (io_read ChainIo 2) (\<lambda>buf.
     if buf ! 0 \<noteq> 0x05 then io_err (ProxyError ''SOCKS5 handshake failed'')
     else
       io_bind
         (if buf ! 1 = METHOD_TLS \<or> buf ! 1 = METHOD_TLS_AUTH
          then let host = hop_hostname n
               in io_tls tls host True (\<lambda>e. ProxyError (''SOCKS5 TLS handshake with '' @ host @ '' failed: '' @ e))
          else io_ok ()) (\<lambda>_.
       io_bind
         (if buf ! 1 = METHOD_NO_AUTH \<or> buf ! 1 = METHOD_TLS then io_ok ()
          else if buf ! 1 = METHOD_USER_PASS \<or> buf ! 1 = METHOD_TLS_AUTH then hop_auth (nd_user n)
          else if buf ! 1 = METHOD_NO_ACCEPTABLE
          then io_err (ProxyError ''SOCKS5 proxy rejected all offered authentication methods'')
          else io_err (ProxyError (''SOCKS5 proxy selected unsupported auth method 0x'' @ hex2 (buf ! 1)))) (\<lambda>_.
       io_bind (io_try (chain_split_host_port target)) (\<lambda>(host, port).
       io_bind (io_write ChainIo ([0x05, 0x01, 0x00] @ encode_address host port)) (\<lambda>_.
       io_bind (io_read ChainIo 4) (\<lambda>resp.
       if resp ! 1 \<noteq> 0x00
       then io_err (ProxyError (''SOCKS5 connect failed with code: '' @ show_nat (unat (resp ! 1))))
       else hop_skip_address (resp ! 3))))))))"

section \<open>What the connectors consume\<close>

lemma str_find_append: "str_find p u = Some i \<Longrightarrow> str_find p (u @ v) = Some i"
proof (induction u arbitrary: i)
  case (Cons c s)
  show ?case
  proof (cases "prefix p (c # s)")
    case True
    then have "prefix p ((c # s) @ v)" by (rule prefix_prefix)
    then show ?thesis using True Cons.prems by simp
  next
    case False
    then obtain j where j: "str_find p s = Some j" "i = Suc j" using Cons.prems by auto
    obtain a b where "s = a @ p @ b" using str_find_SomeE [OF j(1)] by metis
    then have "length p \<le> length (c # s)" by simp
    then have "prefix p ((c # s) @ v) \<Longrightarrow> prefix p (c # s)"
      using prefix_length_prefix [of p "(c # s) @ v" "c # s"] by simp
    with False have "\<not> prefix p ((c # s) @ v)" by blast
    then show ?thesis using Cons.IH [OF j(1)] j(2) by simp
  qed
qed (auto split: if_splits)

lemma append_split_le:
  assumes "xs @ ys = zs @ ts" "length xs \<le> length zs"
  shows "take (length xs) zs = xs" "drop (length xs) zs @ ts = ys"
  using assms by (simp_all add: append_eq_append_conv_if)

text \<open>A response head: it ends with the first blank line and fits the buffer.\<close>

definition head_ok :: "bytes \<Rightarrow> bool" where
  "head_ok head \<longleftrightarrow> 4 \<le> length head \<and> length head \<le> MEDIUM_BUFFER_SIZE \<and>
     str_find (crlf @ crlf) (of_bytes head) = Some (length head - 4)"

lemma of_bytes_append [simp]: "of_bytes (xs @ ys) = of_bytes xs @ of_bytes ys"
  by (simp add: of_bytes_def)

lemma read_head_ok:
  assumes "head_ok head" "conn_at l ys out c" "acc @ ys = head @ rest" "str_find (crlf @ crlf) (of_bytes acc) = None"
    "\<And>c'. conn_at l rest out c' \<Longrightarrow> Q (Inr (from_utf8_lossy head)) c'"
  shows "runs (read_head acc) c Q"
  using assms(2-4)
proof (induction acc c arbitrary: ys rule: read_head.induct)
  case (1 acc c)
  note h = assms(1) [unfolded head_ok_def]
  have full: "str_find (crlf @ crlf) (of_bytes (head @ rest)) = Some (length head - 4)" using h by (simp add: str_find_append)
  have short: "length z < length head" if none: "str_find (crlf @ crlf) (of_bytes z) = None" and zv: "z @ v = head @ rest" for z v
  proof (rule ccontr)
    assume "\<not> length z < length head"
    then have "z = head @ drop (length head) z"
      using zv by (metis append_eq_append_conv_if append_take_drop_id linorder_not_less)
    then show False using none h str_find_append by (metis of_bytes_append option.distinct(1))
  qed
  have ne: "content c \<noteq> []" and ok: "conn_ok c" and cy: "content c = ys"
    using short [OF 1(4) 1(3)] 1(2,3) by (auto simp: conn_at_def)
  obtain r c1 where r: "conn_await_read 512 c = (r, c1)" by (cases "conn_await_read 512 c")
  note a = conn_await_read_cases [OF ok r]
  obtain chunk where chunk: "r = Inr chunk" "chunk \<noteq> []" using a ne by (cases r) auto
  have d: "ys = chunk @ content c1" "conn_ok c1" "conn_frame c1 = conn_frame c" "short_error c1 = short_error c"
    using a chunk cy by auto
  have at1: "conn_at l (content c1) out c1"
    using 1(2) d frame_fields [OF d(3)] by (simp add: conn_at_def)
  have sp: "(acc @ chunk) @ content c1 = head @ rest" using 1(3) d(1) by simp
  show ?case
  proof (cases "str_find (crlf @ crlf) (of_bytes (acc @ chunk))")
    case None
    then have "\<not> MEDIUM_BUFFER_SIZE < length (acc @ chunk)" using short [OF None sp] h by simp
    then have "read_head acc c = read_head (acc @ chunk) c1"
      using r chunk None by (simp add: read_head.simps [of acc c])
    moreover have "runs (read_head (acc @ chunk)) c1 Q"
      by (rule 1(1) [OF r [symmetric] chunk(1,2) refl None _ at1 sp None]) fact
    ultimately show ?thesis by (simp add: runs_def)
  next
    case (Some pos)
    have "str_find (crlf @ crlf) (of_bytes (head @ rest)) = Some pos"
      using str_find_append [OF Some, of "of_bytes (content c1)"] sp by (metis of_bytes_append)
    then have pos: "pos + 4 = length head" using full h by simp
    obtain z w where z: "of_bytes (acc @ chunk) = z @ (crlf @ crlf) @ w" "length z = pos"
      using str_find_SomeE [OF Some] by metis
    have "length (of_bytes (acc @ chunk)) = length z + 4 + length w" unfolding z(1) by (simp add: crlf_def)
    then have "length head \<le> length (acc @ chunk)" using pos z(2) by (simp add: of_bytes_def)
    then have tk: "take (pos + 4) (acc @ chunk) = head" "drop (pos + 4) (acc @ chunk) @ content c1 = rest"
      using append_split_le [OF sp [symmetric]] pos by simp_all
    have "read_head acc c = (Inr (from_utf8_lossy head), unread (drop (pos + 4) (acc @ chunk)) c1)"
      using r chunk Some tk(1) by (simp add: read_head.simps [of acc c] Let_def)
    moreover have "conn_at l rest out (unread (drop (pos + 4) (acc @ chunk)) c1)"
      using conn_at_unread [OF at1] tk(2) by metis
    ultimately show ?thesis using assms(5) by (simp add: runs_def)
  qed
qed

text \<open>Positive answers.\<close>

definition http_accepts :: "bytes \<Rightarrow> bool" where
  "http_accepts head \<longleftrightarrow> head_ok head \<and> nth_word 1 (first_line (from_utf8_lossy head)) = ''200''"

definition bound_addr_ok :: "u8 \<Rightarrow> bytes \<Rightarrow> bool" where
  "bound_addr_ok atyp bs \<longleftrightarrow>
     (if atyp = 0x01 then length bs = 6
      else if atyp = 0x03 then bs \<noteq> [] \<and> length bs = unat (hd bs) + 3
      else if atyp = 0x04 then length bs = 18
      else bs = [])"

text \<open>
  The dialogue of a connector with a hop that grants its request: what it is asked for, the
  bytes it writes and the bytes it expects.
\<close>

inductive hop_dialogue :: "(bytes \<Rightarrow> string) \<Rightarrow> node \<Rightarrow> string \<Rightarrow> bytes \<Rightarrow> bytes \<Rightarrow> bool" for b64 where
  http: "nd_protocol n = ''http'' \<or> nd_protocol n = [] \<Longrightarrow> http_accepts head \<Longrightarrow>
    hop_dialogue b64 n target (as_bytes (connect_request b64 target (nd_user n))) head"
| socks4: "nd_protocol n = (if d then ''socks4a'' else ''socks4'') \<Longrightarrow> chain_split_host_port target = Inr (h, p) \<Longrightarrow>
    socks4_request (nd_user n) d h p = Inr req \<Longrightarrow> length resp = 8 \<Longrightarrow> resp ! 1 = 0x5A \<Longrightarrow>
    hop_dialogue b64 n target req resp"
| socks5: "nd_protocol n = ''socks5'' \<Longrightarrow> chain_split_host_port target = Inr (h, p) \<Longrightarrow> bound_addr_ok atyp bnd \<Longrightarrow>
    hop_dialogue b64 n target (greeting (hop_methods n) @ [0x05, 0x01, 0x00] @ encode_address h p)
      ([0x05, METHOD_NO_AUTH] @ [v, 0x00, r, atyp] @ bnd)"
| socks5_auth: "nd_protocol n = ''socks5'' \<Longrightarrow> chain_split_host_port target = Inr (h, p) \<Longrightarrow> bound_addr_ok atyp bnd \<Longrightarrow>
    nd_user n = Some (u, pw) \<Longrightarrow> length u \<le> 255 \<Longrightarrow> length (or_empty pw) \<le> 255 \<Longrightarrow>
    hop_dialogue b64 n target (greeting (hop_methods n) @ auth_request u (or_empty pw) @ [0x05, 0x01, 0x00] @ encode_address h p)
      ([0x05, METHOD_USER_PASS] @ [w, 0x00] @ [v, 0x00, r, atyp] @ bnd)"
| forward: "nd_protocol n \<in> {''forward'', ''direct'', ''remote''} \<Longrightarrow> hop_dialogue b64 n target [] []"

lemma str_find_crlf_Nil: "str_find (crlf @ crlf) (of_bytes []) = None"
  by (simp add: of_bytes_def crlf_def)

lemma runs_http_connect:
  assumes "conn_at l (head @ rest) out c" "http_accepts head"
    "\<And>c'. conn_at l rest (out @ as_bytes (connect_request b64 target user)) c' \<Longrightarrow> Q (Inr ()) c'"
  shows "runs (http_connect b64 target user) c Q"
proof -
  have h: "head_ok head" "nth_word (Suc 0) (first_line (from_utf8_lossy head)) = ''200''"
    using assms(2) by (simp_all add: http_accepts_def)
  have "runs (http_connect b64 target user) c Q \<longleftrightarrow> runs (io_bind (io_write ChainIo (as_bytes (connect_request b64 target user)))
      (\<lambda>_. io_bind (read_head []) (\<lambda>head. if nth_word 1 (first_line head) = ''200'' then io_ok ()
        else io_err (ProxyError (''HTTP CONNECT failed: '' @ first_line head))))) c Q"
    by (simp add: http_connect_def read_response_head_def Let_def)
  moreover have "\<dots>" using assms(1)
    by - (rule run_intros | erule runs_write | erule read_head_ok [OF h(1)] | simp add: h assms(3) str_find_crlf_Nil)+
  ultimately show ?thesis by blast
qed

lemma runs_socks4_connect:
  assumes "conn_at l (resp @ rest) out c" "chain_split_host_port target = Inr (h, p)" "socks4_request user d h p = Inr req"
    "length resp = 8" "resp ! 1 = 0x5A"
    "\<And>c'. conn_at l rest (out @ req) c' \<Longrightarrow> Q (Inr ()) c'"
  shows "runs (socks4_connect target user d) c Q"
  using assms(1) unfolding socks4_connect_def
  by - (rule run_intros | erule runs_read_step runs_write | simp add: assms(2-) assms(5) [simplified])+

lemma runs_skip_bound:
  assumes "conn_at l (bnd @ rest) out c" "bound_addr_ok atyp bnd" "\<And>c'. conn_at l rest out c' \<Longrightarrow> Q (Inr ()) c'"
  shows "runs (hop_skip_address atyp) c Q"
proof (cases "atyp = 0x03")
  case True
  then obtain n name where b: "bnd = n # name" "length name = unat n + 2"
    using assms(2) by (cases bnd) (auto simp: bound_addr_ok_def)
  show ?thesis using assms(1) unfolding hop_skip_address_def
    by - (rule run_intros | erule runs_read_step | simp add: True b assms(3))+
next
  case False
  have lens: "atyp = 1 \<Longrightarrow> length bnd = 6" "atyp = 4 \<Longrightarrow> length bnd = 18" "atyp \<noteq> 1 \<Longrightarrow> atyp \<noteq> 4 \<Longrightarrow> bnd = []"
    using assms(2) False by (auto simp: bound_addr_ok_def split: if_splits)
  have skip: "runs (io_bind (io_read ChainIo (length bnd)) (\<lambda>_. io_ok ())) c Q" using assms(1)
    by - (rule run_intros | erule runs_read_step | simp add: assms(3))+
  show ?thesis
    using False skip lens assms(1,3) by (auto simp: hop_skip_address_def intro: runs_ok)
qed

lemma runs_socks5_connect:
  assumes "conn_at l ([0x05, METHOD_NO_AUTH] @ [v, 0x00, r, atyp] @ bnd @ rest) out c"
    "chain_split_host_port target = Inr (h, p)" "bound_addr_ok atyp bnd"
    "\<And>c'. conn_at l rest (out @ greeting (hop_methods n) @ [0x05, 0x01, 0x00] @ encode_address h p) c' \<Longrightarrow> Q (Inr ()) c'"
  shows "runs (socks5_connect tls target n) c Q"
  using assms(1) unfolding socks5_connect_def
  by - (rule run_intros | erule runs_read_step runs_write
      | erule runs_skip_bound [OF _ assms(3)] | simp add: assms(2,4) socks5_consts)+

lemma runs_socks5_connect_auth:
  assumes "conn_at l ([0x05, METHOD_USER_PASS] @ [w, 0x00] @ [v, 0x00, r, atyp] @ bnd @ rest) out c"
    "chain_split_host_port target = Inr (h, p)" "bound_addr_ok atyp bnd"
    "nd_user n = Some (u, pw)" "length u \<le> 255" "length (or_empty pw) \<le> 255"
    "\<And>c'. conn_at l rest (out @ greeting (hop_methods n) @ auth_request u (or_empty pw) @ [0x05, 0x01, 0x00] @ encode_address h p) c' \<Longrightarrow> Q (Inr ()) c'"
  shows "runs (socks5_connect tls target n) c Q"
  using assms(1) unfolding socks5_connect_def
  by - (rule run_intros | erule runs_read_step runs_write
      | erule runs_skip_bound [OF _ assms(3)] | simp add: assms(2,4,7) assms(5,6) [THEN leD] socks5_consts hop_auth_def Let_def)+

end
