(* ===== verification/Selector.thy ===== *)
theory Selector
  imports Node "HOL-Library.Multiset"
begin

text \<open>
  Node selection (\<^verbatim>\<open>src/src/selector.rs\<close> and \<^verbatim>\<open>NodeGroup\<close> of \<^verbatim>\<open>src/src/node.rs\<close>): the round-robin
  default selector, the strategies, the invalid-port, failure and latency filters, and the selector
  that chains filters and a strategy. What the traits \<^verbatim>\<open>Strategy\<close> and \<^verbatim>\<open>Filter\<close> promise are the
  locales \<open>node_strategy\<close> and \<open>node_filters\<close>. The random number generator is a parameter with its
  documented range; the clock and the failure markers are read from an environment.
\<close>

datatype select_error = NoneAvailable

record sel_env =
  env_now :: int
  env_markers :: markers
  env_gen_range :: "nat \<Rightarrow> nat"
  env_fresh :: nat

text \<open>\<^verbatim>\<open>gen_range(0..n)\<close> gives a number below \<open>n\<close>.\<close>

definition env_ok :: "sel_env \<Rightarrow> bool" where
  "env_ok e \<longleftrightarrow> (\<forall>n > 0. env_gen_range e n < n)"

section \<open>Interfaces\<close>

locale node_strategy =
  fixes pick :: "sel_env \<Rightarrow> node list \<Rightarrow> node"
  assumes pick_mem: "env_ok e \<Longrightarrow> ns \<noteq> [] \<Longrightarrow> pick e ns \<in> set ns"

text \<open>A filter keeps some of the nodes: it invents none and repeats none.\<close>

locale node_filters =
  fixes keep :: "'f \<Rightarrow> sel_env \<Rightarrow> node list \<Rightarrow> node list"
  assumes keep_sub: "mset (keep f e ns) \<subseteq># mset ns"
begin

text \<open>Any chain of filters keeps some of the nodes.\<close>

lemma chain_sub: "mset (fold (\<lambda>f ns. keep f e ns) fs ns) \<subseteq># mset ns"
proof (induction fs arbitrary: ns)
  case (Cons f fs)
  have "mset (fold (\<lambda>f ns. keep f e ns) fs (keep f e ns)) \<subseteq># mset (keep f e ns)" by (rule Cons.IH)
  then show ?case using keep_sub [of f e ns] by (simp add: subset_mset.order_trans)
qed simp

lemma chain_set: "set (fold (\<lambda>f ns. keep f e ns) fs ns) \<subseteq> set ns"
  using chain_sub [of e fs ns] by (metis set_mset_mono set_mset_mset)

end

section \<open>Round robin\<close>

text \<open>\<^verbatim>\<open>fetch_add\<close> wraps; \<^verbatim>\<open>n as usize\<close> keeps all 64 bits.\<close>

definition default_select :: "u64 \<Rightarrow> node list \<Rightarrow> (select_error + node) \<times> u64" where
  "default_select counter ns =
     (if ns = [] then (Inl NoneAvailable, counter)
      else (Inr (ns ! (unat counter mod length ns)), counter + 1))"

datatype strategy = Round u64 | Random | Fifo

definition new_strategy :: "string \<Rightarrow> strategy" where
  "new_strategy name = (if name = ''random'' then Random else if name = ''fifo'' then Fifo else Round 0)"

fun strategy_apply :: "sel_env \<Rightarrow> strategy \<Rightarrow> node list \<Rightarrow> node \<times> strategy" where
  "strategy_apply e (Round counter) ns =
     (if ns = [] then (node_default (env_fresh e), Round counter)
      else (ns ! (unat counter mod length ns), Round (counter + 1)))"
| "strategy_apply e Random ns =
     (if ns = [] then (node_default (env_fresh e), Random) else (ns ! env_gen_range e (length ns), Random))"
| "strategy_apply e Fifo ns = (if ns = [] then (node_default (env_fresh e), Fifo) else (ns ! 0, Fifo))"

section \<open>Filters\<close>

definition DEFAULT_MAX_FAILS :: u32 where "DEFAULT_MAX_FAILS = 1"
definition DEFAULT_FAIL_TIMEOUT :: nat where "DEFAULT_FAIL_TIMEOUT = 30 * 1000000000"
definition DEFAULT_PING_TIMEOUT :: nat where "DEFAULT_PING_TIMEOUT = 3000 * 1000000"

record ping_entry =
  pe_latency_ms :: nat
  pe_expires_at :: int

text \<open>The third filter holds its \<^verbatim>\<open>top_count\<close>, its timeout and the cache of measurements.\<close>

datatype node_filter = InvalidFilter | FailFilter u32 nat | FastestFilter nat nat "(nat \<times> ping_entry) list"

definition fail_filter_new :: "u32 \<Rightarrow> nat \<Rightarrow> node_filter" where
  "fail_filter_new max_fails fail_timeout =
     FailFilter (if max_fails = 0 then DEFAULT_MAX_FAILS else max_fails)
                (if fail_timeout = 0 then DEFAULT_FAIL_TIMEOUT else fail_timeout)"

definition fastest_filter_new :: "nat \<Rightarrow> nat \<Rightarrow> node_filter" where
  "fastest_filter_new ping_timeout top_count =
     FastestFilter top_count (if ping_timeout = 0 then DEFAULT_PING_TIMEOUT else ping_timeout) []"

definition valid_port :: "node \<Rightarrow> bool" where
  "valid_port n =
     (case rfind_char CHR '':'' (nd_addr n) of
        Some idx \<Rightarrow> (case parse_u16 (drop (idx + 1) (nd_addr n)) of Some port \<Rightarrow> port > 0 | None \<Rightarrow> False)
      | None \<Rightarrow> False)"

definition node_alive :: "sel_env \<Rightarrow> u32 \<Rightarrow> nat \<Rightarrow> node \<Rightarrow> bool" where
  "node_alive e max_fails fail_timeout n =
     (let m = env_markers e (nd_marker n)
      in fm_count m < max_fails \<or> env_now e - fm_time m \<ge> usize_as_i64 (fail_timeout div 1000000000))"

text \<open>\<^verbatim>\<open>latency_of\<close>: the cached latency; a stale entry starts a probe and is held for five seconds.\<close>

definition latency_of ::
    "int \<Rightarrow> node \<Rightarrow> (nat \<times> ping_entry) list \<Rightarrow> nat \<times> (nat \<times> ping_entry) list \<times> (nat \<times> string) list" where
  "latency_of now n results =
     (let entry = map_of results (nd_id n);
          latency = (case entry of Some x \<Rightarrow> pe_latency_ms x | None \<Rightarrow> 0);
          stale = (case entry of Some x \<Rightarrow> pe_expires_at x < now | None \<Rightarrow> True)
      in if stale
         then (latency, AList.update (nd_id n) \<lparr>pe_latency_ms = latency, pe_expires_at = now + 5\<rparr> results,
               [(nd_id n, nd_addr n)])
         else (latency, results, []))"

text \<open>
  What a finished probe writes: \<open>jitter\<close> is the whole part of 120 times the random fraction.
\<close>

definition probe_done :: "int \<Rightarrow> nat \<Rightarrow> nat \<Rightarrow> bool \<Rightarrow> nat \<Rightarrow> nat \<Rightarrow> (nat \<times> ping_entry) list \<Rightarrow> (nat \<times> ping_entry) list" where
  "probe_done now jitter timeout reachable elapsed_ms nid results =
     AList.update nid
       \<lparr>pe_latency_ms = (if reachable then elapsed_ms else timeout div 1000000),
        pe_expires_at = now + (300 - int jitter)\<rparr> results"

definition set_latency :: "int \<Rightarrow> nat \<Rightarrow> nat \<Rightarrow> (nat \<times> ping_entry) list \<Rightarrow> (nat \<times> ping_entry) list" where
  "set_latency now nid latency_ms results =
     AList.update nid \<lparr>pe_latency_ms = latency_ms, pe_expires_at = now + 300\<rparr> results"

fun score_all ::
    "int \<Rightarrow> node list \<Rightarrow> (nat \<times> ping_entry) list
     \<Rightarrow> (nat \<times> node) list \<times> (nat \<times> ping_entry) list \<times> (nat \<times> string) list" where
  "score_all now [] results = ([], results, [])"
| "score_all now (n # ns) results =
     (let (l, results, ps) = latency_of now n results;
          (xs, results, qs) = score_all now ns results
      in ((l, n) # xs, results, ps @ qs))"

fun filter_apply :: "sel_env \<Rightarrow> node_filter \<Rightarrow> node list \<Rightarrow> node list \<times> node_filter \<times> (nat \<times> string) list" where
  "filter_apply e InvalidFilter ns = (filter valid_port ns, InvalidFilter, [])"
| "filter_apply e (FailFilter max_fails fail_timeout) ns =
     ((if length ns \<le> 1 then ns else filter (node_alive e max_fails fail_timeout) ns),
      FailFilter max_fails fail_timeout, [])"
| "filter_apply e (FastestFilter top_count ping_timeout results) ns =
     (if top_count = 0 then (ns, FastestFilter top_count ping_timeout results, [])
      else let (scored, results, probes) = score_all (env_now e) ns results
           in (map snd (take top_count (sort_key fst scored)),
               FastestFilter top_count ping_timeout results, probes))"

section \<open>The filtering selector\<close>

record filter_selector =
  fs_filters :: "node_filter list"
  fs_strategy :: strategy

definition with_filters :: "string \<Rightarrow> u32 \<Rightarrow> nat \<Rightarrow> nat \<Rightarrow> filter_selector" where
  "with_filters strategy max_fails fail_timeout fastest_count =
     \<lparr>fs_filters = [InvalidFilter, fail_filter_new max_fails fail_timeout] @
        (if fastest_count > 0 then [fastest_filter_new DEFAULT_PING_TIMEOUT fastest_count] else []),
      fs_strategy = new_strategy strategy\<rparr>"

definition with_fail_filter :: "string \<Rightarrow> u32 \<Rightarrow> nat \<Rightarrow> filter_selector" where
  "with_fail_filter strategy max_fails fail_timeout = with_filters strategy max_fails fail_timeout 0"

text \<open>The loop over the filters stops as soon as nothing is left.\<close>

fun run_filters ::
    "sel_env \<Rightarrow> node_filter list \<Rightarrow> node list \<Rightarrow> node list option \<times> node_filter list \<times> (nat \<times> string) list" where
  "run_filters e [] ns = (Some ns, [], [])"
| "run_filters e (f # fs) ns =
     (let (candidates, f', ps) = filter_apply e f ns
      in if candidates = [] then (None, f' # fs, ps)
         else let (r, fs', qs) = run_filters e fs candidates in (r, f' # fs', ps @ qs))"

definition filter_select ::
    "sel_env \<Rightarrow> filter_selector \<Rightarrow> node list \<Rightarrow> (select_error + node) \<times> filter_selector \<times> (nat \<times> string) list" where
  "filter_select e s ns =
     (case run_filters e (fs_filters s) ns of
        (None, fs, probes) \<Rightarrow> (Inl NoneAvailable, s\<lparr>fs_filters := fs\<rparr>, probes)
      | (Some candidates, fs, probes) \<Rightarrow>
          let (n, st) = strategy_apply e (fs_strategy s) candidates
          in (Inr n, s\<lparr>fs_filters := fs, fs_strategy := st\<rparr>, probes))"

section \<open>Node groups\<close>

datatype node_selector = DefaultSelector u64 | FilterSelector filter_selector

record node_group =
  ng_id :: nat
  ng_nodes :: "node list"
  ng_selector :: "node_selector option"

definition group_new :: "node list \<Rightarrow> node_group" where
  "group_new ns = \<lparr>ng_id = 0, ng_nodes = ns, ng_selector = Some (DefaultSelector 0)\<rparr>"

definition group_add_node :: "node \<Rightarrow> node_group \<Rightarrow> node_group" where
  "group_add_node n g = g\<lparr>ng_nodes := ng_nodes g @ [n]\<rparr>"

definition group_get_node :: "node_group \<Rightarrow> nat \<Rightarrow> node option" where
  "group_get_node g i = (if i < length (ng_nodes g) then Some (ng_nodes g ! i) else None)"

definition group_set_selector :: "node_selector \<Rightarrow> node_group \<Rightarrow> node_group" where
  "group_set_selector s g = g\<lparr>ng_selector := Some s\<rparr>"

definition group_next :: "sel_env \<Rightarrow> node_group \<Rightarrow> (select_error + node) \<times> node_group \<times> (nat \<times> string) list" where
  "group_next e g =
     (if ng_nodes g = [] then (Inl NoneAvailable, g, [])
      else case ng_selector g of
        Some (DefaultSelector c) \<Rightarrow>
          let (r, c) = default_select c (ng_nodes g) in (r, g\<lparr>ng_selector := Some (DefaultSelector c)\<rparr>, [])
      | Some (FilterSelector s) \<Rightarrow>
          let (r, s, probes) = filter_select e s (ng_nodes g) in (r, g\<lparr>ng_selector := Some (FilterSelector s)\<rparr>, probes)
      | None \<Rightarrow> (Inl NoneAvailable, g, []))"

section \<open>The interfaces hold\<close>

lemma strategy_pick_mem: "env_ok e \<Longrightarrow> ns \<noteq> [] \<Longrightarrow> fst (strategy_apply e s ns) \<in> set ns"
  by (cases s) (auto simp: env_ok_def)

interpretation strategies: node_strategy "\<lambda>e ns. fst (strategy_apply e s ns)" for s
  by unfold_locales (rule strategy_pick_mem)

lemma score_all_nodes: "map snd (fst (score_all now ns results)) = ns"
  by (induction now ns results rule: score_all.induct) (auto simp: Let_def split: prod.splits)

lemma mset_take_le: "mset (take k xs) \<subseteq># mset xs"
  by (metis append_take_drop_id mset_append mset_subset_eq_add_left)

lemma fastest_sub: "mset (map snd (take k (sort_key fst xs))) \<subseteq># mset (map snd xs)"
proof -
  have "mset (take k (sort_key fst xs)) \<subseteq># mset xs" using mset_take_le [of k "sort_key fst xs"] by simp
  then show ?thesis by (simp add: image_mset_subseteq_mono)
qed

interpretation filters: node_filters "\<lambda>f e ns. fst (filter_apply e f ns)"
proof
  fix f e ns
  show "mset (fst (filter_apply e f ns)) \<subseteq># mset ns"
  proof (cases f)
    case (FastestFilter k t results)
    obtain xs r ps where sc: "score_all (env_now e) ns results = (xs, r, ps)" by (metis prod_cases3)
    then have "map snd xs = ns" using score_all_nodes [of "env_now e" ns results] by simp
    then show ?thesis using FastestFilter sc fastest_sub [of k xs] by auto
  qed (simp_all add: mset_filter)
qed

lemma run_filters_Some:
  "run_filters e fs ns = (Some c, fs', ps) \<Longrightarrow>
   c = fold (\<lambda>f ns. fst (filter_apply e f ns)) fs ns \<and> (ns \<noteq> [] \<longrightarrow> c \<noteq> [])"
proof (induction e fs ns arbitrary: c fs' ps rule: run_filters.induct)
  case (2 e f fs ns)
  obtain ca f' qs where f: "filter_apply e f ns = (ca, f', qs)" by (metis prod_cases3)
  obtain r fs'' rs where r: "run_filters e fs ca = (r, fs'', rs)" by (metis prod_cases3)
  have "ca \<noteq> []" "r = Some c" using 2(2) f r by (auto split: if_splits)
  then show ?case using 2(1) [of "(ca, f', qs)" ca "(f', qs)" f' qs c fs'' rs] f r by auto
qed auto

section \<open>Fairness\<close>

fun picks :: "nat \<Rightarrow> u64 \<Rightarrow> node list \<Rightarrow> (select_error + node) list" where
  "picks 0 c ns = []"
| "picks (Suc k) c ns = (let (r, c) = default_select c ns in r # picks k c ns)"

lemma picks_nth:
  "ns \<noteq> [] \<Longrightarrow> picks k c ns = map (\<lambda>i. Inr (ns ! (unat (c + of_nat i) mod length ns))) [0..<k]"
proof (induction k arbitrary: c)
  case (Suc k)
  have "map (\<lambda>i. Inr (ns ! (unat (c + of_nat i) mod length ns)) :: select_error + node) [0..<Suc k] =
    Inr (ns ! (unat c mod length ns)) # map (\<lambda>i. Inr (ns ! (unat (c + 1 + of_nat i) mod length ns))) [0..<k]"
    by (simp add: upt_conv_Cons map_Suc_upt [symmetric] add.assoc del: upt_Suc)
  then show ?case using Suc by (simp add: default_select_def del: upt_Suc)
qed simp

lemma unat_add_small: "unat (c :: u64) + k < 2 ^ 64 \<Longrightarrow> unat (c + of_nat k) = unat c + k"
  by (simp add: unat_word_ariths unat_of_nat take_bit_eq_mod)

lemma mset_rotate: "mset (rotate n xs) = mset xs"
proof -
  have "mset (rotate1 ys) = mset ys" for ys :: "'a list" by (cases ys) simp_all
  then show ?thesis by (induction n) simp_all
qed

lemma picks_rotate:
  assumes "ns \<noteq> []" "unat c + length ns \<le> 2 ^ 64"
  shows "picks (length ns) c ns = map Inr (rotate (unat c) ns)"
proof (rule nth_equalityI)
  fix i assume "i < length (picks (length ns) c ns)"
  then have i: "i < length ns" by (simp add: picks_nth [OF assms(1)])
  then have "unat (c + of_nat i) = unat c + i" using assms(2) by (intro unat_add_small) linarith
  then show "picks (length ns) c ns ! i = map Inr (rotate (unat c) ns) ! i"
    using i by (simp add: picks_nth [OF assms(1)] nth_rotate)
qed (simp add: picks_nth [OF assms(1)])

section \<open>Latencies\<close>

definition cached_latency :: "(nat \<times> ping_entry) list \<Rightarrow> node \<Rightarrow> nat" where
  "cached_latency results n = (case map_of results (nd_id n) of Some x \<Rightarrow> pe_latency_ms x | None \<Rightarrow> 0)"

text \<open>Holding off a refresh does not change what the cache says.\<close>

lemma latency_of_cached:
  assumes "latency_of now n results = (l, results', ps)"
  shows "l = cached_latency results n" "cached_latency results' = cached_latency results"
  using assms
  by (auto simp: latency_of_def cached_latency_def Let_def update_conv' fun_eq_iff split: if_splits option.splits)

lemma score_all_cached: "fst (score_all now ns results) = map (\<lambda>n. (cached_latency results n, n)) ns"
proof (induction ns arbitrary: results)
  case (Cons n ns)
  obtain l r ps where l: "latency_of now n results = (l, r, ps)" by (metis prod_cases3)
  then show ?case using Cons.IH [of r] latency_of_cached [OF l] by (simp add: split_beta)
qed simp

lemma take_sorted_le:
  assumes "sorted (map f xs)" "x \<in> set (take k xs)" "y \<in> set (drop k xs)"
  shows "f x \<le> f y"
proof -
  obtain i where i: "x = xs ! i" "i < k" "i < length xs" using assms(2) by (auto simp: in_set_conv_nth)
  obtain j where j: "y = xs ! (k + j)" "k + j < length xs" using assms(3) by (auto simp: in_set_conv_nth)
  show ?thesis using sorted_nth_mono [OF assms(1), of i "k + j"] i j by simp
qed

section \<open>Properties\<close>

text \<open>Round robin is fair: any run of as many selections as there are nodes hands out every node
  exactly once, in rotation, as long as the 64-bit counter does not wrap in between.\<close>

theorem round_robin_fair:
  assumes "ns \<noteq> []" "unat counter + length ns \<le> 2 ^ 64"
  shows "picks (length ns) counter ns = map Inr (rotate (unat counter) ns) \<and>
    mset (picks (length ns) counter ns) = mset (map Inr ns)"
  using picks_rotate [OF assms] mset_rotate [of "unat counter" ns] by simp

theorem round_robin_fair_witness:
  "picks 2 1 [node_default 0, node_default 1] = [Inr (node_default 1), Inr (node_default 0)]"
  using round_robin_fair [of "[node_default 0, node_default 1]" 1]
  by (simp add: rotate_def flip: numeral_2_eq_2 del: picks.simps)


definition sel_demo_env :: sel_env where
  "sel_demo_env = \<lparr>env_now = 100, env_markers = mark_dead 95 (node_default 0) (\<lambda>_. marker_new),
     env_gen_range = (\<lambda>n. 0), env_fresh = 9\<rparr>"


text \<open>The latency filter keeps the fastest nodes: as many as asked for (or all of them), none invented
  or repeated, in order of latency, and none slower than a node it drops. A node without a
  measurement counts as instantaneous.\<close>

theorem fastest_keeps_lowest:
  assumes "0 < top_count" "filter_apply e (FastestFilter top_count t results) ns = (kept, f, probes)"
  shows "length kept = min top_count (length ns) \<and> mset kept \<subseteq># mset ns \<and>
    sorted (map (cached_latency results) kept) \<and>
    (\<forall>x y. x \<in> set kept \<and> y \<in># mset ns - mset kept \<longrightarrow> cached_latency results x \<le> cached_latency results y)"
proof -
  let ?xs = "sort_key fst (map (\<lambda>n. (cached_latency results n, n)) ns)"
  have k: "kept = map snd (take top_count ?xs)"
    using assms score_all_cached [of "env_now e" ns results] by (auto simp: Let_def split: prod.splits)
  have f: "x = (cached_latency results (snd x), snd x)" if "x \<in> set ?xs" for x using that by auto
  have ms: "mset (map snd ?xs) = mset ns" by (simp add: image_mset.compositionality comp_def)
  then have d: "mset ns - mset kept = mset (map snd (drop top_count ?xs))"
    by (metis (no_types, lifting) k add_diff_cancel_left' append_take_drop_id map_append mset_append)
  have srt: "sorted (map fst ?xs)" by simp
  have lat: "map (cached_latency results) kept = map fst (take top_count ?xs)"
    unfolding k map_map by (rule map_cong) (auto dest: in_set_takeD)
  have "cached_latency results x \<le> cached_latency results y" if x: "x \<in> set kept" and y: "y \<in># mset ns - mset kept" for x y
  proof -
    obtain a where a: "a \<in> set (take top_count ?xs)" "x = snd a" using x unfolding k set_map by blast
    obtain b where b: "b \<in> set (drop top_count ?xs)" "y = snd b"
      using y unfolding d set_mset_mset set_map by blast
    have "fst a \<le> fst b" by (rule take_sorted_le [OF srt a(1) b(1)])
    then show ?thesis using f [of a] f [of b] a b by (metis fst_conv in_set_dropD in_set_takeD)
  qed
  moreover have "sorted (map (cached_latency results) kept)" unfolding lat using srt by (simp add: sorted_wrt_take take_map [symmetric])
  moreover have "length kept = min top_count (length ns)" by (simp add: k min.commute)
  moreover have "mset kept \<subseteq># mset ns" using filters.keep_sub [of e "FastestFilter top_count t results" ns] assms(2) by simp
  ultimately show ?thesis by blast
qed

theorem fastest_keeps_lowest_witness:
  "cached_latency (set_latency 0 1 20 []) (node_default 0) \<le> 0 \<and>
   fst (filter_apply sel_demo_env (FastestFilter 1 0 (set_latency 0 1 20 (set_latency 0 2 10 []))) 
     [(node_default 0)\<lparr>nd_id := 1\<rparr>, (node_default 1)\<lparr>nd_id := 2\<rparr>]) = [(node_default 1)\<lparr>nd_id := 2\<rparr>]"
proof -
  let ?res = "set_latency 0 1 20 (set_latency 0 2 10 [])"
  let ?a = "(node_default 0)\<lparr>nd_id := 1\<rparr>" and ?b = "(node_default 1)\<lparr>nd_id := 2\<rparr>"
  obtain kept f ps where k: "filter_apply sel_demo_env (FastestFilter 1 0 ?res) [?a, ?b] = (kept, f, ps)" by (metis prod_cases3)
  have l: "cached_latency ?res ?a = 20" "cached_latency ?res ?b = 10"
    by (simp_all add: cached_latency_def set_latency_def)
  note s = fastest_keeps_lowest [OF _ k]
  have "length kept = 1" using s by simp
  then obtain n where n: "kept = [n]" by (metis One_nat_def length_0_conv length_Suc_conv)
  have ab: "?a \<noteq> ?b" by (simp add: node_default_def)
  have sub: "n = ?a \<or> n = ?b" using s n by (auto dest: mset_subset_eqD)
  have "n \<noteq> ?a"
  proof
    assume "n = ?a"
    then have "?b \<in># mset [?a, ?b] - mset kept" using n ab by simp
    then have "cached_latency ?res ?a \<le> cached_latency ?res ?b" using s n \<open>n = ?a\<close> by (metis list.set_intros(1) less_one zero_less_one)
    then show False using l by simp
  qed
  then show ?thesis using sub n k by (simp add: cached_latency_def set_latency_def node_default_def)
qed

end
