(* ===== verification/Hosts.thy ===== *)
theory Hosts
  imports ConfigLine IpAddr
begin

text \<open>
  The static hostname table (\<^verbatim>\<open>src/src/hosts.rs\<close>): lookup, the hosts file and its live reload. The
  table is shared through an \<^verbatim>\<open>Arc\<close>, so a state here is the state every clone sees.
\<close>

record host =
  ho_ip :: ip_addr
  ho_hostname :: string
  ho_aliases :: "string list"

record hosts_table =
  ht_hosts :: "host list"
  ht_period :: nat
  ht_stopped :: bool

definition hosts_new :: "host list \<Rightarrow> hosts_table" where
  "hosts_new hs = \<lparr>ht_hosts = hs, ht_period = 0, ht_stopped = False\<rparr>"

definition add_host :: "host \<Rightarrow> hosts_table \<Rightarrow> hosts_table" where
  "add_host h t = t\<lparr>ht_hosts := ht_hosts t @ [h]\<rparr>"

definition add_hosts :: "host list \<Rightarrow> hosts_table \<Rightarrow> hosts_table" where
  "add_hosts hs t = t\<lparr>ht_hosts := ht_hosts t @ hs\<rparr>"

fun lookup_loop :: "string \<Rightarrow> host list \<Rightarrow> ip_addr option" where
  "lookup_loop name [] = None"
| "lookup_loop name (h # hs) =
     (if ho_hostname h = name then Some (ho_ip h)
      else if name \<in> set (ho_aliases h) then Some (ho_ip h)
      else lookup_loop name hs)"

definition hosts_lookup :: "string \<Rightarrow> hosts_table \<Rightarrow> ip_addr option" where
  "hosts_lookup name t = (if name = [] then None else lookup_loop name (ht_hosts t))"

definition hosts_line :: "host list \<times> nat \<Rightarrow> string \<Rightarrow> host list \<times> nat" where
  "hosts_line acc line =
     (case acc of (hs, period) \<Rightarrow>
        case split_line_ref line of
          k # v # args \<Rightarrow>
            if k = ''reload'' then (hs, case parse_go_duration v of Some p \<Rightarrow> p | None \<Rightarrow> 0)
            else (case parse_ip k of
                    Some ip \<Rightarrow> (hs @ [\<lparr>ho_ip = ip, ho_hostname = v, ho_aliases = args\<rparr>], period)
                  | None \<Rightarrow> acc)
        | _ \<Rightarrow> acc)"

definition hosts_reload :: "reader \<Rightarrow> hosts_table \<Rightarrow> (io_error + unit) \<times> hosts_table" where
  "hosts_reload r t =
     (if ht_stopped t then (Inr (), t)
      else case fold_lines hosts_line ([], 0) (buf_lines r) of
        Inl e \<Rightarrow> (Inl e, t)
      | Inr (hs, period) \<Rightarrow> (Inr (), t\<lparr>ht_hosts := hs, ht_period := period\<rparr>))"

definition hosts_period :: "hosts_table \<Rightarrow> nat" where
  "hosts_period t = (if ht_stopped t then 0 else ht_period t)"

definition hosts_stop :: "hosts_table \<Rightarrow> hosts_table" where
  "hosts_stop t = t\<lparr>ht_stopped := True\<rparr>"

text \<open>\<^verbatim>\<open>parse_hosts\<close>: \<open>opened\<close> is what opening the path gives; a read error leaves the table empty.\<close>

definition parse_hosts :: "string \<Rightarrow> (io_error + reader) \<Rightarrow> hosts_table option" where
  "parse_hosts path opened =
     (if path = [] then None
      else case opened of
        Inl _ \<Rightarrow> None
      | Inr f \<Rightarrow> Some (snd (hosts_reload f (hosts_new []))))"

interpretation hosts_reloads: reloadable hosts_reload hosts_period hosts_stop ht_stopped
  by unfold_locales
    (auto simp: hosts_stop_def hosts_period_def hosts_reload_def split: if_splits sum.splits prod.splits)

section \<open>The hosts file\<close>

text \<open>A line: an address with its names, a reload directive, a line with an unreadable address, or nothing.\<close>

datatype hosts_entry = HostLine u8 u8 u8 u8 string "string list" | BadAddress string string
  | HostsReload "(nat \<times> go_unit) list" | NoEntry

fun hosts_entry_ok :: "hosts_entry \<Rightarrow> bool" where
  "hosts_entry_ok (HostLine a b c d n as) = (plain_token n \<and> list_all plain_token as)"
| "hosts_entry_ok (BadAddress x n) = (plain_token x \<and> plain_token n \<and> x \<noteq> ''reload'' \<and> parse_ip x = None)"
| "hosts_entry_ok (HostsReload cs) = (cs \<noteq> [] \<and> duration_nanos cs < 2 ^ 53)"
| "hosts_entry_ok NoEntry = True"

fun show_hosts_entry :: "hosts_entry \<Rightarrow> string list" where
  "show_hosts_entry (HostLine a b c d n as) = show_v4 a b c d # n # as"
| "show_hosts_entry (BadAddress x n) = [x, n]"
| "show_hosts_entry (HostsReload cs) = [''reload'', show_duration cs]"
| "show_hosts_entry NoEntry = []"

fun host_of_entry :: "hosts_entry \<Rightarrow> host list" where
  "host_of_entry (HostLine a b c d n as) = [\<lparr>ho_ip = V4 a b c d, ho_hostname = n, ho_aliases = as\<rparr>]"
| "host_of_entry _ = []"

definition hosts_lines :: "(char \<times> string option \<times> hosts_entry) list \<Rightarrow> bool" where
  "hosts_lines ls =
     list_all (\<lambda>(sep, comment, e). (sep = CHR '' '' \<or> sep = CHR 0x09) \<and> comment_ok comment \<and> hosts_entry_ok e) ls"

definition hosts_file :: "(char \<times> string option \<times> hosts_entry) list \<Rightarrow> reader" where
  "hosts_file ls = file_reader (map (\<lambda>(sep, comment, e). config_text sep comment (show_hosts_entry e)) ls)"

lemma show_v4_token: "plain_token (show_v4 a b c d)" "show_v4 a b c d \<noteq> ''reload''"
proof -
  have n: "CHR ''#'' \<notin> set (show_nat n)" for n by (rule show_nat_not_mem) simp
  show "plain_token (show_v4 a b c d)"
    using n by (simp add: plain_token_def show_v4_def show_nat_graphic) (simp add: graphic_def)
  have "CHR ''.'' \<in> set (show_v4 a b c d)" by (simp add: show_v4_def)
  then show "show_v4 a b c d \<noteq> ''reload''" by auto
qed

lemma entry_tokens: "hosts_entry_ok e \<Longrightarrow> list_all plain_token (show_hosts_entry e)"
  using plain_token_duration show_v4_token(1)
  by (cases e) (auto simp: plain_token_def graphic_def)

lemma hosts_line_entry:
  assumes "split_line_ref line = show_hosts_entry e" "hosts_entry_ok e"
  shows "\<exists>p'. hosts_line (hs, p) line = (hs @ host_of_entry e, p')"
  using assms show_v4_token(2)
  by (cases e) (auto simp: hosts_line_def parse_ip_show_v4 split: option.splits)

lemma hosts_lines_fold:
  assumes "hosts_lines ls"
  shows "\<exists>p. foldl hosts_line ([], 0) (map (\<lambda>(sep, comment, e). config_text sep comment (show_hosts_entry e)) ls) =
     (concat (map (\<lambda>x. host_of_entry (snd (snd x))) ls), p)"
  using assms
proof (induction ls rule: rev_induct)
  case (snoc l ls)
  obtain sep comment e where l: "l = (sep, comment, e)" by (metis prod_cases3)
  have e: "hosts_entry_ok e" "sep = CHR '' '' \<or> sep = CHR 0x09" "hosts_lines ls"
    using snoc.prems by (auto simp: l hosts_lines_def)
  obtain p where p: "foldl hosts_line ([], 0) (map (\<lambda>(sep, comment, e). config_text sep comment (show_hosts_entry e)) ls) =
     (concat (map (\<lambda>x. host_of_entry (snd (snd x))) ls), p)" using snoc.IH [OF e(3)] by blast
  show ?case using hosts_line_entry [OF split_line_words [OF entry_tokens [OF e(1)] e(2)] e(1)] p
    by (simp add: l)
qed simp

lemma lookup_loop_find:
  "lookup_loop name hs = map_option ho_ip (find (\<lambda>h. ho_hostname h = name \<or> name \<in> set (ho_aliases h)) hs)"
  by (induction hs) auto

section \<open>Properties\<close>



end
