(* ===== verification/Chain.thy ===== *)
theory Chain
  imports Connectors Selector Hosts
begin

text \<open>
  Proxy chains (\<^verbatim>\<open>src/src/chain.rs\<close>): dialling a target through a list of hops, each reached through
  the one before. The network, the name resolver and the transports and connectors that are
  not modelled (TLS, WebSocket, obfuscation, HTTP/2, multiplexed and SSH sessions, Shadowsocks,
  relay, SNI) are parameters, collected in the record \<open>net\<close>; each is asked with a running
  number, so that two calls may answer differently. What is dialled is logged.
\<close>

section \<open>State\<close>

record 'r chain =
  ch_retries :: nat
  ch_mark :: int
  ch_interface :: string
  ch_timeout :: nat
  ch_hosts :: "hosts_table option"
  ch_resolver :: "'r option"
  ch_groups :: "node_group list"
  ch_is_route :: bool

record 'r chain_options =
  co_retries :: nat
  co_timeout :: nat
  co_hosts :: "hosts_table option"
  co_resolver :: "'r option"

definition chain_new :: "node list \<Rightarrow> 'r chain" where
  "chain_new nodes =
     \<lparr>ch_retries = 0, ch_mark = 0, ch_interface = [], ch_timeout = 0, ch_hosts = None, ch_resolver = None,
      ch_groups = map (\<lambda>n. group_new [n]) nodes, ch_is_route = False\<rparr>"

definition chain_empty :: "'r chain" where
  "chain_empty =
     \<lparr>ch_retries = 0, ch_mark = 0, ch_interface = [], ch_timeout = 0, ch_hosts = None, ch_resolver = None,
      ch_groups = [], ch_is_route = False\<rparr>"

definition chain_is_empty :: "'r chain \<Rightarrow> bool" where
  "chain_is_empty ch \<longleftrightarrow> ch_groups ch = []"

definition chain_nodes :: "'r chain \<Rightarrow> node list" where
  "chain_nodes ch = List.map_filter (\<lambda>g. group_get_node g 0) (ch_groups ch)"

text \<open>\<^verbatim>\<open>Node::default()\<close> makes a fresh failure marker, here \<open>marker\<close>.\<close>

definition chain_last_node :: "nat \<Rightarrow> 'r chain \<Rightarrow> node" where
  "chain_last_node marker ch =
     (if chain_is_empty ch then node_default marker
      else case group_get_node (last (ch_groups ch)) 0 of Some n \<Rightarrow> n | None \<Rightarrow> node_default marker)"

definition chain_add_node :: "node \<Rightarrow> 'r chain \<Rightarrow> 'r chain" where
  "chain_add_node n ch = ch\<lparr>ch_groups := ch_groups ch @ [group_new [n]]\<rparr>"

definition chain_add_node_group :: "node_group \<Rightarrow> 'r chain \<Rightarrow> 'r chain" where
  "chain_add_node_group g ch = ch\<lparr>ch_groups := ch_groups ch @ [g]\<rparr>"

definition default_options :: "'r chain \<Rightarrow> 'r chain_options" where
  "default_options ch =
     \<lparr>co_retries = ch_retries ch, co_timeout = ch_timeout ch, co_hosts = ch_hosts ch, co_resolver = ch_resolver ch\<rparr>"

section \<open>The outside\<close>

text \<open>
  What the operating system and the other modules answer; \<open>None\<close> is a timeout. The first
  argument is the running number of the call.
\<close>

record 'r net =
  nt_connect :: "nat \<Rightarrow> nat \<Rightarrow> string \<Rightarrow> (io_error + tcp_stream) option"
  nt_lookup :: "nat \<Rightarrow> nat \<Rightarrow> string \<Rightarrow> (io_error + socket_addr list) option"
  nt_socket :: "nat \<Rightarrow> socket_addr \<Rightarrow> io_error + unit"
  nt_set_mark :: "nat \<Rightarrow> int \<Rightarrow> io_error + unit"
  nt_set_interface :: "nat \<Rightarrow> string \<Rightarrow> io_error + unit"
  nt_connect_sock :: "nat \<Rightarrow> nat \<Rightarrow> socket_addr \<Rightarrow> (io_error + tcp_stream) option"
  nt_resolve :: "nat \<Rightarrow> 'r \<Rightarrow> string \<Rightarrow> string + ip_addr list"
  nt_tls :: "nat \<Rightarrow> string list \<Rightarrow> tls_client"
  nt_ws :: "nat \<Rightarrow> string \<Rightarrow> node \<Rightarrow> proxy_conn \<Rightarrow> string + wire"
  nt_otls :: "nat \<Rightarrow> string \<Rightarrow> proxy_conn \<Rightarrow> string + wire"
  nt_ohttp :: "nat \<Rightarrow> string \<Rightarrow> proxy_conn \<Rightarrow> string + wire"
  nt_h2 :: "nat \<Rightarrow> string \<Rightarrow> node \<Rightarrow> proxy_conn \<Rightarrow> string + wire"
  nt_session :: "nat \<Rightarrow> nat \<Rightarrow> node \<Rightarrow> string + wire"
  nt_ssh :: "nat \<Rightarrow> nat \<Rightarrow> node \<Rightarrow> string \<Rightarrow> string + proxy_conn"
  nt_connector :: "nat \<Rightarrow> node \<Rightarrow> string \<Rightarrow> proxy_conn \<Rightarrow> string + wire"
  nt_base64 :: "bytes \<Rightarrow> string"

datatype action =
    TcpConnect string | SockConnect socket_addr | SessionDial string
  | TcpListen string | UdpListen socket_addr | UdpQuery string

record world =
  wd_tick :: nat
  wd_log :: "action list"

definition tick :: "world \<Rightarrow> world" where
  "tick w = w\<lparr>wd_tick := Suc (wd_tick w)\<rparr>"

definition logged :: "action \<Rightarrow> world \<Rightarrow> world" where
  "logged a w = w\<lparr>wd_tick := Suc (wd_tick w), wd_log := wd_log w @ [a]\<rparr>"

section \<open>Dialling\<close>

definition DIAL_TIMEOUT :: nat where
  "DIAL_TIMEOUT = 5 * 1000000000"

definition connect_tcp :: "'r net \<Rightarrow> 'r chain \<Rightarrow> string \<Rightarrow> nat \<Rightarrow> world \<Rightarrow> (chain_error + tcp_stream) \<times> world" where
  "connect_tcp N ch addr timeout w =
     (if ch_mark ch = 0 \<and> ch_interface ch = []
      then ((case nt_connect N (wd_tick w) timeout addr of
               None \<Rightarrow> Inl ChainTimeout
             | Some (Inl e) \<Rightarrow> Inl (ChainIo e)
             | Some (Inr s) \<Rightarrow> Inr s), logged (TcpConnect addr) w)
      else
        (case nt_lookup N (wd_tick w) timeout addr of
           None \<Rightarrow> (Inl ChainTimeout, tick w)
         | Some (Inl e) \<Rightarrow> (Inl (ChainIo e), tick w)
         | Some (Inr []) \<Rightarrow> (Inl (ProxyError (''could not resolve '' @ addr)), tick w)
         | Some (Inr (sa # _)) \<Rightarrow>
             let w1 = tick w
             in (case nt_socket N (wd_tick w1) sa of
                   Inl e \<Rightarrow> (Inl (ChainIo e), w1)
                 | Inr _ \<Rightarrow>
                     (case (if ch_mark ch \<noteq> 0 then nt_set_mark N (wd_tick w1) (ch_mark ch) else Inr ()) of
                        Inl e \<Rightarrow> (Inl (ChainIo e), w1)
                      | Inr _ \<Rightarrow>
                          (case (if ch_interface ch \<noteq> [] then nt_set_interface N (wd_tick w1) (ch_interface ch) else Inr ()) of
                             Inl e \<Rightarrow> (Inl (ChainIo e), w1)
                           | Inr _ \<Rightarrow>
                               ((case nt_connect_sock N (wd_tick w1) timeout sa of
                                   None \<Rightarrow> Inl ChainTimeout
                                 | Some (Inl e) \<Rightarrow> Inl (ChainIo e)
                                 | Some (Inr s) \<Rightarrow> Inr s), logged (SockConnect sa) w1))))))"

definition chain_resolve ::
    "'r net \<Rightarrow> 'r option \<Rightarrow> hosts_table option \<Rightarrow> string \<Rightarrow> world \<Rightarrow> string \<times> world" where
  "chain_resolve N resolver htab addr w =
     (case chain_split_host_port addr of
        Inl _ \<Rightarrow> (addr, w)
      | Inr (host, port) \<Rightarrow>
          (case (case htab of Some h \<Rightarrow> hosts_lookup host h | None \<Rightarrow> None) of
             Some ip \<Rightarrow> (chain_join_host_port (show_ip ip) port, w)
           | None \<Rightarrow>
               (case resolver of
                  None \<Rightarrow> (addr, w)
                | Some r \<Rightarrow>
                    (case nt_resolve N (wd_tick w) r host of
                       Inr (ip # _) \<Rightarrow> (chain_join_host_port (show_ip ip) port, tick w)
                     | _ \<Rightarrow> (addr, tick w)))))"

text \<open>\<^verbatim>\<open>{:?}\<close> of a transport or protocol name (the names contain nothing to escape).\<close>

definition debug_str :: "string \<Rightarrow> string" where
  "debug_str s = [CHR 0x22] @ s @ [CHR 0x22]"

definition relayered :: "proxy_conn \<Rightarrow> (string \<Rightarrow> chain_error) \<Rightarrow> string + wire \<Rightarrow> chain_error + proxy_conn" where
  "relayered c wrap r = (case r of Inl e \<Rightarrow> Inl (wrap e) | Inr w \<Rightarrow> Inr (layered w (px_peer c) (px_local c)))"

definition layer_transport :: "'r net \<Rightarrow> node \<Rightarrow> proxy_conn \<Rightarrow> world \<Rightarrow> (chain_error + proxy_conn) \<times> world" where
  "layer_transport N n c w =
     (let t = nd_transport n;
          host = hop_hostname n;
          insecure = (\<not> node_get_bool n ''secure'');
          i = wd_tick w;
          tls_err = (\<lambda>e. ProxyError (''TLS handshake with '' @ host @ '' failed: '' @ e));
          boxed = (\<lambda>x. layered x None None)
      in if t = [] \<or> t = ''tcp'' then (Inr c, w)
         else if t = ''tls'' then (relayered c tls_err (nt_tls N i [] host insecure c), tick w)
         else if t = ''ws'' \<or> t = ''wss''
         then let ws_err = (\<lambda>e. ProxyError (''WebSocket handshake with '' @ host @ '' failed: '' @ e))
              in ((if t = ''wss''
                   then (case nt_tls N i [] host insecure c of
                           Inl e \<Rightarrow> Inl (tls_err e)
                         | Inr x \<Rightarrow> relayered c ws_err (nt_ws N i host n (boxed x)))
                   else relayered c ws_err (nt_ws N i host n c)), tick w)
         else if t = ''otls''
         then (relayered c (\<lambda>e. ProxyError (''obfs-tls handshake with '' @ host @ '' failed: '' @ e)) (nt_otls N i host c), tick w)
         else if t = ''ohttp''
         then (relayered c (\<lambda>e. ProxyError (''obfs-http handshake with '' @ host @ '' failed: '' @ e)) (nt_ohttp N i host c), tick w)
         else if t = ''http2'' then (relayered c tls_err (nt_tls N i [''h2''] host insecure c), tick w)
         else if t = ''h2'' \<or> t = ''h2c''
         then let h2_err = (\<lambda>e. ProxyError (''HTTP/2 tunnel to '' @ host @ '' failed: '' @ e))
              in ((if t = ''h2''
                   then (case nt_tls N i [''h2''] host insecure c of
                           Inl e \<Rightarrow> Inl (tls_err e)
                         | Inr x \<Rightarrow> relayered c h2_err (nt_h2 N i host n (boxed x)))
                   else relayered c h2_err (nt_h2 N i host n c)), tick w)
         else (Inl (ProxyError (''chain node transport '' @ debug_str t @ '' is not implemented'')), w))"

definition run_connector :: "(chain_error, unit) io \<Rightarrow> proxy_conn \<Rightarrow> chain_error + proxy_conn" where
  "run_connector m c = (case m c of (Inl e, _) \<Rightarrow> Inl e | (Inr _, c') \<Rightarrow> Inr c')"

definition connect_via :: "'r net \<Rightarrow> node \<Rightarrow> string \<Rightarrow> proxy_conn \<Rightarrow> world \<Rightarrow> (chain_error + proxy_conn) \<times> world" where
  "connect_via N n target c w =
     (let p = nd_protocol n;
          run = (\<lambda>m. (run_connector m c, w))
      in if p = ''http'' \<or> p = [] then run (http_connect (nt_base64 N) target (nd_user n))
         else if p = ''socks5'' then run (socks5_connect (nt_tls N (wd_tick w) []) target n)
         else if p = ''socks4'' then run (socks4_connect target (nd_user n) False)
         else if p = ''socks4a'' then run (socks4_connect target (nd_user n) True)
         else if p = ''sni'' \<or> p = ''http2''
         then (relayered c ProxyError (nt_connector N (wd_tick w) n target c), tick w)
         else if p = ''ss'' \<or> p = ''relay''
         then (case nt_connector N (wd_tick w) n target c of
                 Inl e \<Rightarrow> (Inl (ProxyError e), tick w)
               | Inr x \<Rightarrow> (Inr (layered x None None), tick w))
         else if p = ''forward'' \<or> p = ''direct'' \<or> p = ''remote'' then (Inr c, w)
         else (Inl (ProxyError (''chain node protocol '' @ debug_str p @ '' is not supported as a chain connector'')), w))"

definition hop_target :: "node list \<Rightarrow> string \<Rightarrow> nat \<Rightarrow> string" where
  "hop_target nodes target i = (if i = length nodes - 1 then target else nd_addr (nodes ! (i + 1)))"

definition session_transport :: "string \<Rightarrow> bool" where
  "session_transport t \<longleftrightarrow> is_mux_transport t \<or> t = ''quic'' \<or> t = ''ssh'' \<or> t = ''kcp''"

text \<open>The hops after the first, from hop \<open>i\<close> on.\<close>

function remaining_hops ::
    "'r net \<Rightarrow> node list \<Rightarrow> string \<Rightarrow> nat \<Rightarrow> proxy_conn \<Rightarrow> world \<Rightarrow> (chain_error + proxy_conn) \<times> world" where
  "remaining_hops N nodes target i c w =
     (if i < length nodes
      then let n = nodes ! i
           in if session_transport (nd_transport n)
              then (Inl (ProxyError (''chain node transport '' @ debug_str (nd_transport n)
                      @ '' is only supported on the first hop (in '' @ node_display n @ '')'')), w)
              else (case layer_transport N n c w of
                      (Inl e, w) \<Rightarrow> (Inl e, w)
                    | (Inr c, w) \<Rightarrow>
                        (case connect_via N n (hop_target nodes target i) c w of
                           (Inl e, w) \<Rightarrow> (Inl e, w)
                         | (Inr c, w) \<Rightarrow> remaining_hops N nodes target (Suc i) c w))
      else (Inr c, w))"
  by pat_completeness auto
termination
  by (relation "measure (\<lambda>(_, nodes, _, i, _, _). length nodes - i)") auto

declare remaining_hops.simps [simp del]

definition first_hop ::
    "'r net \<Rightarrow> 'r chain \<Rightarrow> node \<Rightarrow> nat \<Rightarrow> world \<Rightarrow> (chain_error + proxy_conn) \<times> world" where
  "first_hop N ch n timeout w =
     (if is_mux_transport (nd_transport n) \<or> nd_transport n = ''quic'' \<or> nd_transport n = ''kcp''
      then ((case nt_session N (wd_tick w) timeout n of
               Inl e \<Rightarrow> Inl (ProxyError e)
             | Inr x \<Rightarrow> Inr (layered x None None)), logged (SessionDial (nd_addr n)) w)
      else (case connect_tcp N ch (nd_addr n) timeout w of
              (Inl e, w) \<Rightarrow> (Inl e, w)
            | (Inr s, w) \<Rightarrow> layer_transport N n (from_tcp s) w))"

definition dial_once ::
    "'r net \<Rightarrow> 'r chain \<Rightarrow> string \<Rightarrow> 'r chain_options \<Rightarrow> world \<Rightarrow> (chain_error + proxy_conn) \<times> world" where
  "dial_once N ch address opts w0 =
     (let (resolved, w) = chain_resolve N (co_resolver opts) (co_hosts opts) address w0;
          target = (if resolved = [] then address else resolved);
          timeout = (if co_timeout opts > 0 then co_timeout opts else DIAL_TIMEOUT)
      in if chain_is_empty ch
         then (case connect_tcp N ch target timeout w of
                 (Inl e, w) \<Rightarrow> (Inl e, w)
               | (Inr s, w) \<Rightarrow> (Inr (from_tcp s), w))
         else
           let nodes = chain_nodes ch
           in case nodes of
                [] \<Rightarrow> (Inl EmptyChain, w)
              | first # _ \<Rightarrow>
                  if nd_transport first = ''ssh''
                  then ((case nt_ssh N (wd_tick w) timeout first (hop_target nodes target 0) of
                           Inl e \<Rightarrow> Inl (ProxyError e)
                         | Inr c \<Rightarrow> Inr c), logged (SessionDial (nd_addr first)) w)
                  else (case first_hop N ch first timeout w of
                          (Inl e, w) \<Rightarrow> (Inl e, w)
                        | (Inr c, w) \<Rightarrow>
                            (case connect_via N first (hop_target nodes target 0) c w of
                               (Inl e, w) \<Rightarrow> (Inl e, w)
                             | (Inr c, w) \<Rightarrow> remaining_hops N nodes target 1 c w)))"

text \<open>\<^verbatim>\<open>for _ in 0..retries\<close>.\<close>

fun dial_tries ::
    "(world \<Rightarrow> (chain_error + proxy_conn) \<times> world) \<Rightarrow> nat \<Rightarrow> chain_error \<Rightarrow> world \<Rightarrow> (chain_error + proxy_conn) \<times> world" where
  "dial_tries once 0 last_err w = (Inl last_err, w)"
| "dial_tries once (Suc n) last_err w =
     (case once w of
        (Inr c, w) \<Rightarrow> (Inr c, w)
      | (Inl e, w) \<Rightarrow> dial_tries once n e w)"

definition dial_with_options ::
    "'r net \<Rightarrow> 'r chain \<Rightarrow> string \<Rightarrow> 'r chain_options \<Rightarrow> world \<Rightarrow> (chain_error + proxy_conn) \<times> world" where
  "dial_with_options N ch address opts w =
     (let retries = 1;
          retries = (if ch_retries ch > 0 then ch_retries ch else retries);
          retries = (if co_retries opts > 0 then co_retries opts else retries)
      in dial_tries (dial_once N ch address opts) retries EmptyChain w)"

definition chain_dial :: "'r net \<Rightarrow> 'r chain \<Rightarrow> string \<Rightarrow> world \<Rightarrow> (chain_error + proxy_conn) \<times> world" where
  "chain_dial N ch address w = dial_with_options N ch address (default_options ch) w"

section \<open>A dial through hops that grant it\<close>

lemma run_connector_runs:
  assumes "runs m c (\<lambda>r c'. r = Inr () \<and> P c')"
  shows "\<exists>c'. run_connector m c = Inr c' \<and> P c'"
  using assms by (auto simp: runs_def run_connector_def split: prod.splits)

lemma connect_via_dialogue:
  assumes "hop_dialogue (nt_base64 N) n t req resp" "conn_at l (resp @ rest) out c"
  shows "\<exists>c'. connect_via N n t c w = (Inr c', w) \<and> conn_at l rest (out @ req) c'"
  using assms
proof (cases rule: hop_dialogue.cases)
  case http
  have "runs (http_connect (nt_base64 N) t (nd_user n)) c (\<lambda>r c'. r = Inr () \<and> conn_at l rest (out @ req) c')"
    by (rule runs_http_connect [OF assms(2) http(3)]) (simp add: http(1))
  from run_connector_runs [OF this] http(2) show ?thesis by (auto simp: connect_via_def)
next
  case (socks4 d h p)
  have "runs (socks4_connect t (nd_user n) d) c (\<lambda>r c'. r = Inr () \<and> conn_at l rest (out @ req) c')"
    by (rule runs_socks4_connect [OF assms(2) socks4(2-5)]) simp
  from run_connector_runs [OF this] socks4(1) show ?thesis by (auto simp: connect_via_def split: if_splits)
next
  case (socks5 h p atyp bnd v r)
  have a: "conn_at l ([0x05, METHOD_NO_AUTH] @ [v, 0x00, r, atyp] @ bnd @ rest) out c" using assms(2) socks5(2) by simp
  have "runs (socks5_connect (nt_tls N (wd_tick w) []) t n) c (\<lambda>r c'. r = Inr () \<and> conn_at l rest (out @ req) c')"
    by (rule runs_socks5_connect [OF a socks5(4,5)]) (simp add: socks5(1))
  from run_connector_runs [OF this] socks5(3) show ?thesis by (auto simp: connect_via_def)
next
  case (socks5_auth h p atyp bnd u pw ww v r)
  have a: "conn_at l ([0x05, METHOD_USER_PASS] @ [ww, 0x00] @ [v, 0x00, r, atyp] @ bnd @ rest) out c"
    using assms(2) socks5_auth(2) by simp
  have "runs (socks5_connect (nt_tls N (wd_tick w) []) t n) c (\<lambda>r c'. r = Inr () \<and> conn_at l rest (out @ req) c')"
    by (rule runs_socks5_connect_auth [OF a socks5_auth(4-8)]) (simp add: socks5_auth(1))
  from run_connector_runs [OF this] socks5_auth(3) show ?thesis by (auto simp: connect_via_def)
next
  case forward
  then show ?thesis using assms(2) by (auto simp: connect_via_def)
qed

text \<open>
  The dialogues of all hops from hop \<open>i\<close> on: each hop is asked for the address of the next, the last
  for the target.
\<close>

definition plain_hops :: "(bytes \<Rightarrow> string) \<Rightarrow> node list \<Rightarrow> string \<Rightarrow> nat \<Rightarrow> bytes list \<Rightarrow> bytes list \<Rightarrow> bool" where
  "plain_hops b64 nodes target i reqs resps \<longleftrightarrow>
     length reqs = length nodes - i \<and> length resps = length nodes - i \<and>
     (\<forall>k < length nodes - i. nd_transport (nodes ! (i + k)) \<in> {[], ''tcp''} \<and>
        hop_dialogue b64 (nodes ! (i + k)) (hop_target nodes target (i + k)) (reqs ! k) (resps ! k))"

lemma plain_hops_step:
  assumes "plain_hops b64 nodes target i reqs resps" "i < length nodes"
  obtains req reqs' resp resps' where "reqs = req # reqs'" "resps = resp # resps'"
    "nd_transport (nodes ! i) \<in> {[], ''tcp''}" "hop_dialogue b64 (nodes ! i) (hop_target nodes target i) req resp"
    "plain_hops b64 nodes target (Suc i) reqs' resps'"
proof -
  obtain req reqs' where r: "reqs = req # reqs'" using assms by (cases reqs) (auto simp: plain_hops_def)
  obtain resp resps' where s: "resps = resp # resps'" using assms by (cases resps) (auto simp: plain_hops_def)
  have all: "\<And>k. k < length nodes - i \<Longrightarrow> nd_transport (nodes ! (i + k)) \<in> {[], ''tcp''} \<and>
        hop_dialogue b64 (nodes ! (i + k)) (hop_target nodes target (i + k)) (reqs ! k) (resps ! k)"
    using assms(1) by (simp add: plain_hops_def)
  have "plain_hops b64 nodes target (Suc i) reqs' resps'"
    using all [of "Suc _"] assms by (auto simp: plain_hops_def r s)
  then show ?thesis using that [OF r s] all [of 0] assms(2) r s by simp
qed

lemma layer_plain: "nd_transport n \<in> {[], ''tcp''} \<Longrightarrow> layer_transport N n c w = (Inr c, w)"
  by (auto simp: layer_transport_def)

lemma remaining_hops_plain:
  assumes "plain_hops (nt_base64 N) nodes target i reqs resps" "conn_at l (concat resps @ rest) out c" "i \<le> length nodes"
  shows "\<exists>c'. remaining_hops N nodes target i c w = (Inr c', w) \<and> conn_at l rest (out @ concat reqs) c'"
  using assms
proof (induction "length nodes - i" arbitrary: i reqs resps out c)
  case 0
  then have "reqs = []" "resps = []" by (simp_all add: plain_hops_def)
  then show ?case using 0 by (simp add: remaining_hops.simps)
next
  case (Suc k)
  then have i: "i < length nodes" by simp
  from Suc.prems(1) i obtain req reqs' resp resps' where h: "reqs = req # reqs'" "resps = resp # resps'"
    "nd_transport (nodes ! i) \<in> {[], ''tcp''}" "hop_dialogue (nt_base64 N) (nodes ! i) (hop_target nodes target i) req resp"
    "plain_hops (nt_base64 N) nodes target (Suc i) reqs' resps'" by (rule plain_hops_step)
  have "conn_at l (resp @ concat resps' @ rest) out c" using Suc.prems(2) h(2) by simp
  from connect_via_dialogue [OF h(4) this] obtain c1 where
    c1: "connect_via N (nodes ! i) (hop_target nodes target i) c w = (Inr c1, w)" "conn_at l (concat resps' @ rest) (out @ req) c1"
    by blast
  have "\<not> session_transport (nd_transport (nodes ! i))"
    using h(3) by (auto simp: session_transport_def is_mux_transport_def)
  moreover have "k = length nodes - Suc i" "Suc i \<le> length nodes" using Suc.hyps(2) i by simp_all
  from Suc.hyps(1) [OF this(1) h(5) c1(2) this(2)] obtain c' where
    "remaining_hops N nodes target (Suc i) c1 w = (Inr c', w)" "conn_at l rest ((out @ req) @ concat reqs') c'" by auto
  ultimately show ?case using i c1(1) h(1,3) by (simp add: remaining_hops.simps [of N nodes target i] layer_plain Let_def)
qed

section \<open>Properties\<close>


text \<open>What a dial through a chain may touch: its first hop.\<close>

definition via_first :: "'r net \<Rightarrow> node list \<Rightarrow> action \<Rightarrow> bool" where
  "via_first N nodes a = (case nodes of [] \<Rightarrow> False
     | first # _ \<Rightarrow> (case a of
         TcpConnect addr \<Rightarrow> addr = nd_addr first
       | SessionDial addr \<Rightarrow> addr = nd_addr first
       | SockConnect sa \<Rightarrow> \<exists>i t r. nt_lookup N i t (nd_addr first) = Some (Inr (sa # r))
       | _ \<Rightarrow> False))"

definition extends :: "(action \<Rightarrow> bool) \<Rightarrow> world \<Rightarrow> world \<Rightarrow> bool" where
  "extends P w w' \<longleftrightarrow> (\<exists>acts. wd_log w' = wd_log w @ acts \<and> list_all P acts)"

lemma extends_refl [simp]: "extends P w w" "extends P w (tick w)"
  by (simp_all add: extends_def tick_def)

lemma extends_logged [simp]: "P a \<Longrightarrow> extends P w (logged a w)"
  by (simp add: extends_def logged_def)

lemma extends_logged_tick [simp]: "P a \<Longrightarrow> extends P w (logged a (tick w))"
  by (simp add: extends_def logged_def tick_def)

lemma extends_trans: "extends P w w1 \<Longrightarrow> extends P w1 w2 \<Longrightarrow> extends P w w2"
  by (fastforce simp: extends_def)

lemma extends_layer: "layer_transport N n c w = (r, w') \<Longrightarrow> extends P w w'"
  by (auto simp: layer_transport_def Let_def split: if_splits)

lemma extends_via: "connect_via N n t c w = (r, w') \<Longrightarrow> extends P w w'"
  by (auto simp: connect_via_def Let_def split: if_splits sum.splits)

lemma extends_remaining: "remaining_hops N nodes t i c w = (r, w') \<Longrightarrow> extends P w w'"
proof (induction N nodes t i c w rule: remaining_hops.induct)
  case (1 N nodes t i c w)
  show ?case
  proof (cases "i < length nodes \<and> \<not> session_transport (nd_transport (nodes ! i))")
    case True
    then have i: "i < length nodes" "\<not> session_transport (nd_transport (nodes ! i))" by auto
    obtain x w1 where l: "layer_transport N (nodes ! i) c w = (x, w1)" by (cases "layer_transport N (nodes ! i) c w")
    note e1 = extends_layer [OF l, of P]
    show ?thesis
    proof (cases x)
      case (Inl e)
      then show ?thesis using 1(2) i l e1 by (simp add: remaining_hops.simps [of N nodes t i] Let_def)
    next
      case (Inr c1)
      obtain y w2 where v: "connect_via N (nodes ! i) (hop_target nodes t i) c1 w1 = (y, w2)"
        by (cases "connect_via N (nodes ! i) (hop_target nodes t i) c1 w1")
      note e2 = extends_trans [OF e1 extends_via [OF v]]
      show ?thesis
      proof (cases y)
        case y: (Inl e)
        then show ?thesis using 1(2) i l v Inr e2 by (simp add: remaining_hops.simps [of N nodes t i] Let_def)
      next
        case y: (Inr c2)
        then have "remaining_hops N nodes t (Suc i) c2 w2 = (r, w')"
          using 1(2) i l v Inr by (simp add: remaining_hops.simps [of N nodes t i] Let_def)
        from 1(1) [OF i(1) refl i(2) l [symmetric] Inr v [symmetric] y this] e2 show ?thesis
          by (rule extends_trans [rotated])
      qed
    qed
  next
    case False
    then show ?thesis using 1(2) by (auto simp: remaining_hops.simps [of N nodes t i] Let_def split: if_splits)
  qed
qed

lemma via_first_sock:
  "nt_lookup N i t (nd_addr first) = Some (Inr (sa # r)) \<Longrightarrow> via_first N (first # rest) (SockConnect sa)"
  by (auto simp: via_first_def)

lemma extends_connect_tcp:
  assumes "connect_tcp N ch (nd_addr first) timeout w = (r, w')"
  shows "extends (via_first N (first # rest)) w w'"
proof (cases "ch_mark ch = 0 \<and> ch_interface ch = []")
  case True
  then show ?thesis using assms by (auto simp: connect_tcp_def via_first_def)
next
  case False
  show ?thesis
  proof (cases "\<exists>sa r. nt_lookup N (wd_tick w) timeout (nd_addr first) = Some (Inr (sa # r))")
    case True
    then obtain sa r where l: "nt_lookup N (wd_tick w) timeout (nd_addr first) = Some (Inr (sa # r))" by blast
    have "w' = tick w \<or> w' = logged (SockConnect sa) (tick w)"
      using assms False l by (auto simp: connect_tcp_def Let_def split: if_splits sum.splits)
    then show ?thesis using via_first_sock [OF l, of rest] by auto
  next
    case nl: False
    then have "w' = tick w" using assms False by (auto simp: connect_tcp_def Let_def split: option.splits sum.splits list.splits)
    then show ?thesis by simp
  qed
qed

lemma extends_first_hop:
  assumes "first_hop N ch first timeout w = (r, w')"
  shows "extends (via_first N (first # rest)) w w'"
proof (cases "is_mux_transport (nd_transport first) \<or> nd_transport first = ''quic'' \<or> nd_transport first = ''kcp''")
  case True
  then show ?thesis using assms by (auto simp: first_hop_def via_first_def)
next
  case False
  obtain x w1 where x: "connect_tcp N ch (nd_addr first) timeout w = (x, w1)"
    by (cases "connect_tcp N ch (nd_addr first) timeout w")
  note e = extends_connect_tcp [OF x, of rest]
  show ?thesis using assms False x e extends_trans [OF e] by (auto simp: first_hop_def split: sum.splits dest!: extends_layer)
qed

lemma extends_resolve: "chain_resolve N r h a w = (x, w') \<Longrightarrow> extends P w w'"
  by (auto simp: chain_resolve_def split: sum.splits prod.splits option.splits list.splits)

lemma extends_dial_once:
  assumes "\<not> chain_is_empty ch" "dial_once N ch address opts w = (r, w')"
  shows "extends (via_first N (chain_nodes ch)) w w' \<and> (chain_nodes ch = [] \<longrightarrow> r = Inl EmptyChain)"
proof -
  obtain t w1 where t: "chain_resolve N (co_resolver opts) (co_hosts opts) address w = (t, w1)"
    by (cases "chain_resolve N (co_resolver opts) (co_hosts opts) address w")
  define target where "target = (if t = [] then address else t)"
  define timeout where "timeout = (if co_timeout opts > 0 then co_timeout opts else DIAL_TIMEOUT)"
  have e1: "extends P w w1" for P by (rule extends_resolve [OF t])
  show ?thesis
  proof (cases "chain_nodes ch")
    case Nil
    then show ?thesis using assms t e1 by (simp add: dial_once_def)
  next
    case (Cons first rest)
    let ?P = "via_first N (first # rest)"
    obtain x w2 where x: "first_hop N ch first timeout w1 = (x, w2)" by (cases "first_hop N ch first timeout w1")
    note e2 = extends_trans [OF e1 extends_first_hop [OF x]]
    show ?thesis
    proof (cases "nd_transport first = ''ssh''")
      case True
      moreover have "extends ?P w (logged (SessionDial (nd_addr first)) w1)"
        by (rule extends_trans [OF e1]) (simp add: via_first_def)
      ultimately show ?thesis using assms t Cons by (simp add: dial_once_def Let_def)
    next
      case ns: False
      show ?thesis
      proof (cases x)
        case (Inl e)
        then show ?thesis using assms t Cons ns x e2 by (simp add: dial_once_def Let_def timeout_def)
      next
        case (Inr c)
        obtain y w3 where y: "connect_via N first (hop_target (first # rest) target 0) c w2 = (y, w3)"
          by (cases "connect_via N first (hop_target (first # rest) target 0) c w2")
        note e3 = extends_trans [OF e2 extends_via [OF y]]
        show ?thesis using assms t Cons ns x y Inr e3 extends_trans [OF e3]
          by (cases y) (auto simp: dial_once_def Let_def timeout_def target_def dest!: extends_remaining)
      qed
    qed
  qed
qed

lemma extends_tries:
  assumes "\<And>w r w'. once w = (r, w') \<Longrightarrow> extends P w w' \<and> (Z \<longrightarrow> r = Inl EmptyChain)"
  shows "dial_tries once n e w = (r, w') \<Longrightarrow> extends P w w' \<and> (Z \<longrightarrow> (\<exists>e'. r = Inl e'))"
proof (induction n arbitrary: e w)
  case (Suc n)
  obtain x w1 where x: "once w = (x, w1)" by (cases "once w")
  show ?case
  proof (cases x)
    case (Inl e1)
    then have "dial_tries once n e1 w1 = (r, w')" using Suc.prems x by simp
    from Suc.IH [OF this] assms [OF x] show ?thesis using extends_trans by blast
  next
    case (Inr c)
    then show ?thesis using Suc.prems x assms [OF x] by auto
  qed
qed auto

lemma extends_dial_options:
  assumes "\<not> chain_is_empty ch" "dial_with_options N ch address opts w = (r, w')"
  shows "extends (via_first N (chain_nodes ch)) w w' \<and> (chain_nodes ch = [] \<longrightarrow> (\<exists>e. r = Inl e))"
  by (rule extends_tries [OF extends_dial_once [OF assms(1)]])
    (use assms(2) in \<open>auto simp: dial_with_options_def Let_def\<close>)


definition demo_head :: bytes where
  "demo_head = as_bytes (''HTTP/1.1 200 OK'' @ crlf @ crlf)"

lemma split_ws_graphic:
  assumes "list_all graphic a"
  shows "split_ws cur (a @ s) = split_ws (cur @ a) s"
  using assms
proof (induction a arbitrary: cur)
  case (Cons c a)
  have "find (\<lambda>w. w \<noteq> [] \<and> prefix w (c # a @ s)) ws_enc = None"
    using graphic_not_ws_hd [of c] Cons.prems by (auto simp: find_None_iff prefix_def neq_Nil_conv) (metis list.sel(1) append_Cons)
  then show ?case using Cons by (simp add: split_ws.simps [of cur "c # a @ s"])
qed simp

lemma split_ws_space: "split_ws cur (CHR '' '' # s) = (if cur = [] then [] else [cur]) @ split_ws [] s"
  by (subst split_ws.simps) (simp add: ws_enc_def)

lemma split_ws_word:
  "list_all graphic a \<Longrightarrow> a \<noteq> [] \<Longrightarrow> split_ws [] (a @ CHR '' '' # s) = a # split_ws [] s"
  "list_all graphic a \<Longrightarrow> a \<noteq> [] \<Longrightarrow> split_ws [] a = [a]"
  using split_ws_graphic [of a "[]" "CHR '' '' # s"] split_ws_graphic [of a "[]" "[]"]
  by (simp_all add: split_ws_space split_ws.simps [of a "[]"])

lemma demo_head_ok: "http_accepts demo_head"
proof -
  have fl: "first_line (''HTTP/1.1 200 OK'' @ crlf @ crlf) = ''HTTP/1.1 200 OK''"
    by (simp add: first_line_def crlf_def strip_cr_def)
  have g: "list_all graphic ''HTTP/1.1''" "list_all graphic ''200''" "list_all graphic ''OK''" by (simp_all add: graphic_def)
  have "split_ws [] ''HTTP/1.1 200 OK'' = [''HTTP/1.1'', ''200'', ''OK'']"
    using split_ws_word(1) [OF g(1), of "''200 OK''"] split_ws_word(1) [OF g(2), of "''OK''"] split_ws_word(2) [OF g(3)] by simp
  then have "nth_word 1 ''HTTP/1.1 200 OK'' = ''200''" by (simp add: nth_word_def)
  moreover have "ascii (''HTTP/1.1 200 OK'' @ crlf @ crlf)" by (simp add: ascii_def byte_in_def crlf_def)
  then have "from_utf8_lossy demo_head = ''HTTP/1.1 200 OK'' @ crlf @ crlf"
    unfolding demo_head_def by (intro from_utf8_lossy_as_bytes ascii_utf8)
  moreover have "head_ok demo_head"
    by (simp add: head_ok_def demo_head_def MEDIUM_BUFFER_SIZE_def crlf_def)
  ultimately show ?thesis by (simp only: http_accepts_def fl)
qed

definition demo_node :: "string \<Rightarrow> string \<Rightarrow> node" where
  "demo_node protocol addr = (node_default 0)\<lparr>nd_protocol := protocol, nd_transport := ''tcp'', nd_addr := addr\<rparr>"

definition demo_tcp :: "bytes \<Rightarrow> tcp_stream" where
  "demo_tcp bs = \<lparr>tcp_wire = \<lparr>w_in = map (\<lambda>b. Data [b]) bs, w_out = [], w_acc = [], w_fin = False\<rparr>,
     tcp_peer = Inl (IoError Other []), tcp_local = Inl (IoError Other [])\<rparr>"

definition demo_net :: "bytes \<Rightarrow> unit net" where
  "demo_net bs =
     \<lparr>nt_connect = (\<lambda>_ _ _. Some (Inr (demo_tcp bs))), nt_lookup = (\<lambda>_ _ _. None), nt_socket = (\<lambda>_ _. Inr ()),
      nt_set_mark = (\<lambda>_ _. Inr ()), nt_set_interface = (\<lambda>_ _. Inr ()), nt_connect_sock = (\<lambda>_ _ _. None),
      nt_resolve = (\<lambda>_ _ _. Inl []), nt_tls = (\<lambda>_ _ _ _ _. Inl []), nt_ws = (\<lambda>_ _ _ _. Inl []),
      nt_otls = (\<lambda>_ _ _. Inl []), nt_ohttp = (\<lambda>_ _ _. Inl []), nt_h2 = (\<lambda>_ _ _ _. Inl []),
      nt_session = (\<lambda>_ _ _. Inl []), nt_ssh = (\<lambda>_ _ _ _. Inl []), nt_connector = (\<lambda>_ _ _ _. Inl []),
      nt_base64 = of_bytes\<rparr>"

definition demo_chain :: "unit chain" where
  "demo_chain = chain_new [demo_node ''http'' ''p1:8080'', demo_node ''socks5'' ''p2:1080'']"

definition demo_world :: world where
  "demo_world = \<lparr>wd_tick = 0, wd_log = []\<rparr>"

definition demo_answers :: "bytes list" where
  "demo_answers = [demo_head, [0x05, 0x00, 0x05, 0x00, 0x00, 0x01, 0, 0, 0, 0, 0, 0]]"

definition demo_requests :: "bytes list" where
  "demo_requests =
     [as_bytes (connect_request of_bytes ''p2:1080'' None),
      greeting (hop_methods (demo_node ''socks5'' ''p2:1080'')) @ [0x05, 0x01, 0x00] @ encode_address ''example.org'' 443]"

lemma demo_tcp_at: "conn_at None bs [] (from_tcp (demo_tcp bs))"
  using demo_conn_at [of bs] by (simp add: demo_conn_def from_tcp_def demo_tcp_def ok_of_def)

lemma demo_hops: "plain_hops of_bytes [demo_node ''http'' ''p1:8080'', demo_node ''socks5'' ''p2:1080''] ''example.org:443'' 0 demo_requests demo_answers"
proof -
  have h0: "hop_dialogue of_bytes (demo_node ''http'' ''p1:8080'') ''p2:1080'' (demo_requests ! 0) (demo_answers ! 0)"
    using hop_dialogue.http [of "demo_node ''http'' ''p1:8080''" demo_head of_bytes "''p2:1080''"] demo_head_ok
    by (simp add: demo_requests_def demo_answers_def demo_node_def node_default_def)
  have sp: "chain_split_host_port ''example.org:443'' = Inr (''example.org'', 443)"
    by (simp add: chain_split_host_port_def rsplit_once_def rfind_char_def parse_uint_def digit_val_def del: rfind_char_None)
  have "bound_addr_ok 1 [0, 0, 0, 0, 0, 0]" by (simp add: bound_addr_ok_def)
  from hop_dialogue.socks5 [of "demo_node ''socks5'' ''p2:1080''", OF _ sp this, of of_bytes 5 0]
  have h1: "hop_dialogue of_bytes (demo_node ''socks5'' ''p2:1080'') ''example.org:443'' (demo_requests ! 1) (demo_answers ! 1)"
    by (simp add: demo_requests_def demo_answers_def METHOD_NO_AUTH_def demo_node_def)
  show ?thesis using h0 h1
    by (auto simp: plain_hops_def hop_target_def less_Suc_eq demo_requests_def demo_answers_def)
      (simp_all add: demo_node_def)
qed



text \<open>A chain whose first hop is SSH and that has a second hop does not reach its target: the dial
  returns the channel the SSH server opened to the second hop's address, no connector of the
  second hop is run, and the result is the same whatever target was asked for.\<close>

theorem ssh_first_hop_drops_target:
  assumes "chain_nodes ch = first # second # rest" "nd_transport first = ''ssh''"
    and "co_resolver opts = None" "co_hosts opts = None" "a \<noteq> []" "b \<noteq> []"
  shows "dial_with_options N ch a opts w = dial_with_options N ch b opts w \<and>
    (\<forall>c w'. dial_once N ch a opts w = (Inr c, w') \<longrightarrow>
       nt_ssh N (wd_tick w) (if co_timeout opts > 0 then co_timeout opts else DIAL_TIMEOUT) first (nd_addr second) = Inr c)"
proof -
  have e: "\<not> chain_is_empty ch" using assms(1) by (auto simp: chain_is_empty_def chain_nodes_def List.map_filter_def)
  have r: "chain_resolve N None None x w = (x, w)" for x w by (simp add: chain_resolve_def split: sum.splits)
  have d: "dial_once N ch x opts w =
      ((case nt_ssh N (wd_tick w) (if co_timeout opts > 0 then co_timeout opts else DIAL_TIMEOUT) first (nd_addr second) of
          Inl e \<Rightarrow> Inl (ProxyError e) | Inr c \<Rightarrow> Inr c), logged (SessionDial (nd_addr first)) w)" if "x \<noteq> []" for x w
    using that e assms(1-4) by (simp add: dial_once_def r hop_target_def)
  have "dial_once N ch a opts = dial_once N ch b opts" by (intro ext) (simp only: d [OF assms(5)] d [OF assms(6)])
  then show ?thesis using d [OF assms(5)] by (auto simp: dial_with_options_def split: sum.splits)
qed

definition demo_ssh_chain :: "unit chain" where
  "demo_ssh_chain = chain_new [(demo_node ''forward'' ''s1:22'')\<lparr>nd_transport := ''ssh''\<rparr>, demo_node ''socks5'' ''p2:1080'']"

theorem ssh_first_hop_drops_target_witness:
  "dial_with_options (demo_net []) demo_ssh_chain ''bank.example:443'' (default_options demo_ssh_chain) demo_world =
   dial_with_options (demo_net []) demo_ssh_chain ''other.example:80'' (default_options demo_ssh_chain) demo_world"
proof -
  have n: "chain_nodes demo_ssh_chain = [(demo_node ''forward'' ''s1:22'')\<lparr>nd_transport := ''ssh''\<rparr>, demo_node ''socks5'' ''p2:1080'']"
    by (simp add: chain_nodes_def demo_ssh_chain_def chain_new_def group_new_def group_get_node_def List.map_filter_def)
  show ?thesis
    by (rule conjunct1 [OF ssh_first_hop_drops_target [OF n]])
      (simp_all add: default_options_def demo_ssh_chain_def chain_new_def)
qed

end
