(* ===== verification/UdpPump.thy ===== *)
theory UdpPump
  imports Chain
begin

text \<open>
  Outbound datagrams of a chain (\<^verbatim>\<open>Chain::dial_udp\<close> and \<^verbatim>\<open>UdpChannel\<close> of \<^verbatim>\<open>src/src/chain.rs\<close>). With a
  chain, datagrams travel over a SOCKS5 tunnel that a reader task and a writer task share
  behind a mutex. The tasks are modelled as steps of an interleaving; the result is that the
  reader keeps the mutex while it waits, so that nothing is written until the peer sends.
\<close>

section \<open>Opening a channel\<close>

type_synonym dgram = "bytes \<times> string \<times> u16"

datatype task = Reader | Writer

datatype reader_pc = RWant | RRecv | RPush dgram | RDone
datatype writer_pc = WIdle | WWant dgram | WSend dgram | WDone

text \<open>
  What the stream of a new tunnel already holds counts as arrived. The application dropping the
  channel aborts both tasks and is not a step.
  The two tasks, the two channels (capacity 128 each), the mutex with the tunnel, the bytes
  that have arrived from the peer but were not read, and whether the peer has closed.
\<close>

record pump =
  pm_out :: "dgram list"
  pm_in :: "dgram list"
  pm_lock :: "task option"
  pm_tunnel :: tunnel
  pm_reader :: reader_pc
  pm_writer :: writer_pc
  pm_avail :: bytes
  pm_closed :: bool

definition CHANNEL_SIZE :: nat where
  "CHANNEL_SIZE = 128"

definition pump_init :: "tunnel \<Rightarrow> pump" where
  "pump_init t =
     \<lparr>pm_out = [], pm_in = [], pm_lock = None, pm_tunnel = t, pm_reader = RWant, pm_writer = WIdle,
      pm_avail = arrives (w_in (tn_inner t)), pm_closed = False\<rparr>"

datatype udp_channel = Direct socket_addr | Tunnel pump

text \<open>
  \<^verbatim>\<open>dial_udp\<close>: \<open>bound\<close> is what binding a local UDP socket gives. The last hop is dialled through the
  whole chain, itself included.
\<close>

definition dial_udp ::
    "'r net \<Rightarrow> nat \<Rightarrow> 'r chain \<Rightarrow> socket_addr \<Rightarrow> io_error + socket_addr \<Rightarrow> world \<Rightarrow> (chain_error + udp_channel) \<times> world" where
  "dial_udp N marker ch bind bound w =
     (if chain_is_empty ch
      then ((case bound of Inl e \<Rightarrow> Inl (ChainIo e) | Inr sa \<Rightarrow> Inr (Direct sa)), w)
      else
        let last = chain_last_node marker ch
        in if nd_protocol last \<noteq> ''socks5'' \<and> nd_protocol last \<noteq> ''socks''
           then (Inl (ProxyError (''chain last hop '' @ debug_str (nd_protocol last)
                   @ '' cannot carry UDP; only socks5 supports it (via CmdUDPTun)'')), w)
           else (case chain_dial N ch (nd_addr last) w of
                   (Inl e, w) \<Rightarrow> (Inl e, w)
                 | (Inr control, w) \<Rightarrow>
                     ((case udp_tunnel (nd_user last) (show_sockaddr bind) None control of
                         Inl e \<Rightarrow> Inl (ProxyError (''socks5 UDP tunnel failed: '' @ show_handler_error e))
                       | Inr t \<Rightarrow> Inr (Tunnel (pump_init t))), w)))"

text \<open>\<^verbatim>\<open>UdpChannel::send_to\<close> on a tunnel waits for room in the channel and \<^verbatim>\<open>recv_from\<close> for a datagram.\<close>

definition channel_send :: "dgram \<Rightarrow> pump \<Rightarrow> (io_error + unit) poll \<times> pump" where
  "channel_send d s =
     (if pm_writer s = WDone then (Ready (Inl (IoError BrokenPipe ''udp tunnel closed'')), s)
      else if length (pm_out s) < CHANNEL_SIZE then (Ready (Inr ()), s\<lparr>pm_out := pm_out s @ [d]\<rparr>)
      else (Pending, s))"

definition channel_recv :: "pump \<Rightarrow> (io_error + dgram) poll \<times> pump" where
  "channel_recv s =
     (case pm_in s of
        d # ds \<Rightarrow> (Ready (Inr d), s\<lparr>pm_in := ds\<rparr>)
      | [] \<Rightarrow> if pm_reader s = RDone then (Ready (Inl (IoError BrokenPipe ''udp tunnel closed'')), s) else (Pending, s))"

section \<open>The tasks\<close>

text \<open>What the socket offers the tunnel now: the bytes that arrived, then the end or nothing yet.\<close>

definition offered :: "pump \<Rightarrow> rd_event list" where
  "offered s = (if pm_avail s = [] then [] else [Data (pm_avail s)]) @ (if pm_closed s then [] else [Stall])"

definition with_input :: "pump \<Rightarrow> tunnel" where
  "with_input s = (pm_tunnel s)\<lparr>tn_inner := (tn_inner (pm_tunnel s))\<lparr>w_in := offered s\<rparr>\<rparr>"

text \<open>The reader polls \<^verbatim>\<open>recv_from\<close> while it holds the mutex; the mutex is released when it is ready.\<close>

definition reader_poll :: "pump \<Rightarrow> pump" where
  "reader_poll s =
     (let (r, t) = tunnel_poll_recv (with_input s);
          s' = s\<lparr>pm_tunnel := t, pm_avail := arrives (w_in (tn_inner t))\<rparr>
      in case r of
           Pending \<Rightarrow> s'
         | Ready (Inr (Some d)) \<Rightarrow> s'\<lparr>pm_lock := None, pm_reader := RPush d\<rparr>
         | Ready _ \<Rightarrow> s'\<lparr>pm_lock := None, pm_reader := RDone\<rparr>)"

definition writer_send :: "dgram \<Rightarrow> pump \<Rightarrow> pump" where
  "writer_send d s =
     (let (r, t) = tunnel_send_to (fst d) (fst (snd d)) (snd (snd d)) (pm_tunnel s)
      in s\<lparr>pm_tunnel := t, pm_lock := None, pm_writer := (case r of Inr _ \<Rightarrow> WIdle | Inl _ \<Rightarrow> WDone)\<rparr>)"

text \<open>The steps of the program: the two tasks and the application at the other end of the channels.\<close>

inductive pump_step :: "pump \<Rightarrow> pump \<Rightarrow> bool" where
  app_send: "channel_send d s = (r, s') \<Longrightarrow> pump_step s s'"
| app_recv: "channel_recv s = (r, s') \<Longrightarrow> pump_step s s'"
| writer_take: "pm_writer s = WIdle \<Longrightarrow> pm_out s = d # ds \<Longrightarrow> pump_step s (s\<lparr>pm_out := ds, pm_writer := WWant d\<rparr>)"
| writer_lock: "pm_writer s = WWant d \<Longrightarrow> pm_lock s = None \<Longrightarrow>
    pump_step s (s\<lparr>pm_lock := Some Writer, pm_writer := WSend d\<rparr>)"
| writer_send: "pm_writer s = WSend d \<Longrightarrow> pump_step s (writer_send d s)"
| reader_lock: "pm_reader s = RWant \<Longrightarrow> pm_lock s = None \<Longrightarrow>
    pump_step s (s\<lparr>pm_lock := Some Reader, pm_reader := RRecv\<rparr>)"
| reader_poll: "pm_reader s = RRecv \<Longrightarrow> pump_step s (reader_poll s)"
| reader_push: "pm_reader s = RPush d \<Longrightarrow> length (pm_in s) < CHANNEL_SIZE \<Longrightarrow>
    pump_step s (s\<lparr>pm_in := pm_in s @ [d], pm_reader := RWant\<rparr>)"

text \<open>The peer: more bytes, or the end of the stream.\<close>

inductive peer_step :: "pump \<Rightarrow> pump \<Rightarrow> bool" where
  peer_bytes: "\<not> pm_closed s \<Longrightarrow> peer_step s (s\<lparr>pm_avail := pm_avail s @ bs\<rparr>)"
| peer_close: "peer_step s (s\<lparr>pm_closed := True\<rparr>)"

text \<open>The mutex is exclusive.\<close>

fun is_sending :: "writer_pc \<Rightarrow> bool" where
  "is_sending (WSend d) = True"
| "is_sending _ = False"

definition pump_inv :: "pump \<Rightarrow> bool" where
  "pump_inv s \<longleftrightarrow> (pm_lock s = Some Reader \<longleftrightarrow> pm_reader s = RRecv) \<and>
     (pm_lock s = Some Writer \<longleftrightarrow> is_sending (pm_writer s))"

lemma pump_inv_init: "pump_inv (pump_init t)"
  by (simp add: pump_inv_def pump_init_def)

lemma pump_inv_step: "pump_step s s' \<Longrightarrow> pump_inv s \<Longrightarrow> pump_inv s'"
proof (induction rule: pump_step.induct)
  case (app_send d s r s')
  then show ?case by (auto simp: channel_send_def pump_inv_def split: if_splits)
next
  case (app_recv s r s')
  then show ?case by (auto simp: channel_recv_def pump_inv_def split: if_splits list.splits)
next
  case (writer_send s d)
  then have "pm_lock s = Some Writer" "pm_reader s \<noteq> RRecv" by (auto simp: pump_inv_def)
  then show ?case by (auto simp: writer_send_def pump_inv_def split: prod.splits sum.splits)
next
  case (reader_poll s)
  then have "pm_lock s = Some Reader" "\<not> is_sending (pm_writer s)" by (auto simp: pump_inv_def)
  then show ?case using reader_poll
    by (auto simp: reader_poll_def pump_inv_def Let_def split: prod.splits poll.splits sum.splits option.splits)
qed (auto simp: pump_inv_def)

text \<open>The reader waits in \<^verbatim>\<open>recv_from\<close> with an incomplete frame and nothing has arrived.\<close>

definition stuck :: "pump \<Rightarrow> bool" where
  "stuck s \<longleftrightarrow> pm_lock s = Some Reader \<and> pm_reader s = RRecv \<and> \<not> is_sending (pm_writer s) \<and>
     pm_avail s = [] \<and> \<not> pm_closed s \<and>
     exhausted (pm_tunnel s) \<and> tn_state (pm_tunnel s) \<noteq> TEof \<and> length (tn_buf (pm_tunnel s)) < tn_need (pm_tunnel s)"

definition pump_written :: "pump \<Rightarrow> bytes" where
  "pump_written s = w_out (tn_inner (pm_tunnel s))"

lemma stuck_poll:
  assumes "stuck s"
  shows "stuck (reader_poll s) \<and> pump_written (reader_poll s) = pump_written s"
proof -
  obtain t' where t': "tunnel_fill ((with_input s)\<lparr>tn_plain := [], tn_plain_pos := 0\<rparr>) = (Pending, t')"
      "exhausted t'" "tn_state t' = tn_state (pm_tunnel s)" "tn_buf t' = tn_buf (pm_tunnel s)"
      "tn_need t' = tn_need (pm_tunnel s)" "w_in (tn_inner t') = []" "w_out (tn_inner t') = pump_written s"
    using assms tunnel_fill.simps [of "(with_input s)\<lparr>tn_plain := [], tn_plain_pos := 0\<rparr>"]
    by (auto simp: with_input_def offered_def stuck_def wire_read_def exhausted_def pump_written_def)
  have "tunnel_round (with_input s) = (Some Pending, t')"
    using assms t'(1) by (simp add: tunnel_round_def Let_def) (simp add: with_input_def stuck_def exhausted_def)
  then have "tunnel_poll_recv (with_input s) = (Pending, t')"
    by (simp add: tunnel_poll_recv_def tunnel_datagram.simps)
  then show ?thesis using assms t'(2-)
    by (simp add: reader_poll_def stuck_def pump_written_def)
qed

lemma stuck_step: "pump_step s s' \<Longrightarrow> stuck s \<Longrightarrow> stuck s' \<and> pump_written s' = pump_written s"
proof (induction rule: pump_step.induct)
  case (app_send d s r s')
  then show ?case by (auto simp: channel_send_def stuck_def pump_written_def split: if_splits)
next
  case (app_recv s r s')
  then show ?case by (auto simp: channel_recv_def stuck_def pump_written_def split: if_splits list.splits)
next
  case (reader_poll s)
  then show ?case using stuck_poll by blast
qed (auto simp: stuck_def pump_written_def)

section \<open>Properties\<close>

text \<open>Datagrams cannot leave while the reader waits: once the reader task is inside \<^verbatim>\<open>recv_from\<close> with
  nothing to read, then in every run in which the peer sends nothing, however long, whatever
  the application queues and however the tasks are scheduled, not a byte is written to the
  tunnel and the reader keeps the mutex.\<close>

theorem udp_pump_stalls:
  assumes "stuck s" "pump_step\<^sup>*\<^sup>* s s'"
  shows "stuck s' \<and> pump_written s' = pump_written s"
  using assms(2,1) by (induction rule: rtranclp_induct) (auto dest: stuck_step)

text \<open>A fresh tunnel is one scheduling decision away from that: the reader takes the mutex first.\<close>

definition demo_pump :: pump where
  "demo_pump = pump_init (tunnel_client (demo_wire []) (''0.0.0.0'', 0) ''10.0.0.1:4000'')"

definition demo_locked :: pump where
  "demo_locked = demo_pump\<lparr>pm_lock := Some Reader, pm_reader := RRecv\<rparr>"

definition demo_waiting :: pump where
  "demo_waiting = demo_locked\<lparr>pm_writer := WWant ([1, 2, 3], ''8.8.8.8'', 53)\<rparr>"

lemma demo_pump_locked: "pump_step demo_pump demo_locked"
  unfolding demo_locked_def by (rule pump_step.reader_lock) (simp_all add: demo_pump_def pump_init_def)

lemma demo_locked_stuck: "stuck demo_locked"
  by (simp add: stuck_def demo_locked_def demo_pump_def pump_init_def tunnel_client_def tunnel_with_taddr_def
      exhausted_def UDP_TUN_HEAD_LEN_def demo_wire_def)

lemma demo_waiting_run: "pump_step\<^sup>*\<^sup>* demo_locked demo_waiting"
proof -
  let ?d = "([1, 2, 3], ''8.8.8.8'', 53) :: dgram"
  have "pump_step demo_locked (demo_locked\<lparr>pm_out := [?d]\<rparr>)"
    by (rule pump_step.app_send [where d = ?d])
      (simp add: channel_send_def demo_locked_def demo_pump_def pump_init_def CHANNEL_SIZE_def)
  moreover have "pump_step (demo_locked\<lparr>pm_out := [?d]\<rparr>) (demo_locked\<lparr>pm_out := [?d]\<rparr>\<lparr>pm_out := [], pm_writer := WWant ?d\<rparr>)"
    by (rule pump_step.writer_take) (simp_all add: demo_locked_def demo_pump_def pump_init_def)
  moreover have "demo_locked\<lparr>pm_out := [?d]\<rparr>\<lparr>pm_out := [], pm_writer := WWant ?d\<rparr> = demo_waiting"
    by (simp add: demo_waiting_def demo_locked_def demo_pump_def pump_init_def)
  ultimately show ?thesis
    by (simp only: rtranclp.rtrancl_into_rtrancl [OF r_into_rtranclp])
qed

theorem udp_pump_stalls_witness:
  "pump_step demo_pump demo_locked \<and> pump_step\<^sup>*\<^sup>* demo_locked demo_waiting \<and>
   stuck demo_waiting \<and> pump_written demo_waiting = []"
  using udp_pump_stalls [OF demo_locked_stuck demo_waiting_run] demo_pump_locked demo_waiting_run
  by (simp add: pump_written_def demo_locked_def demo_pump_def pump_init_def tunnel_client_def tunnel_with_taddr_def demo_wire_def)

end
