(* ===== verification/Handler.thy ===== *)
theory Handler
  imports Chain Permissions
begin

text \<open>
  What the protocol handlers share (\<^verbatim>\<open>src/src/handler.rs\<close>): their options, the state they run on (the
  client's connection and the network), and what the operating system answers. A handler
  ends with an error or with the service it goes over to, such as copying between two
  connections. The dial set-up is the one \<^verbatim>\<open>Socks5Handler\<close> and \<^verbatim>\<open>Socks4Handler\<close> have in common.
\<close>

section \<open>Options\<close>

type_synonym authenticator = "string \<Rightarrow> string \<Rightarrow> bool"

record ('r, 'n) handler_options =
  ho_addr :: string
  ho_chain :: "'r chain option"
  ho_users :: "(string \<times> string option) list"
  ho_authenticator :: "authenticator option"
  ho_whitelist :: "permissions option"
  ho_blacklist :: "permissions option"
  ho_bypass :: "'n bypass option"
  ho_retries :: nat
  ho_timeout :: nat
  ho_node :: "node option"
  ho_host :: string
  ho_proxy_agent :: string
  ho_strategy :: string
  ho_max_fails :: u32
  ho_fail_timeout :: nat
  ho_fastest_count :: nat
  ho_probe_resist :: string
  ho_knocking_host :: string

definition requires_auth :: "('r, 'n) handler_options \<Rightarrow> bool" where
  "requires_auth ho \<longleftrightarrow> ho_users ho \<noteq> [] \<or> ho_authenticator ho \<noteq> None"

text \<open>\<^verbatim>\<open>self.options.chain.clone().unwrap_or_default()\<close> and the checks every handler makes.\<close>

definition the_chain :: "('r, 'n) handler_options \<Rightarrow> 'r chain" where
  "the_chain ho = (case ho_chain ho of Some ch \<Rightarrow> ch | None \<Rightarrow> chain_empty)"

definition allowed :: "('r, 'n) handler_options \<Rightarrow> string \<Rightarrow> string \<Rightarrow> bool" where
  "allowed ho action target = Can action target (ho_whitelist ho) (ho_blacklist ho)"

definition bypassed :: "'n bypass_libs \<Rightarrow> ('r, 'n) handler_options \<Rightarrow> string \<Rightarrow> bool" where
  "bypassed L ho target = (case ho_bypass ho of Some b \<Rightarrow> bypass_contains L b target | None \<Rightarrow> False)"

section \<open>The outside\<close>

text \<open>
  Besides the network of the chain: the matchers of the bypass, the TLS configurations and the
  TLS handshake of a server, listening sockets (the result of binding and of asking for the
  bound address), the race of an \<^verbatim>\<open>accept\<close> against a read of the control connection, UDP sockets and
  name lookups. Again the first argument is the running number of the call.
\<close>

datatype accepted = Peer tcp_stream socket_addr | AcceptFailed io_error | ControlRead

record ('r, 'n, 't) host =
  ht_net :: "'r net"
  ht_libs :: "'n bypass_libs"
  ht_marker :: nat
  ht_tls_files :: "string \<Rightarrow> string \<Rightarrow> string + 't"
  ht_tls_self_signed :: "string \<Rightarrow> string + 't"
  ht_tls_accept :: "nat \<Rightarrow> 't \<Rightarrow> proxy_conn \<Rightarrow> string + wire"
  ht_listen :: "nat \<Rightarrow> string \<Rightarrow> io_error + (io_error + socket_addr)"
  ht_accept :: "nat \<Rightarrow> accepted"
  ht_udp_bind :: "nat \<Rightarrow> socket_addr \<Rightarrow> io_error + (io_error + socket_addr)"
  ht_udp_lookup :: "nat \<Rightarrow> string \<Rightarrow> u16 \<Rightarrow> socket_addr option"

text \<open>What a handler goes over to once the protocol is done.\<close>

datatype service =
    Finished
  | Splice proxy_conn
  | UdpAssociation socket_addr
  | UdpTunnel tunnel socket_addr
  | MuxBinding string u16

section \<open>Code with the connection and the network\<close>

type_synonym 'a hio = "proxy_conn \<Rightarrow> world \<Rightarrow> (handler_error + 'a) \<times> proxy_conn \<times> world"

definition hio_ok :: "'a \<Rightarrow> 'a hio" where
  "hio_ok a c w = (Inr a, c, w)"

definition hio_err :: "handler_error \<Rightarrow> 'a hio" where
  "hio_err e c w = (Inl e, c, w)"

definition hio_bind :: "'a hio \<Rightarrow> ('a \<Rightarrow> 'b hio) \<Rightarrow> 'b hio" where
  "hio_bind m f c w = (case m c w of (Inl e, c', w') \<Rightarrow> (Inl e, c', w') | (Inr a, c', w') \<Rightarrow> f a c' w')"

definition hio_io :: "(handler_error, 'a) io \<Rightarrow> 'a hio" where
  "hio_io m c w = (case m c of (r, c') \<Rightarrow> (r, c', w))"

text \<open>A step of the network whose failure the handler looks at, and the running number.\<close>

definition hio_net :: "(world \<Rightarrow> 'a \<times> world) \<Rightarrow> 'a hio" where
  "hio_net d c w = (case d w of (r, w') \<Rightarrow> (Inr r, c, w'))"

definition hio_conn :: "proxy_conn hio" where
  "hio_conn c w = (Inr c, c, w)"

text \<open>Calls to the operating system, and what they leave in the log.\<close>

definition sys_connect :: "('r, 'n, 't) host \<Rightarrow> nat \<Rightarrow> string \<Rightarrow> world \<Rightarrow> (io_error + tcp_stream) option \<times> world" where
  "sys_connect H timeout addr w = (nt_connect (ht_net H) (wd_tick w) timeout addr, logged (TcpConnect addr) w)"

definition sys_listen :: "('r, 'n, 't) host \<Rightarrow> string \<Rightarrow> world \<Rightarrow> (io_error + (io_error + socket_addr)) \<times> world" where
  "sys_listen H addr w = (ht_listen H (wd_tick w) addr, logged (TcpListen addr) w)"

definition sys_accept :: "('r, 'n, 't) host \<Rightarrow> world \<Rightarrow> accepted \<times> world" where
  "sys_accept H w = (ht_accept H (wd_tick w), tick w)"

definition sys_udp_bind :: "('r, 'n, 't) host \<Rightarrow> socket_addr \<Rightarrow> world \<Rightarrow> (io_error + (io_error + socket_addr)) \<times> world" where
  "sys_udp_bind H sa w = (ht_udp_bind H (wd_tick w) sa, logged (UdpListen sa) w)"

section \<open>Dialling for a client\<close>

text \<open>\<^verbatim>\<open>dial_setup\<close>: the chain with its own retries pinned, the number of attempts, the options.\<close>

definition dial_setup :: "('r, 'n) handler_options \<Rightarrow> 'r chain \<times> nat \<times> 'r chain_options" where
  "dial_setup ho =
     (let chain = the_chain ho;
          chain_retries = ch_retries chain;
          chain = chain\<lparr>ch_retries := 1\<rparr>;
          retries = (if ho_retries ho > 0 then ho_retries ho else if chain_retries > 0 then chain_retries else 1);
          opts = (default_options chain)\<lparr>co_retries := 1\<rparr>;
          opts = (if ho_timeout ho > 0 then opts\<lparr>co_timeout := ho_timeout ho\<rparr> else opts)
      in (chain, retries, opts))"

definition dial_target ::
    "('r, 'n, 't) host \<Rightarrow> ('r, 'n) handler_options \<Rightarrow> string \<Rightarrow> world \<Rightarrow> (chain_error + proxy_conn) \<times> world" where
  "dial_target H ho target w =
     (let (chain, retries, opts) = dial_setup ho
      in dial_tries (dial_with_options (ht_net H) chain target opts) retries EmptyChain w)"

definition dial_timeout :: "('r, 'n) handler_options \<Rightarrow> nat" where
  "dial_timeout ho = (if ho_timeout ho > 0 then ho_timeout ho else DIAL_TIMEOUT)"

section \<open>Running handlers\<close>

definition hruns :: "'a hio \<Rightarrow> proxy_conn \<Rightarrow> world \<Rightarrow> (handler_error + 'a \<Rightarrow> proxy_conn \<Rightarrow> world \<Rightarrow> bool) \<Rightarrow> bool" where
  "hruns m c w Q \<longleftrightarrow> (case m c w of (r, c', w') \<Rightarrow> Q r c' w')"

named_theorems hrun_intros \<open>rules that execute handlers\<close>

lemma hruns_ok [hrun_intros]: "Q (Inr a) c w \<Longrightarrow> hruns (hio_ok a) c w Q"
  by (simp add: hruns_def hio_ok_def)

lemma hruns_err [hrun_intros]: "Q (Inl e) c w \<Longrightarrow> hruns (hio_err e) c w Q"
  by (simp add: hruns_def hio_err_def)

lemma hruns_bind [hrun_intros]:
  "hruns m c w (\<lambda>r c' w'. case r of Inl e \<Rightarrow> Q (Inl e) c' w' | Inr a \<Rightarrow> hruns (f a) c' w' Q) \<Longrightarrow> hruns (hio_bind m f) c w Q"
  by (auto simp: hruns_def hio_bind_def split: prod.splits sum.splits)

lemma hruns_io [hrun_intros]: "runs m c (\<lambda>r c'. Q r c' w) \<Longrightarrow> hruns (hio_io m) c w Q"
  by (auto simp: hruns_def hio_io_def runs_def split: prod.splits)

lemma hruns_net [hrun_intros]: "Q (Inr (fst (d w))) c (snd (d w)) \<Longrightarrow> hruns (hio_net d) c w Q"
  by (auto simp: hruns_def hio_net_def split: prod.splits)

lemma hruns_conn [hrun_intros]: "Q (Inr c) c w \<Longrightarrow> hruns hio_conn c w Q"
  by (simp add: hruns_def hio_conn_def)

lemma hruns_mono: "hruns m c w P \<Longrightarrow> (\<And>r c' w'. P r c' w' \<Longrightarrow> Q r c' w') \<Longrightarrow> hruns m c w Q"
  by (auto simp: hruns_def split: prod.splits)

text \<open>One dial of a direct connection: what the network is asked and told.\<close>

lemma dial_tries_ok: "once w = (Inr c, w') \<Longrightarrow> 0 < n \<Longrightarrow> dial_tries once n e w = (Inr c, w')"
  by (cases n) auto

end
