(* ===== verification/Socks5Server.thy ===== *)
theory Socks5Server
  imports Handler
begin

text \<open>
  The SOCKS5 handler (\<^verbatim>\<open>Socks5Handler\<close> of \<^verbatim>\<open>src/src/socks5.rs\<close>): method negotiation, authentication,
  the request and its commands. The datagram loops of the two UDP commands are in \<open>Socks5Udp\<close>.
\<close>

section \<open>Negotiation\<close>

text \<open>\<^verbatim>\<open>tls_acceptor\<close>: the certificate of the listener's node or a self-signed one.\<close>

definition node_param :: "node option \<Rightarrow> string \<Rightarrow> string option" where
  "node_param n key = (case n of Some n \<Rightarrow> node_get n key | None \<Rightarrow> None)"

definition tls_acceptor :: "('r, 'n, 't) host \<Rightarrow> ('r, 'n) handler_options \<Rightarrow> string + 't" where
  "tls_acceptor H ho =
     (let cert = or_empty (node_param (ho_node ho) ''cert'');
          key = or_empty (node_param (ho_node ho) ''key'')
      in if cert \<noteq> [] \<and> key \<noteq> [] then ht_tls_files H cert key
         else let host = (case node_param (ho_node ho) ''host'' of
                            Some h \<Rightarrow> if h \<noteq> [] then h else ''localhost''
                          | None \<Rightarrow> ''localhost'')
              in ht_tls_self_signed H host)"

definition check_user :: "('r, 'n) handler_options \<Rightarrow> string \<Rightarrow> string \<Rightarrow> bool" where
  "check_user ho user password = (case ho_authenticator ho of Some auth \<Rightarrow> auth user password | None \<Rightarrow> True)"

text \<open>The server's choice of a method, for the methods the client offers.\<close>

definition server_method :: "bool \<Rightarrow> bytes \<Rightarrow> u8" where
  "server_method auth_required methods =
     (let method = (if METHOD_TLS \<in> set methods then METHOD_TLS else METHOD_NO_AUTH)
      in if auth_required then (if method = METHOD_TLS then METHOD_TLS_AUTH else METHOD_USER_PASS) else method)"

text \<open>The connection replaced by its TLS session; the running number counts the handshake.\<close>

definition io_accept :: "('r, 'n, 't) host \<Rightarrow> ('r, 'n) handler_options \<Rightarrow> nat \<Rightarrow> (handler_error, unit) io" where
  "io_accept H ho i c =
     (case tls_acceptor H ho of
        Inl e \<Rightarrow> (Inl (HandlerProxy (''socks5 tls: '' @ e)), c)
      | Inr t \<Rightarrow>
          (case ht_tls_accept H i t c of
             Inl e \<Rightarrow> (Inl (HandlerProxy (''socks5 tls handshake: '' @ e)), c)
           | Inr tls \<Rightarrow> (Inr (), layered tls (px_peer c) (px_local c))))"

text \<open>The user/password exchange.\<close>

definition server_auth :: "('r, 'n) handler_options \<Rightarrow> (handler_error, unit) io" where
  "server_auth ho =
     io_bind (io_read HandlerIo 1) (\<lambda>auth_ver.
     io_bind (io_read HandlerIo 1) (\<lambda>ulen.
     io_bind (io_read HandlerIo (unat (ulen ! 0))) (\<lambda>uname.
     io_bind (io_read HandlerIo 1) (\<lambda>plen.
     io_bind (io_read HandlerIo (unat (plen ! 0))) (\<lambda>passwd.
     if check_user ho (from_utf8_lossy uname) (from_utf8_lossy passwd)
     then io_bind (io_write HandlerIo [0x01, 0x00]) (\<lambda>_. io_ok ())
     else io_bind (io_write HandlerIo [0x01, 0x01]) (\<lambda>_. io_err AuthFailed))))))"

text \<open>From the offered methods on.\<close>

definition server_choice :: "('r, 'n, 't) host \<Rightarrow> ('r, 'n) handler_options \<Rightarrow> nat \<Rightarrow> bytes \<Rightarrow> (handler_error, unit) io" where
  "server_choice H ho i methods =
     (let auth_required = (ho_authenticator ho \<noteq> None);
          method = server_method auth_required methods
      in if auth_required \<and> METHOD_USER_PASS \<notin> set methods \<and> METHOD_TLS \<notin> set methods
         then io_bind (io_write HandlerIo [SOCKS5_VERSION, METHOD_NO_ACCEPTABLE]) (\<lambda>_. io_err AuthFailed)
         else
           io_bind (io_write HandlerIo [SOCKS5_VERSION, method]) (\<lambda>_.
           io_bind (if method = METHOD_TLS \<or> method = METHOD_TLS_AUTH then io_accept H ho i else io_ok ()) (\<lambda>_.
           if method = METHOD_USER_PASS \<or> method = METHOD_TLS_AUTH then server_auth ho else io_ok ())))"

definition server_negotiate :: "('r, 'n, 't) host \<Rightarrow> ('r, 'n) handler_options \<Rightarrow> nat \<Rightarrow> (handler_error, unit) io" where
  "server_negotiate H ho i =
     io_bind (io_read HandlerIo 1) (\<lambda>ver.
     if ver ! 0 \<noteq> SOCKS5_VERSION
     then io_err (HandlerProxy (''unsupported SOCKS version: '' @ show_nat (unat (ver ! 0))))
     else
       io_bind (io_read HandlerIo 1) (\<lambda>nmethods.
       io_bind (io_read HandlerIo (unat (nmethods ! 0))) (server_choice H ho i)))"

definition server_request :: "(handler_error, u8 \<times> string) io" where
  "server_request =
     io_bind (io_read HandlerIo 4) (\<lambda>req_header.
     if req_header ! 0 \<noteq> SOCKS5_VERSION then io_err (HandlerProxy ''invalid version in request'')
     else io_bind (read_address (req_header ! 3)) (\<lambda>(host, port). io_ok (req_header ! 1, join_addr host port)))"

section \<open>Commands\<close>

abbreviation reply :: "u8 \<Rightarrow> string \<Rightarrow> u16 \<Rightarrow> unit hio" where
  "reply rep host port \<equiv> hio_io (send_reply rep host port)"

definition refuse :: "u8 \<Rightarrow> handler_error \<Rightarrow> service hio" where
  "refuse rep e = hio_bind (reply rep ''0.0.0.0'' 0) (\<lambda>_. hio_err e)"

definition handle_connect :: "('r, 'n, 't) host \<Rightarrow> ('r, 'n) handler_options \<Rightarrow> string \<Rightarrow> service hio" where
  "handle_connect H ho target =
     (if \<not> allowed ho ''tcp'' target then refuse REP_NOT_ALLOWED Forbidden
      else if bypassed (ht_libs H) ho target
      then hio_bind (reply REP_NOT_ALLOWED ''0.0.0.0'' 0) (\<lambda>_. hio_ok Finished)
      else hio_bind (hio_net (dial_target H ho target)) (\<lambda>r.
        case r of
          Inr cc \<Rightarrow> hio_bind (reply REP_SUCCESS ''0.0.0.0'' 0) (\<lambda>_. hio_ok (Splice cc))
        | Inl e \<Rightarrow> refuse REP_HOST_UNREACHABLE (HandlerChain e)))"

text \<open>
  \<^verbatim>\<open>bind_on\<close>: the first reply carries the address bound, the second the peer's. The race of
  the accept against a read of the control connection is decided by the operating system;
  when the read wins, for whatever it read, the handler is done.
\<close>

definition bind_on :: "('r, 'n, 't) host \<Rightarrow> string \<Rightarrow> service hio" where
  "bind_on H addr =
     hio_bind (hio_net (sys_listen H addr)) (\<lambda>ln.
     case ln of
       Inl e \<Rightarrow> refuse REP_GENERAL_FAILURE (HandlerIo e)
     | Inr (Inl e) \<Rightarrow> hio_err (HandlerIo e)
     | Inr (Inr bound) \<Rightarrow>
         hio_bind hio_conn (\<lambda>conn.
         let host = (case px_local conn of Some a \<Rightarrow> fst a | None \<Rightarrow> fst bound)
         in hio_bind (reply REP_SUCCESS (show_ip host) (snd bound)) (\<lambda>_.
            hio_bind (hio_net (sys_accept H)) (\<lambda>ev.
            case ev of
              Peer pconn praddr \<Rightarrow>
                hio_bind (reply REP_SUCCESS (show_ip (fst praddr)) (snd praddr)) (\<lambda>_. hio_ok (Splice (from_tcp pconn)))
            | AcceptFailed e \<Rightarrow> hio_err (HandlerIo e)
            | ControlRead \<Rightarrow> hio_bind (hio_io (\<lambda>c. (Inr (), snd (conn_await_read 1 c)))) (\<lambda>_. hio_ok Finished)))))"

text \<open>A request replayed onto the last node of the chain, reached directly.\<close>

definition forward_request :: "('r, 'n, 't) host \<Rightarrow> ('r, 'n) handler_options \<Rightarrow> u8 \<Rightarrow> string \<Rightarrow> bool \<Rightarrow> string \<Rightarrow> service hio" where
  "forward_request H ho cmd timeout_msg negotiate target =
     (let node = chain_last_node (ht_marker H) (the_chain ho)
      in hio_bind (hio_net (sys_connect H (dial_timeout ho) (nd_addr node))) (\<lambda>cc.
         case cc of
           None \<Rightarrow> refuse REP_GENERAL_FAILURE (HandlerProxy timeout_msg)
         | Some (Inl e) \<Rightarrow> refuse REP_GENERAL_FAILURE (HandlerIo e)
         | Some (Inr s) \<Rightarrow>
             (case (if negotiate then method_handshake (nd_user node) else io_ok ()) (from_tcp s) of
                (Inl e, _) \<Rightarrow> refuse REP_GENERAL_FAILURE e
              | (Inr _, cc) \<Rightarrow>
                  (case parse_address target of
                     Inl e \<Rightarrow> hio_err e
                   | Inr (host, port) \<Rightarrow>
                       (case io_write HandlerIo ([SOCKS5_VERSION, cmd, 0x00] @ encode_address host port) cc of
                          (Inl e, _) \<Rightarrow> hio_err e
                        | (Inr _, cc) \<Rightarrow> hio_ok (Splice cc))))))"

definition handle_bind :: "('r, 'n, 't) host \<Rightarrow> ('r, 'n) handler_options \<Rightarrow> string \<Rightarrow> service hio" where
  "handle_bind H ho target =
     (if chain_is_empty (the_chain ho)
      then if \<not> allowed ho ''rtcp'' target then refuse REP_NOT_ALLOWED Forbidden else bind_on H target
      else forward_request H ho CMD_BIND ''bind: chain dial timeout''
             (nd_protocol (chain_last_node (ht_marker H) (the_chain ho)) = ''socks5'') target)"

text \<open>
  \<^verbatim>\<open>handle_mux_bind\<close> up to the point where the connection becomes a session that gets a stream
  per arrival.
\<close>

definition handle_mux_bind :: "('r, 'n, 't) host \<Rightarrow> ('r, 'n) handler_options \<Rightarrow> string \<Rightarrow> service hio" where
  "handle_mux_bind H ho target =
     (if \<not> chain_is_empty (the_chain ho)
      then refuse REP_CMD_NOT_SUPPORTED (HandlerProxy ''socks5 mbind through a chain is not implemented'')
      else if \<not> allowed ho ''rtcp'' target then refuse REP_NOT_ALLOWED Forbidden
      else hio_bind (hio_net (sys_listen H target)) (\<lambda>ln.
        case ln of
          Inl e \<Rightarrow> refuse REP_GENERAL_FAILURE (HandlerIo e)
        | Inr (Inl e) \<Rightarrow> hio_err (HandlerIo e)
        | Inr (Inr bound) \<Rightarrow>
            hio_bind hio_conn (\<lambda>conn.
            let host = (case px_local conn of Some a \<Rightarrow> show_ip (fst a) | None \<Rightarrow> show_ip (fst bound))
            in hio_bind (reply REP_SUCCESS host (snd bound)) (\<lambda>_. hio_ok (MuxBinding host (snd bound))))))"

definition unspecified_v4 :: socket_addr where
  "unspecified_v4 = (V4 0 0 0 0, 0)"

definition unspecified_v6 :: socket_addr where
  "unspecified_v6 = (V6 (replicate 8 0), 0)"

fun is_ipv4 :: "ip_addr \<Rightarrow> bool" where
  "is_ipv4 (V4 _ _ _ _) = True"
| "is_ipv4 (V6 _) = False"

definition handle_udp_relay :: "('r, 'n, 't) host \<Rightarrow> ('r, 'n) handler_options \<Rightarrow> string \<Rightarrow> service hio" where
  "handle_udp_relay H ho target =
     (if \<not> allowed ho ''udp'' target then refuse REP_NOT_ALLOWED Forbidden
      else hio_bind hio_conn (\<lambda>conn.
        let local_ip = (case px_local conn of Some a \<Rightarrow> fst a | None \<Rightarrow> fst unspecified_v4)
        in hio_bind (hio_net (sys_udp_bind H (local_ip, 0))) (\<lambda>relay.
           case relay of
             Inl e \<Rightarrow> refuse REP_GENERAL_FAILURE (HandlerIo e)
           | Inr (Inl e) \<Rightarrow> hio_err (HandlerIo e)
           | Inr (Inr relay_addr) \<Rightarrow>
               hio_bind (reply REP_SUCCESS (show_ip (fst relay_addr)) (snd relay_addr)) (\<lambda>_.
               hio_bind (hio_net (sys_udp_bind H (if is_ipv4 local_ip then unspecified_v4 else unspecified_v6))) (\<lambda>peer.
               case peer of
                 Inl e \<Rightarrow> hio_err (HandlerIo e)
               | Inr _ \<Rightarrow> hio_ok (UdpAssociation relay_addr))))))"

definition resolve_udp_addr :: "('r, 'n, 't) host \<Rightarrow> nat \<Rightarrow> string \<Rightarrow> u16 \<Rightarrow> socket_addr option" where
  "resolve_udp_addr H i host port =
     (case parse_ip host of Some ip \<Rightarrow> Some (ip, port) | None \<Rightarrow> ht_udp_lookup H i host port)"

definition handle_udp_tunnel :: "('r, 'n, 't) host \<Rightarrow> ('r, 'n) handler_options \<Rightarrow> string \<Rightarrow> service hio" where
  "handle_udp_tunnel H ho target =
     (if \<not> chain_is_empty (the_chain ho)
      then forward_request H ho CMD_UDP_TUN ''udp-tun: chain dial timeout'' True target
      else if \<not> allowed ho ''rudp'' target then refuse REP_NOT_ALLOWED Forbidden
      else case parse_address target of
        Inl e \<Rightarrow> hio_err e
      | Inr (bind_host, bind_port) \<Rightarrow>
          hio_bind (hio_net (\<lambda>w. (resolve_udp_addr H (wd_tick w) bind_host bind_port, tick w))) (\<lambda>resolved.
          hio_bind (hio_net (sys_udp_bind H (case resolved of Some sa \<Rightarrow> sa | None \<Rightarrow> unspecified_v4))) (\<lambda>uc.
          case uc of
            Inl e \<Rightarrow> refuse REP_GENERAL_FAILURE (HandlerIo e)
          | Inr (Inl e) \<Rightarrow> hio_err (HandlerIo e)
          | Inr (Inr bound) \<Rightarrow>
              hio_bind hio_conn (\<lambda>conn.
              let advertised_ip = (case px_local conn of Some a \<Rightarrow> fst a | None \<Rightarrow> fst bound)
              in hio_bind (reply REP_SUCCESS (show_ip advertised_ip) (snd bound)) (\<lambda>_.
                 hio_bind hio_conn (\<lambda>conn. hio_ok (UdpTunnel (tunnel_server (tunnel_over conn)) bound)))))))"

section \<open>The handler\<close>

definition dispatch :: "('r, 'n, 't) host \<Rightarrow> ('r, 'n) handler_options \<Rightarrow> u8 \<Rightarrow> string \<Rightarrow> service hio" where
  "dispatch H ho cmd target =
     (if cmd = CMD_CONNECT then handle_connect H ho target
      else if cmd = CMD_BIND then handle_bind H ho target
      else if cmd = CMD_MUX_BIND then handle_mux_bind H ho target
      else if cmd = CMD_UDP_ASSOCIATE then handle_udp_relay H ho target
      else if cmd = CMD_UDP_TUN then handle_udp_tunnel H ho target
      else refuse REP_CMD_NOT_SUPPORTED (HandlerProxy (''unsupported command: '' @ show_nat (unat cmd))))"

definition socks5_handle :: "('r, 'n, 't) host \<Rightarrow> ('r, 'n) handler_options \<Rightarrow> service hio" where
  "socks5_handle H ho c w =
     hio_bind (hio_io (server_negotiate H ho (wd_tick w))) (\<lambda>_.
     hio_bind (hio_io server_request) (\<lambda>(cmd, target). dispatch H ho cmd target)) c w"

section \<open>What a successful exchange has read\<close>

text \<open>Code that succeeded, read backwards: the bytes it took from the connection.\<close>

named_theorems took \<open>what successful code took from the connection\<close>

lemma io_bind_Inr [took]:
  "io_bind m f c = (Inr b, c'') \<longleftrightarrow> (\<exists>a c'. m c = (Inr a, c') \<and> f a c' = (Inr b, c''))"
  by (auto simp: io_bind_def split: prod.splits sum.splits)

lemma io_ok_Inr [took]: "io_ok a c = (Inr b, c') \<longleftrightarrow> b = a \<and> c' = c"
  by (auto simp: io_ok_def)

lemma io_err_Inr [took]: "io_err e c \<noteq> (Inr b, c')"
  by (auto simp: io_err_def)

lemma io_read_Inr:
  assumes "io_read wrap n c = (Inr bs, c')" "conn_ok c"
  shows "conn_ok c'" "content c = bs @ content c'" "length bs = n"
proof -
  have r: "conn_read_exact n c = (Inr bs, c')" using assms(1) by (auto simp: io_read_def split: prod.splits sum.splits)
  have "n \<le> length (content c)" using conn_read_exact_short [OF assms(2), of n] r by fastforce
  from conn_read_exact_ok [OF assms(2) this] r \<open>n \<le> length (content c)\<close>
  show "conn_ok c'" "content c = bs @ content c'" "length bs = n" by auto
qed

lemma io_write_Inr:
  assumes "io_write wrap bs c = (Inr u, c')" "conn_ok c"
  shows "conn_ok c'" "content c' = content c"
proof -
  have "conn_write_all bs c = (Inr (), c')" using assms(1) by (auto simp: io_write_def split: prod.splits sum.splits)
  from conn_write_all_prefix [OF this] assms(2) show "conn_ok c'" "content c' = content c" by auto
qed

text \<open>The user/password message of RFC 1929, and the bytes the server reads it from: the
  connection itself, or what arrives inside the TLS session.\<close>

definition auth_message :: "u8 \<Rightarrow> bytes \<Rightarrow> bytes \<Rightarrow> bytes" where
  "auth_message v u p = [v, usize_as_u8 (length u)] @ u @ [usize_as_u8 (length p)] @ p"

definition session_bytes :: "('r, 'n, 't) host \<Rightarrow> nat \<Rightarrow> bytes \<Rightarrow> bytes \<Rightarrow> bytes \<Rightarrow> bool" where
  "session_bytes H i methods rest bs \<longleftrightarrow>
     (if METHOD_TLS \<in> set methods
      then \<exists>t c x. content c = rest \<and> ht_tls_accept H i t c = Inr x \<and> bs = arrives (w_in x)
      else bs = rest)"

lemma length_1E: "length xs = 1 \<Longrightarrow> (\<And>x. xs = [x] \<Longrightarrow> P) \<Longrightarrow> P"
  by (cases xs) auto

lemma usize_as_u8_unat [simp]: "usize_as_u8 (unat b) = b"
  by (simp add: usize_as_u8_def)

lemma server_auth_took:
  assumes "server_auth ho c = (Inr (), c')" "conn_ok c"
  shows "\<exists>v u p rest. content c = auth_message v u p @ rest \<and> check_user ho (from_utf8_lossy u) (from_utf8_lossy p)"
proof -
  from assms(1) obtain v c1 ul c2 u c3 pl c4 p c5 where
    r: "io_read HandlerIo 1 c = (Inr v, c1)" "io_read HandlerIo 1 c1 = (Inr ul, c2)"
       "io_read HandlerIo (unat (ul ! 0)) c2 = (Inr u, c3)" "io_read HandlerIo 1 c3 = (Inr pl, c4)"
       "io_read HandlerIo (unat (pl ! 0)) c4 = (Inr p, c5)" and
    ok: "check_user ho (from_utf8_lossy u) (from_utf8_lossy p)"
    by (auto simp: server_auth_def took split: if_splits)
  note a1 = io_read_Inr [OF r(1) assms(2)]
  note a2 = io_read_Inr [OF r(2) a1(1)]
  note a3 = io_read_Inr [OF r(3) a2(1)]
  note a4 = io_read_Inr [OF r(4) a3(1)]
  note a5 = io_read_Inr [OF r(5) a4(1)]
  obtain v' ul' pl' where h: "v = [v']" "ul = [ul']" "pl = [pl']"
    using length_1E [OF a1(3)] length_1E [OF a2(3)] length_1E [OF a4(3)] by metis
  have "content c = auth_message v' u p @ content c5"
    using a1(2) a2(2) a3(2,3) a4(2) a5(2,3) h by (simp add: auth_message_def)
  with ok show ?thesis by blast
qed

lemma server_choice_Inr:
  assumes "server_choice H ho i methods c = (Inr (), c')" "ho_authenticator ho = Some A"
  obtains c1 c2 where "io_write HandlerIo [SOCKS5_VERSION, server_method True methods] c = (Inr (), c1)"
    "(if METHOD_TLS \<in> set methods then io_accept H ho i else io_ok ()) c1 = (Inr (), c2)"
    "server_auth ho c2 = (Inr (), c')"
proof (cases "METHOD_TLS \<in> set methods")
  case True
  then have m: "server_method True methods = METHOD_TLS_AUTH" by (simp add: server_method_def)
  show thesis using assms(1) True that
    by (auto simp: server_choice_def assms(2) took m)
next
  case False
  then have m: "server_method True methods = METHOD_USER_PASS" by (simp add: server_method_def METHOD_NO_AUTH_def METHOD_TLS_def)
  have d: "METHOD_USER_PASS \<noteq> METHOD_TLS" "METHOD_USER_PASS \<noteq> METHOD_TLS_AUTH"
    by (simp_all add: METHOD_USER_PASS_def METHOD_TLS_AUTH_def METHOD_TLS_def)
  show thesis using assms(1) False that by (auto simp: server_choice_def assms(2) took m d split: if_splits)
qed

lemma server_negotiate_took:
  assumes "server_negotiate H ho i c = (Inr (), c')" "conn_ok c" "ho_authenticator ho = Some A"
  shows "\<exists>methods rest bs v u p tail. content c = [SOCKS5_VERSION, usize_as_u8 (length methods)] @ methods @ rest \<and>
    session_bytes H i methods rest bs \<and> bs = auth_message v u p @ tail \<and> A (from_utf8_lossy u) (from_utf8_lossy p)"
proof -
  obtain ver c1 n c2 methods c3 where
    r: "io_read HandlerIo 1 c = (Inr ver, c1)" "io_read HandlerIo 1 c1 = (Inr n, c2)"
       "io_read HandlerIo (unat (n ! 0)) c2 = (Inr methods, c3)" "ver ! 0 = SOCKS5_VERSION" and
    ch: "server_choice H ho i methods c3 = (Inr (), c')"
    using assms(1) by (auto simp: server_negotiate_def took split: if_splits)
  obtain c4 c5 where
    m: "io_write HandlerIo [SOCKS5_VERSION, server_method True methods] c3 = (Inr (), c4)"
       "(if METHOD_TLS \<in> set methods then io_accept H ho i else io_ok ()) c4 = (Inr (), c5)"
       "server_auth ho c5 = (Inr (), c')"
    by (rule server_choice_Inr [OF ch assms(3)])
  note a1 = io_read_Inr [OF r(1) assms(2)]
  note a2 = io_read_Inr [OF r(2) a1(1)]
  note a3 = io_read_Inr [OF r(3) a2(1)]
  note a4 = io_write_Inr [OF m(1) a3(1)]
  obtain n' where h: "ver = [SOCKS5_VERSION]" "n = [n']"
    using length_1E [OF a1(3)] length_1E [OF a2(3)] r(4) by (metis nth_Cons_0)
  have c: "content c = [SOCKS5_VERSION, usize_as_u8 (length methods)] @ methods @ content c3"
    using a1(2) a2(2) a3(2,3) h by simp
  have s: "conn_ok c5 \<and> session_bytes H i methods (content c3) (content c5)"
  proof (cases "METHOD_TLS \<in> set methods")
    case True
    with m(2) obtain t x where "ht_tls_accept H i t c4 = Inr x" "c5 = layered x (px_peer c4) (px_local c4)"
      by (auto simp: io_accept_def split: sum.splits)
    moreover from this(2) have "content c5 = arrives (w_in x)" "conn_ok c5"
      by (simp_all add: layered_def conn_new_def content_def buffered_def conn_ok_def)
    ultimately show ?thesis using True a4(2) by (auto simp: session_bytes_def)
  next
    case False
    then show ?thesis using m(2) a4 by (auto simp: io_ok_def session_bytes_def)
  qed
  from server_auth_took [OF m(3)] s assms(3) obtain v u p tail where
    "content c5 = auth_message v u p @ tail" "A (from_utf8_lossy u) (from_utf8_lossy p)"
    by (auto simp: check_user_def)
  with c s show ?thesis by blast
qed

section \<open>A hop of a chain and this server\<close>

text \<open>When the server lets a hop's client in.\<close>

definition admits :: "('r, 'n) handler_options \<Rightarrow> node \<Rightarrow> bool" where
  "admits ho n \<longleftrightarrow>
     (case ho_authenticator ho of
        None \<Rightarrow> True
      | Some A \<Rightarrow>
          (case nd_user n of
             None \<Rightarrow> False
           | Some (u, pw) \<Rightarrow> length u \<le> 255 \<and> length (or_empty pw) \<le> 255 \<and> utf8_valid u \<and> utf8_valid (or_empty pw) \<and>
               A u (or_empty pw)))"

definition admission :: "('r, 'n) handler_options \<Rightarrow> node \<Rightarrow> bytes" where
  "admission ho n =
     (case (ho_authenticator ho, nd_user n) of
        (Some _, Some (u, pw)) \<Rightarrow> auth_request u (or_empty pw)
      | _ \<Rightarrow> [])"

definition admitted :: "('r, 'n) handler_options \<Rightarrow> bytes" where
  "admitted ho = (case ho_authenticator ho of None \<Rightarrow> [0x05, METHOD_NO_AUTH] | Some _ \<Rightarrow> [0x05, METHOD_USER_PASS] @ [0x01, 0x00])"

lemma runs_server_auth:
  assumes "conn_at l (auth_request u p @ rest) out c" "length u \<le> 255" "length p \<le> 255" "utf8_valid u" "utf8_valid p"
    "check_user ho u p" "\<And>c'. conn_at l rest (out @ [0x01, 0x00]) c' \<Longrightarrow> Q (Inr ()) c'"
  shows "runs (server_auth ho) c Q"
proof -
  have n: "unat (usize_as_u8 (length u)) = length u" "unat (usize_as_u8 (length p)) = length p"
    using assms(2,3) by (simp_all add: unat_usize_as_u8)
  have s: "from_utf8_lossy (as_bytes u) = u" "from_utf8_lossy (as_bytes p) = p"
    using assms(4,5) by (simp_all add: from_utf8_lossy_as_bytes)
  show ?thesis using assms(1) unfolding server_auth_def auth_request_def
    by - (rule run_intros | erule runs_read_step runs_write | simp add: n s assms(6,7))+
qed

lemma runs_server_negotiate:
  assumes "conn_at l (greeting (hop_methods n) @ admission ho n @ rest) out c" "admits ho n" "node_get_bool n ''notls''"
    "\<And>c'. conn_at l rest (out @ admitted ho) c' \<Longrightarrow> Q (Inr ()) c'"
  shows "runs (server_negotiate H ho i) c Q"
proof (cases "ho_authenticator ho")
  case None
  have len: "unat (usize_as_u8 (length (hop_methods n))) = length (hop_methods n)"
    by (rule unat_usize_as_u8) (simp add: hop_methods_def)
  have "METHOD_TLS \<notin> set (hop_methods n)" using assms(3) by (simp add: hop_methods_def socks5_consts)
  then have ch: "server_choice H ho i (hop_methods n) = io_bind (io_write HandlerIo (admitted ho)) (\<lambda>_. io_bind (io_ok ()) (\<lambda>_. io_ok ()))"
    using None by (simp add: server_choice_def server_method_def admitted_def socks5_consts)
  show ?thesis using assms(1) unfolding server_negotiate_def greeting_def
    by - (rule run_intros | erule runs_read_step runs_write | simp add: len ch None admission_def assms(4))+
next
  case (Some A)
  then obtain u pw where u: "nd_user n = Some (u, pw)" "length u \<le> 255" "length (or_empty pw) \<le> 255"
      "utf8_valid u" "utf8_valid (or_empty pw)" "A u (or_empty pw)"
    using assms(2) by (auto simp: admits_def split: option.splits)
  have len: "unat (usize_as_u8 (length (hop_methods n))) = length (hop_methods n)"
    by (rule unat_usize_as_u8) (simp add: hop_methods_def)
  have "METHOD_TLS \<notin> set (hop_methods n)" "METHOD_USER_PASS \<in> set (hop_methods n)"
    using assms(3) u(1) by (simp_all add: hop_methods_def socks5_consts)
  then have ch: "server_choice H ho i (hop_methods n) =
      io_bind (io_write HandlerIo [0x05, METHOD_USER_PASS]) (\<lambda>_. io_bind (io_ok ()) (\<lambda>_. server_auth ho))"
    using Some by (simp add: server_choice_def server_method_def socks5_consts)
  have ck: "check_user ho u (or_empty pw)" using Some u(6) by (simp add: check_user_def)
  have ad: "admission ho n = auth_request u (or_empty pw)" using Some u(1) by (simp add: admission_def)
  show ?thesis using assms(1) unfolding server_negotiate_def greeting_def ad
    by - (rule run_intros | erule runs_read_step runs_write
        | erule runs_server_auth [OF _ u(2-5) ck] | simp add: len ch Some admitted_def assms(4))+
qed

lemma encode_address_Cons: "encode_address h p = hd (encode_address h p) # tl (encode_address h p)"
  by (rule list.collapse [symmetric]) (auto simp: encode_address_def Let_def split: option.splits)

lemma runs_server_request:
  assumes "conn_at l (SOCKS5_VERSION # cmd # 0 # encode_address h p @ rest) out c" "host_fits h"
    "\<And>c'. conn_at l rest out c' \<Longrightarrow> Q (Inr (cmd, join_addr (canon_host h) p)) c'"
  shows "runs server_request c Q"
proof -
  let ?e = "encode_address h p"
  have h: "length h \<le> 255" "utf8_valid h" using assms(2) by (simp_all add: host_fits_def)
  have "conn_at l ([SOCKS5_VERSION, cmd, 0x00, hd ?e] @ tl ?e @ rest) out c"
    using assms(1) encode_address_Cons [of h p] by (metis append_Cons append_Nil)
  then show ?thesis unfolding server_request_def
    by - (rule run_intros | erule runs_read_step | erule read_address_roundtrip [OF _ h] | simp add: assms(3))+
qed

lemma runs_send_reply:
  assumes "conn_at l ys out c" "\<And>c'. conn_at l ys (out @ reply_bytes rep host port) c' \<Longrightarrow> Q (Inr ()) c'"
  shows "runs (send_reply rep host port) c Q"
  using assms(1) unfolding send_reply_def
  by - (rule run_intros | erule runs_write | simp add: assms(2))+

lemma zero_reply: "reply_bytes rep ''0.0.0.0'' 0 = [0x05, rep, 0x00, 0x01] @ replicate 6 0"
proof -
  have "show_v4 0 0 0 0 = ''0.0.0.0''" by (simp add: show_v4_def show_nat.simps digit_char_def)
  then have "parse_v4 ''0.0.0.0'' = Some (0, 0, 0, 0)" using parse_v4_show [of 0 0 0 0] by simp
  then show ?thesis by (simp add: reply_bytes_def u16_to_be_def SOCKS5_VERSION_def ATYP_IPV4_def numeral_eq_Suc)
qed

text \<open>The dialogue a hop's client has with this server.\<close>

definition hop_request :: "('r, 'n) handler_options \<Rightarrow> node \<Rightarrow> string \<Rightarrow> u16 \<Rightarrow> bytes" where
  "hop_request ho n h p = greeting (hop_methods n) @ admission ho n @ [0x05, 0x01, 0x00] @ encode_address h p"

definition hop_answer :: "('r, 'n) handler_options \<Rightarrow> bytes" where
  "hop_answer ho = admitted ho @ [0x05, 0x00, 0x00, 0x01] @ replicate 6 0"

lemma server_dialogue:
  assumes "nd_protocol n = ''socks5''" "chain_split_host_port target = Inr (h, p)" "admits ho n"
  shows "hop_dialogue b64 n target (hop_request ho n h p) (hop_answer ho)"
proof (cases "ho_authenticator ho")
  case None
  have "bound_addr_ok 1 (replicate 6 0)" by (simp add: bound_addr_ok_def)
  from hop_dialogue.socks5 [OF assms(1,2) this, of b64 5 0] None show ?thesis
    by (simp add: hop_request_def hop_answer_def admission_def admitted_def)
next
  case (Some A)
  then obtain u pw where u: "nd_user n = Some (u, pw)" "length u \<le> 255" "length (or_empty pw) \<le> 255"
    using assms(3) by (auto simp: admits_def split: option.splits)
  have "bound_addr_ok 1 (replicate 6 0)" by (simp add: bound_addr_ok_def)
  from hop_dialogue.socks5_auth [OF assms(1,2) this u, of b64 1 5 0] Some u(1) show ?thesis
    by (simp add: hop_request_def hop_answer_def admission_def admitted_def)
qed

lemma hruns_handle_connect:
  assumes "conn_at l ys out c" "allowed ho ''tcp'' t" "\<not> bypassed (ht_libs H) ho t"
    "dial_target H ho t w = (Inr cc, w')"
    "\<And>c'. conn_at l ys (out @ [0x05, 0x00, 0x00, 0x01] @ replicate 6 0) c' \<Longrightarrow> Q (Inr (Splice cc)) c' w'"
  shows "hruns (handle_connect H ho t) c w Q"
  using assms(1) unfolding handle_connect_def
  by - (rule hrun_intros | erule runs_send_reply | simp add: assms(2-4) zero_reply REP_SUCCESS_def assms(5) [simplified])+

lemma socks5_handle_hop:
  assumes "node_get_bool n ''notls''" "admits ho n" "host_fits h"
    and "allowed ho ''tcp'' (join_addr (canon_host h) p)" "\<not> bypassed (ht_libs H) ho (join_addr (canon_host h) p)"
    and "dial_target H ho (join_addr (canon_host h) p) w = (Inr cc, w')"
    and "conn_at l (hop_request ho n h p @ rest) [] c"
  shows "\<exists>c'. socks5_handle H ho c w = (Inr (Splice cc), c', w') \<and> conn_at l rest (hop_answer ho) c'"
proof -
  have c: "conn_at l (greeting (hop_methods n) @ admission ho n @ [SOCKS5_VERSION, CMD_CONNECT, 0x00] @ encode_address h p @ rest) [] c"
    using assms(7) by (simp add: hop_request_def SOCKS5_VERSION_def CMD_CONNECT_def)
  let ?post = "\<lambda>r c' w''. r = Inr (Splice cc) \<and> w'' = w' \<and> conn_at l rest (hop_answer ho) c'"
  have "hruns (socks5_handle H ho) c w ?post \<longleftrightarrow> hruns (hio_bind (hio_io (server_negotiate H ho (wd_tick w)))
      (\<lambda>_. hio_bind (hio_io server_request) (\<lambda>(cmd, target). dispatch H ho cmd target))) c w ?post"
    by (simp add: hruns_def socks5_handle_def)
  moreover have "\<dots>" using c
    by - (rule hrun_intros | erule runs_server_negotiate [OF _ assms(2,1)] | erule runs_server_request [OF _ assms(3)]
        | erule hruns_handle_connect [OF _ assms(4-6)] | simp add: dispatch_def hop_answer_def)+
  ultimately show ?thesis by (auto simp: hruns_def split: prod.splits)
qed

text \<open>A server with one user, no chain, and a network that takes every connection.\<close>

definition demo_host :: "(unit, unit, unit) host" where
  "demo_host =
     \<lparr>ht_net = demo_net [], ht_libs = \<lparr>parse_net = (\<lambda>s. None), net_contains = (\<lambda>n ip. False), glob_match = go_glob\<rparr>, ht_marker = 0,
      ht_tls_files = (\<lambda>_ _. Inl []), ht_tls_self_signed = (\<lambda>_. Inl []), ht_tls_accept = (\<lambda>_ _ _. Inl []),
      ht_listen = (\<lambda>_ _. Inl (IoError Other [])), ht_accept = (\<lambda>_. ControlRead),
      ht_udp_bind = (\<lambda>_ _. Inl (IoError Other [])), ht_udp_lookup = (\<lambda>_ _ _. None)\<rparr>"

definition demo_options :: "(unit, unit) handler_options" where
  "demo_options =
     \<lparr>ho_addr = [], ho_chain = None, ho_users = [], ho_authenticator = Some (\<lambda>u p. u = ''ann'' \<and> p = ''pw''),
      ho_whitelist = None, ho_blacklist = None, ho_bypass = None, ho_retries = 0, ho_timeout = 0, ho_node = None,
      ho_host = [], ho_proxy_agent = [], ho_strategy = [], ho_max_fails = 0, ho_fail_timeout = 0, ho_fastest_count = 0,
      ho_probe_resist = [], ho_knocking_host = []\<rparr>"

definition demo_hop :: node where
  "demo_hop = (demo_node ''socks5'' ''p:1080'')\<lparr>nd_user := Some (''ann'', Some ''pw''), nd_values := [(''notls'', ''true'')]\<rparr>"

lemma demo_hop_facts:
  "nd_protocol demo_hop = ''socks5''" "node_get_bool demo_hop ''notls''" "admits demo_options demo_hop"
proof -
  show "nd_protocol demo_hop = ''socks5''" by (simp add: demo_hop_def demo_node_def)
  show "node_get_bool demo_hop ''notls''" by (simp add: demo_hop_def node_get_bool_def parse_go_bool_def)
  have "utf8_valid ''ann''" "utf8_valid ''pw''" by (simp_all add: byte_in_def)
  then show "admits demo_options demo_hop" by (simp only: admits_def demo_options_def demo_hop_def) (simp add: or_empty_def)
qed

lemma demo_target:
  "chain_split_host_port ''example.org:443'' = Inr (''example.org'', 443)" "host_fits ''example.org''"
  "canon_host ''example.org'' = ''example.org''" "join_addr ''example.org'' 443 = ''example.org:443''"
proof -
  show "chain_split_host_port ''example.org:443'' = Inr (''example.org'', 443)"
    by (simp add: chain_split_host_port_def rsplit_once_def rfind_char_def parse_uint_def digit_val_def del: rfind_char_None)
  show "host_fits ''example.org''" by (simp add: host_fits_def byte_in_def)
  show "canon_host ''example.org'' = ''example.org''"
    using not_address [of "CHR ''x''" "''example.org''"] by (simp add: canon_host_def addr_char_def to_digit_def)
  show "join_addr ''example.org'' 443 = ''example.org:443''"
    by (simp add: join_addr_def join_host_port_def show_nat.simps digit_char_def)
qed

lemma demo_dial:
  "dial_target demo_host demo_options ''example.org:443'' demo_world = (Inr (from_tcp (demo_tcp [])), logged (TcpConnect ''example.org:443'') demo_world)"
  by (simp add: dial_target_def dial_setup_def the_chain_def demo_options_def chain_empty_def default_options_def
      dial_with_options_def dial_once_def chain_resolve_def demo_target(1) chain_is_empty_def connect_tcp_def demo_host_def demo_net_def)

lemma demo_chain_dial:
  "chain_dial (ht_net demo_host) (the_chain demo_options) ''example.org:443'' demo_world =
     (Inr (from_tcp (demo_tcp [])), logged (TcpConnect ''example.org:443'') demo_world)"
  by (simp add: chain_dial_def the_chain_def demo_options_def chain_empty_def default_options_def
      dial_with_options_def dial_once_def chain_resolve_def demo_target(1) chain_is_empty_def connect_tcp_def demo_host_def demo_net_def)

lemma demo_allowed:
  "allowed demo_options ''tcp'' ''example.org:443''" "\<not> bypassed L demo_options ''example.org:443''"
proof -
  have "split_host_port ''example.org:443'' = Inr (''example.org'', ''443'')"
    by (rule split_host_port_complete) (simp add: host_port_form_def)
  then show "allowed demo_options ''tcp'' ''example.org:443''"
    by (simp add: allowed_def demo_options_def Can_def parse_uint_def digit_val_def)
  show "\<not> bypassed L demo_options ''example.org:443''" by (simp add: bypassed_def demo_options_def)
qed

lemma socks5_gate:
  assumes "ho_authenticator ho = Some A" "conn_ok c" "socks5_handle H ho c w = (r, c', w')"
    and "w' \<noteq> w \<or> (\<exists>s. r = Inr s)"
  shows "\<exists>methods rest bs v u p tail. content c = [SOCKS5_VERSION, usize_as_u8 (length methods)] @ methods @ rest \<and>
    session_bytes H (wd_tick w) methods rest bs \<and> bs = auth_message v u p @ tail \<and>
    A (from_utf8_lossy u) (from_utf8_lossy p)"
proof -
  obtain x c1 where n: "server_negotiate H ho (wd_tick w) c = (x, c1)"
    by (cases "server_negotiate H ho (wd_tick w) c")
  have "\<exists>u. x = Inr u"
    using assms(3,4) n by (cases x) (auto simp: socks5_handle_def hio_bind_def hio_io_def)
  with n server_negotiate_took [OF _ assms(2,1)] show ?thesis by auto
qed

section \<open>Properties\<close>

text \<open>C2. Nothing happens for a client that has not authenticated: when the listener has an
  authenticator and the SOCKS5 handler dials, listens, binds or enters any service, then the
  client's bytes were a greeting followed by a user/password message with credentials the
  authenticator accepts, sent in the clear, or, when the client offered TLS, inside the TLS
  session the handler accepted.\<close>

theorem socks5_auth_gate:
  assumes "ho_authenticator ho = Some A" "conn_ok c" "socks5_handle H ho c w = (r, c', w')"
    and "w' \<noteq> w \<or> (\<exists>s. r = Inr s)"
  shows "\<exists>methods rest bs v u p tail. content c = [SOCKS5_VERSION, usize_as_u8 (length methods)] @ methods @ rest \<and>
    session_bytes H (wd_tick w) methods rest bs \<and> bs = auth_message v u p @ tail \<and>
    A (from_utf8_lossy u) (from_utf8_lossy p)"
  using assms by (rule socks5_gate)

theorem socks5_auth_gate_witness:
  "\<exists>methods rest bs v u p tail.
     hop_request demo_options demo_hop ''example.org'' 443 = [SOCKS5_VERSION, usize_as_u8 (length methods)] @ methods @ rest \<and>
     session_bytes demo_host 0 methods rest bs \<and> bs = auth_message v u p @ tail \<and>
     from_utf8_lossy u = ''ann'' \<and> from_utf8_lossy p = ''pw''"
proof -
  let ?c = "demo_conn (hop_request demo_options demo_hop ''example.org'' 443)"
  have at: "conn_at None (hop_request demo_options demo_hop ''example.org'' 443 @ []) [] ?c" using demo_conn_at by simp
  obtain c' where "socks5_handle demo_host demo_options ?c demo_world =
      (Inr (Splice (from_tcp (demo_tcp []))), c', logged (TcpConnect ''example.org:443'') demo_world)"
    using socks5_handle_hop [OF demo_hop_facts(2,3) demo_target(2) _ _ _ at, of demo_host demo_world] demo_target demo_dial demo_allowed
    by auto
  from socks5_auth_gate [OF _ _ this, of "\<lambda>u p. u = ''ann'' \<and> p = ''pw''"] at
  show ?thesis by (auto simp: conn_at_def demo_options_def demo_world_def)
qed



text \<open>BIND and UDP-tunnel requests of a server with a chain go around the chain: the handler
  connects to the last node itself, not through the hops before it, and neither the whitelist
  nor the blacklist is consulted for the requested address.\<close>

theorem forwarded_requests_skip_chain:
  assumes "\<not> chain_is_empty (the_chain ho)"
  shows "wd_log (snd (snd (handle_bind H ho target c w))) =
      wd_log w @ [TcpConnect (nd_addr (chain_last_node (ht_marker H) (the_chain ho)))] \<and>
    wd_log (snd (snd (handle_udp_tunnel H ho target c w))) =
      wd_log w @ [TcpConnect (nd_addr (chain_last_node (ht_marker H) (the_chain ho)))] \<and>
    handle_bind H (ho\<lparr>ho_whitelist := wl, ho_blacklist := bl\<rparr>) target c w = handle_bind H ho target c w \<and>
    handle_udp_tunnel H (ho\<lparr>ho_whitelist := wl, ho_blacklist := bl\<rparr>) target c w = handle_udp_tunnel H ho target c w"
proof -
  have refuse_log: "wd_log (snd (snd (refuse rep e c w))) = wd_log w" for rep e c w
    by (simp add: refuse_def hio_bind_def hio_io_def hio_err_def split: prod.splits sum.splits)
  have log: "wd_log (snd (snd (forward_request H ho cmd msg neg target c w))) =
      wd_log w @ [TcpConnect (nd_addr (chain_last_node (ht_marker H) (the_chain ho)))]" for cmd msg neg
    by (auto simp: forward_request_def Let_def hio_bind_def hio_net_def sys_connect_def refuse_log hio_err_def hio_ok_def logged_def
        split: option.splits sum.splits prod.splits)
  have same: "the_chain (ho\<lparr>ho_whitelist := wl, ho_blacklist := bl\<rparr>) = the_chain ho"
    "dial_timeout (ho\<lparr>ho_whitelist := wl, ho_blacklist := bl\<rparr>) = dial_timeout ho"
    by (simp_all add: the_chain_def dial_timeout_def)
  show ?thesis using assms log by (simp add: handle_bind_def handle_udp_tunnel_def same) (simp add: forward_request_def same)
qed

definition demo_forward :: "(unit, unit) handler_options" where
  "demo_forward = demo_options\<lparr>ho_chain := Some demo_chain, ho_authenticator := None\<rparr>"

theorem forwarded_requests_skip_chain_witness:
  "wd_log (snd (snd (handle_bind demo_host demo_forward ''0.0.0.0:9000'' (demo_conn []) demo_world))) = [TcpConnect ''p2:1080'']"
proof -
  have c: "\<not> chain_is_empty (the_chain demo_forward)" "nd_addr (chain_last_node m (the_chain demo_forward)) = ''p2:1080''" for m
    by (simp_all add: demo_forward_def demo_options_def the_chain_def demo_chain_def chain_new_def chain_is_empty_def
        chain_last_node_def group_new_def group_get_node_def demo_node_def)
  show ?thesis
    using conjunct1 [OF forwarded_requests_skip_chain [OF c(1), of demo_host "''0.0.0.0:9000''" "demo_conn []" demo_world]]
    by (simp add: c(2) demo_world_def)
qed

end
