(* ===== verification/Socks5Udp.thy ===== *)
theory Socks5Udp
  imports Socks5Server
begin

text \<open>
  The datagram loops of the SOCKS5 server: the UDP association (\<^verbatim>\<open>transport_udp\<close>) and the UDP tunnel
  (\<^verbatim>\<open>tunnel_server_udp\<close>) of \<^verbatim>\<open>src/src/socks5.rs\<close>. Each loop is a function of the events \<^verbatim>\<open>select!\<close> picks, in the
  order it picks them; it is stopped when the control connection closes, that is, at any point
  of the event list. \<open>S\<close> says which \<^verbatim>\<open>send_to\<close> calls fail.
\<close>

section \<open>Filtering\<close>

definition udp_dst_allowed :: "('r, 'n, 't) host \<Rightarrow> ('r, 'n) handler_options \<Rightarrow> string \<Rightarrow> bool" where
  "udp_dst_allowed H ho dst =
     (if \<not> allowed ho ''udp'' dst then False
      else if bypassed (ht_libs H) ho dst then False
      else True)"

text \<open>Where a datagram for a host and port goes: filtered as written and once more as resolved.\<close>

definition udp_route :: "('r, 'n, 't) host \<Rightarrow> ('r, 'n) handler_options \<Rightarrow> nat \<Rightarrow> string \<Rightarrow> u16 \<Rightarrow> socket_addr option" where
  "udp_route H ho i host port =
     (let dst = join_addr host port
      in if \<not> udp_dst_allowed H ho dst then None
         else case resolve_udp_addr H i host port of
                None \<Rightarrow> None
              | Some raddr \<Rightarrow>
                  let resolved = show_sockaddr raddr
                  in if resolved \<noteq> dst \<and> \<not> udp_dst_allowed H ho resolved then None else Some raddr)"

lemma udp_route_Some:
  "udp_route H ho i host port = Some a \<Longrightarrow>
   udp_dst_allowed H ho (join_addr host port) \<and> udp_dst_allowed H ho (show_sockaddr a) \<and> resolve_udp_addr H i host port = Some a"
  by (auto simp: udp_route_def Let_def split: if_splits option.splits)

section \<open>The association\<close>

datatype udp_event = FromClient bytes socket_addr | FromPeer bytes socket_addr | RecvFailed io_error

text \<open>Its state: the client, the running number of the calls, what was sent each way.\<close>

record assoc =
  as_client :: "socket_addr option"
  as_tick :: nat
  as_out :: "(bytes \<times> socket_addr) list"
  as_back :: "(bytes \<times> socket_addr) list"

definition assoc_start :: assoc where
  "assoc_start = \<lparr>as_client = None, as_tick = 0, as_out = [], as_back = []\<rparr>"

fun relay_event ::
    "('r, 'n, 't) host \<Rightarrow> ('r, 'n) handler_options \<Rightarrow> (nat \<Rightarrow> io_error option) \<Rightarrow> udp_event \<Rightarrow> assoc \<Rightarrow> io_error option \<times> assoc" where
  "relay_event H ho S (RecvFailed e) s = (Some e, s)"
| "relay_event H ho S (FromClient pkt laddr) s =
     (let s = (if as_client s = None then s\<lparr>as_client := Some laddr\<rparr> else s)
      in if as_client s \<noteq> Some laddr then (None, s)
         else case parse_udp_datagram pkt of
                None \<Rightarrow> (None, s)
              | Some (frag, host, port, off) \<Rightarrow>
                  if frag \<noteq> 0 then (None, s)
                  else let i = as_tick s; s = s\<lparr>as_tick := Suc i\<rparr>
                       in case udp_route H ho i host port of
                            None \<Rightarrow> (None, s)
                          | Some raddr \<Rightarrow>
                              (case S i of
                                 Some e \<Rightarrow> (Some e, s)
                               | None \<Rightarrow> (None, s\<lparr>as_out := as_out s @ [(drop off pkt, raddr)]\<rparr>)))"
| "relay_event H ho S (FromPeer data raddr) s =
     (case as_client s of
        None \<Rightarrow> (None, s)
      | Some caddr \<Rightarrow>
          if bypassed (ht_libs H) ho (show_sockaddr raddr) then (None, s)
          else let i = as_tick s; s = s\<lparr>as_tick := Suc i\<rparr>
               in case S i of
                    Some e \<Rightarrow> (Some e, s)
                  | None \<Rightarrow> (None, s\<lparr>as_back := as_back s @ [(encode_udp_datagram raddr data, caddr)]\<rparr>))"

fun transport_udp ::
    "('r, 'n, 't) host \<Rightarrow> ('r, 'n) handler_options \<Rightarrow> (nat \<Rightarrow> io_error option) \<Rightarrow> udp_event list \<Rightarrow> assoc \<Rightarrow> io_error option \<times> assoc" where
  "transport_udp H ho S [] s = (None, s)"
| "transport_udp H ho S (e # es) s =
     (case relay_event H ho S e s of
        (Some err, s) \<Rightarrow> (Some err, s)
      | (None, s) \<Rightarrow> transport_udp H ho S es s)"

section \<open>The tunnel\<close>

text \<open>
  One round polls the tunnel, which may be in the middle of a frame (the frame is kept in the
  tunnel), or takes a datagram from the socket.
\<close>

datatype tunnel_event = PollTunnel | FromSocket bytes socket_addr | SocketFailed io_error

record tunnel_server_state =
  ts_tunnel :: tunnel
  ts_tick :: nat
  ts_out :: "(bytes \<times> socket_addr) list"

text \<open>\<open>Some\<close> ends the loop.\<close>

fun tunnel_event_step ::
    "('r, 'n, 't) host \<Rightarrow> ('r, 'n) handler_options \<Rightarrow> (nat \<Rightarrow> io_error option) \<Rightarrow> tunnel_event \<Rightarrow> tunnel_server_state
     \<Rightarrow> (io_error + unit) option \<times> tunnel_server_state" where
  "tunnel_event_step H ho S (SocketFailed e) s = (Some (Inl e), s)"
| "tunnel_event_step H ho S PollTunnel s =
     (case tunnel_poll_recv (ts_tunnel s) of
        (Pending, t) \<Rightarrow> (None, s\<lparr>ts_tunnel := t\<rparr>)
      | (Ready (Inl e), t) \<Rightarrow> (Some (Inl e), s\<lparr>ts_tunnel := t\<rparr>)
      | (Ready (Inr None), t) \<Rightarrow> (Some (Inr ()), s\<lparr>ts_tunnel := t\<rparr>)
      | (Ready (Inr (Some (data, host, port))), t) \<Rightarrow>
          let i = ts_tick s; s = s\<lparr>ts_tunnel := t, ts_tick := Suc i\<rparr>
          in case udp_route H ho i host port of
               None \<Rightarrow> (None, s)
             | Some raddr \<Rightarrow>
                 (case S i of
                    Some e \<Rightarrow> (Some (Inl e), s)
                  | None \<Rightarrow> (None, s\<lparr>ts_out := ts_out s @ [(data, raddr)]\<rparr>)))"
| "tunnel_event_step H ho S (FromSocket data raddr) s =
     (if bypassed (ht_libs H) ho (show_sockaddr raddr) then (None, s)
      else case tunnel_send_to data (show_ip (fst raddr)) (snd raddr) (ts_tunnel s) of
             (Inl e, t) \<Rightarrow> (Some (Inl e), s\<lparr>ts_tunnel := t\<rparr>)
           | (Inr _, t) \<Rightarrow> (None, s\<lparr>ts_tunnel := t\<rparr>))"

fun tunnel_server_udp ::
    "('r, 'n, 't) host \<Rightarrow> ('r, 'n) handler_options \<Rightarrow> (nat \<Rightarrow> io_error option) \<Rightarrow> tunnel_event list \<Rightarrow> tunnel_server_state
     \<Rightarrow> (io_error + unit) option \<times> tunnel_server_state" where
  "tunnel_server_udp H ho S [] s = (None, s)"
| "tunnel_server_udp H ho S (e # es) s =
     (case tunnel_event_step H ho S e s of
        (Some r, s) \<Rightarrow> (Some r, s)
      | (None, s) \<Rightarrow> tunnel_server_udp H ho S es s)"

text \<open>\<^verbatim>\<open>discard_client_data\<close>: reads until the client closes or the connection fails.\<close>

definition SMALL_BUFFER_SIZE :: nat where
  "SMALL_BUFFER_SIZE = 2 * 1024"

function discard_client_data :: "proxy_conn \<Rightarrow> (io_error + unit) \<times> proxy_conn" where
  "discard_client_data c =
     (case conn_await_read SMALL_BUFFER_SIZE c of
        (Inl e, c') \<Rightarrow> (Inl e, c')
      | (Inr bs, c') \<Rightarrow> if bs = [] then (Inr (), c') else discard_client_data c')"
  by pat_completeness auto
termination
  by (relation "measure conn_weight") (auto intro: conn_await_read_weight [OF sym])

declare discard_client_data.simps [simp del]

section \<open>What the association sends\<close>

definition client_sent :: "('r, 'n, 't) host \<Rightarrow> ('r, 'n) handler_options \<Rightarrow> udp_event set \<Rightarrow> socket_addr \<Rightarrow> bytes \<Rightarrow> socket_addr \<Rightarrow> bool" where
  "client_sent H ho E owner d a \<longleftrightarrow>
     udp_dst_allowed H ho (show_sockaddr a) \<and>
     (\<exists>pkt host port off. FromClient pkt owner \<in> E \<and> parse_udp_datagram pkt = Some (0, host, port, off) \<and>
        d = drop off pkt \<and> udp_dst_allowed H ho (join_addr host port))"

definition peer_sent :: "('r, 'n, 't) host \<Rightarrow> ('r, 'n) handler_options \<Rightarrow> udp_event set \<Rightarrow> bytes \<Rightarrow> bool" where
  "peer_sent H ho E pkt \<longleftrightarrow>
     (\<exists>data raddr off. FromPeer data raddr \<in> E \<and> \<not> bypassed (ht_libs H) ho (show_sockaddr raddr) \<and>
        parse_udp_datagram pkt = Some (0, show_ip (fst raddr), snd raddr, off) \<and> drop off pkt = data)"

definition relay_ok :: "('r, 'n, 't) host \<Rightarrow> ('r, 'n) handler_options \<Rightarrow> udp_event set \<Rightarrow> assoc \<Rightarrow> bool" where
  "relay_ok H ho E s \<longleftrightarrow>
     (\<forall>(d, a) \<in> set (as_out s). \<exists>owner. as_client s = Some owner \<and> client_sent H ho E owner d a) \<and>
     (\<forall>(pkt, a) \<in> set (as_back s). as_client s = Some a \<and> peer_sent H ho E pkt)"

lemma canon_host_show_ip: "ip_ok ip \<Longrightarrow> canon_host (show_ip ip) = show_ip ip"
  by (cases ip) (auto simp: canon_host_def ip_ok_def parse_v4_show parse_v4_show_v6 parse_v6_show)

lemma encode_udp_datagram_parse:
  assumes "ip_ok (fst a)"
  shows "\<exists>off. parse_udp_datagram (encode_udp_datagram a data) = Some (0, show_ip (fst a), snd a, off) \<and>
    drop off (encode_udp_datagram a data) = data"
proof -
  have lit: "parse_v4 (show_ip (fst a)) \<noteq> None \<or> parse_v6 (show_ip (fst a)) \<noteq> None"
    using assms by (cases "fst a") (auto simp: ip_ok_def parse_v4_show parse_v6_show)
  let ?e = "encode_address (show_ip (fst a)) (snd a)"
  have "parse_udp_datagram ([0, 0, 0] @ ?e @ data) = Some (0, canon_host (show_ip (fst a)), snd a, 3 + length ?e)"
    by (rule parse_udp_datagram_encode) (use lit in simp)
  then show ?thesis using canon_host_show_ip [OF assms] by (simp add: encode_udp_datagram_def numeral_3_eq_3)
qed

lemma relay_client_cases:
  assumes "relay_event H ho S (FromClient pkt laddr) s = (r, s')"
  obtains (dropped) "as_out s' = as_out s" "as_back s' = as_back s"
      "as_client s' = (if as_client s = None then Some laddr else as_client s)"
  | (sent) i host port off raddr where "as_client s' = Some laddr" "as_client s = None \<or> as_client s = Some laddr"
      "parse_udp_datagram pkt = Some (0, host, port, off)" "udp_route H ho i host port = Some raddr"
      "as_out s' = as_out s @ [(drop off pkt, raddr)]" "as_back s' = as_back s"
proof (cases "as_client s = None \<or> as_client s = Some laddr")
  case False
  then show ?thesis using assms dropped by auto
next
  case True
  define s1 where "s1 = (if as_client s = None then s\<lparr>as_client := Some laddr\<rparr> else s)"
  have s1: "as_client s1 = Some laddr" "as_out s1 = as_out s" "as_back s1 = as_back s" using True by (auto simp: s1_def)
  show ?thesis
  proof (cases "parse_udp_datagram pkt")
    case None
    then show ?thesis using assms dropped True s1 by (auto simp: s1_def [symmetric])
  next
    case (Some q)
    obtain frag host port off where q: "q = (frag, host, port, off)" by (cases q)
    show ?thesis
      using assms dropped True s1 sent [of host port off "as_tick s1"] Some q
      by (cases "udp_route H ho (as_tick s1) host port"; cases "S (as_tick s1)"; cases "frag = 0")
        (auto simp: s1_def [symmetric] Let_def)
  qed
qed

lemma relay_event_keeps:
  assumes "relay_event H ho S e s = (r, s')" "e \<in> E" "relay_ok H ho E s" "\<And>d a. e = FromPeer d a \<Longrightarrow> ip_ok (fst a)"
  shows "relay_ok H ho E s'" "as_client s = Some c \<Longrightarrow> as_client s' = Some c"
proof -
  have "relay_ok H ho E s' \<and> (\<forall>c. as_client s = Some c \<longrightarrow> as_client s' = Some c)"
  proof (cases e)
    case (FromClient pkt laddr)
    show ?thesis using assms(1) unfolding FromClient
    proof (cases rule: relay_client_cases)
      case dropped
      then show ?thesis using assms(3) by (auto simp: relay_ok_def)
    next
      case (sent i host port off raddr)
      have "client_sent H ho E laddr (drop off pkt) raddr"
        using sent udp_route_Some [OF sent(4)] assms(2) FromClient by (auto simp: client_sent_def)
      then show ?thesis using sent assms(3) by (auto simp: relay_ok_def)
    qed
  next
    case (FromPeer data raddr)
    have "\<not> bypassed (ht_libs H) ho (show_sockaddr raddr) \<Longrightarrow> peer_sent H ho E (encode_udp_datagram raddr data)"
      unfolding peer_sent_def using encode_udp_datagram_parse [OF assms(4) [OF FromPeer], of data] assms(2) FromPeer by blast
    then show ?thesis using assms(1,3) unfolding FromPeer
      by (cases "as_client s"; cases "S (as_tick s)") (auto simp: relay_ok_def Let_def split: if_splits)
  next
    case (RecvFailed err)
    then show ?thesis using assms by auto
  qed
  then show "relay_ok H ho E s'" "as_client s = Some c \<Longrightarrow> as_client s' = Some c" by auto
qed

lemma transport_udp_keeps:
  assumes "transport_udp H ho S es s = (r, s')" "set es \<subseteq> E" "relay_ok H ho E s"
    "\<And>d a. FromPeer d a \<in> E \<Longrightarrow> ip_ok (fst a)"
  shows "relay_ok H ho E s'"
  using assms(1-3)
proof (induction es arbitrary: s)
  case (Cons e es)
  obtain x s1 where x: "relay_event H ho S e s = (x, s1)" by (cases "relay_event H ho S e s")
  have k: "relay_ok H ho E s1" by (rule relay_event_keeps(1) [OF x]) (use Cons.prems assms(4) in auto)
  show ?case
  proof (cases x)
    case None
    then show ?thesis using Cons x k by simp
  next
    case (Some err)
    then show ?thesis using Cons.prems x k by simp
  qed
qed simp

lemma tunnel_server_filtered:
  assumes "tunnel_server_udp H ho S es s = (r, s')" "\<forall>(d, a) \<in> set (ts_out s). udp_dst_allowed H ho (show_sockaddr a)"
  shows "\<forall>(d, a) \<in> set (ts_out s'). udp_dst_allowed H ho (show_sockaddr a)"
  using assms
proof (induction es arbitrary: s)
  case (Cons e es)
  obtain x s1 where x: "tunnel_event_step H ho S e s = (x, s1)" by (cases "tunnel_event_step H ho S e s")
  have k: "\<forall>(d, a) \<in> set (ts_out s1). udp_dst_allowed H ho (show_sockaddr a)"
  proof (cases e)
    case PollTunnel
    then show ?thesis using x Cons.prems(2)
      by (auto simp: Let_def dest: udp_route_Some split: prod.splits poll.splits sum.splits option.splits)
  qed (use x Cons.prems(2) in \<open>auto split: if_splits prod.splits sum.splits\<close>)
  show ?case using Cons x k by (cases x) auto
qed simp

section \<open>Properties\<close>


definition demo_events :: "udp_event list" where
  "demo_events = [FromClient [0, 0, 0, 1, 8, 8, 8, 8, 0, 53, 1, 2] (V4 10 0 0 2, 4000), FromPeer [3] (V4 8 8 8 8, 53)]"


text \<open>Datagrams that a given client did not send.\<close>

fun from_other :: "socket_addr \<Rightarrow> udp_event \<Rightarrow> bool" where
  "from_other a (FromClient pkt l) = (l \<noteq> a)"
| "from_other a _ = False"

text \<open>Whoever sends the first datagram to the relay socket owns the association: after one
  datagram from any address, malformed or not, the datagrams of every other address, the
  client that asked for the association included, are ignored for good.\<close>

theorem udp_first_sender_owns:
  "transport_udp H ho S (FromClient junk a # es) assoc_start =
   transport_udp H ho S (FromClient junk a # filter (\<lambda>e. \<not> from_other a e) es) assoc_start"
proof -
  have "transport_udp H ho S es s = transport_udp H ho S (filter (\<lambda>e. \<not> from_other a e) es) s" if "as_client s = Some a" for s
    using that
  proof (induction es arbitrary: s)
    case (Cons e es)
    obtain x s1 where x: "relay_event H ho S e s = (x, s1)" by (cases "relay_event H ho S e s")
    have "relay_event H ho S e s = (None, s)" if "from_other a e" using that Cons.prems by (cases e) auto
    moreover have "as_client s1 = Some a"
    proof (cases e)
      case (FromClient pkt l)
      from x [unfolded this] show ?thesis using Cons.prems by (cases rule: relay_client_cases) auto
    next
      case (FromPeer d r)
      then show ?thesis using x Cons.prems by (auto simp: Let_def split: if_splits option.splits)
    qed (use x Cons.prems in auto)
    ultimately show ?case using Cons x by (cases x) auto
  qed simp
  moreover obtain x s1 where x: "relay_event H ho S (FromClient junk a) assoc_start = (x, s1)"
    by (cases "relay_event H ho S (FromClient junk a) assoc_start")
  moreover from x have "as_client s1 = Some a"
    by (cases rule: relay_client_cases) (auto simp: assoc_start_def)
  ultimately show ?thesis by (cases x) (auto simp del: relay_event.simps)
qed

text \<open>A chain configured for the server is not used for a UDP association: the handler and the
  relay loop behave as if there were none, so the datagrams leave directly.\<close>

theorem udp_association_ignores_chain:
  "handle_udp_relay H (ho\<lparr>ho_chain := ch\<rparr>) target c w = handle_udp_relay H ho target c w \<and>
   transport_udp H (ho\<lparr>ho_chain := ch\<rparr>) S es s = transport_udp H ho S es s"
proof
  have a: "allowed (ho\<lparr>ho_chain := ch\<rparr>) = allowed ho" "bypassed L (ho\<lparr>ho_chain := ch\<rparr>) = bypassed L ho" for L
    by (simp_all add: fun_eq_iff allowed_def bypassed_def)
  show "handle_udp_relay H (ho\<lparr>ho_chain := ch\<rparr>) target c w = handle_udp_relay H ho target c w"
    by (simp only: handle_udp_relay_def a)
  have "udp_dst_allowed H (ho\<lparr>ho_chain := ch\<rparr>) = udp_dst_allowed H ho" by (intro ext) (simp only: udp_dst_allowed_def a)
  then have "udp_route H (ho\<lparr>ho_chain := ch\<rparr>) = udp_route H ho" by (intro ext) (simp only: udp_route_def)
  then have e: "relay_event H (ho\<lparr>ho_chain := ch\<rparr>) S e s = relay_event H ho S e s" for e s
    by (cases e) (simp_all only: relay_event.simps a)
  show "transport_udp H (ho\<lparr>ho_chain := ch\<rparr>) S es s = transport_udp H ho S es s"
    by (induction es arbitrary: s) (auto simp add: e simp del: relay_event.simps split: prod.splits option.splits)
qed

end
