(* ===== verification/Socks4.thy ===== *)
theory Socks4
  imports Socks5Server
begin

text \<open>
  SOCKS4 and SOCKS4a (\<^verbatim>\<open>src/src/socks4.rs\<close>), client and server, and the handler that picks the protocol
  by its first byte (\<^verbatim>\<open>AutoHandler\<close> of \<^verbatim>\<open>src/src/handler.rs\<close>).
\<close>

section \<open>Wire format\<close>

definition SOCKS4_VERSION :: u8 where "SOCKS4_VERSION = 0x04"
definition SOCKS4_CONNECT :: u8 where "SOCKS4_CONNECT = 0x01"
definition SOCKS4_BIND :: u8 where "SOCKS4_BIND = 0x02"
definition REP_GRANTED :: u8 where "REP_GRANTED = 0x5A"
definition REP_REJECTED :: u8 where "REP_REJECTED = 0x5B"

lemmas socks4_consts = SOCKS4_VERSION_def SOCKS4_CONNECT_def SOCKS4_BIND_def REP_GRANTED_def REP_REJECTED_def

definition socks4_parse_address :: "string \<Rightarrow> handler_error + (string \<times> u16)" where
  "socks4_parse_address addr =
     (case rsplit_once CHR '':'' addr of
        None \<Rightarrow> Inl (HandlerProxy (''invalid address: '' @ addr))
      | Some (host, port_str) \<Rightarrow>
          (case parse_u16 port_str of
             None \<Rightarrow> Inl (HandlerProxy (''invalid port: '' @ port_str))
           | Some p \<Rightarrow> Inr (host, of_nat p)))"

definition octets4 :: "u8 \<times> u8 \<times> u8 \<times> u8 \<Rightarrow> bytes" where
  "octets4 q = (case q of (a, b, c, d) \<Rightarrow> [a, b, c, d])"

definition v4_or_unspecified :: "string \<Rightarrow> bytes" where
  "v4_or_unspecified s = (case parse_v4 s of Some q \<Rightarrow> octets4 q | None \<Rightarrow> [0, 0, 0, 0])"

definition socks4_reply :: "u8 \<Rightarrow> string \<Rightarrow> u16 \<Rightarrow> (handler_error, unit) io" where
  "socks4_reply code addr port = io_write HandlerIo ([0x00, code] @ u16_to_be port @ v4_or_unspecified addr)"

section \<open>Clients\<close>

definition socks4_client :: "string \<Rightarrow> (handler_error, unit) io" where
  "socks4_client address =
     io_bind (io_try (socks4_parse_address address)) (\<lambda>(host, port).
     case parse_v4 host of
       None \<Rightarrow> io_err (HandlerProxy ''SOCKS4 requires IPv4 address'')
     | Some q \<Rightarrow>
         io_bind (io_write HandlerIo ([SOCKS4_VERSION, SOCKS4_CONNECT] @ u16_to_be port @ octets4 q @ [0x00])) (\<lambda>_.
         io_bind (io_read HandlerIo 8) (\<lambda>resp.
         if resp ! 1 \<noteq> REP_GRANTED
         then io_err (HandlerProxy (''SOCKS4 connect rejected: code '' @ show_nat (unat (resp ! 1))))
         else io_ok ())))"

definition socks4a_client :: "string \<Rightarrow> (handler_error, unit) io" where
  "socks4a_client address =
     io_bind (io_try (socks4_parse_address address)) (\<lambda>(host, port).
     let req = [SOCKS4_VERSION, SOCKS4_CONNECT] @ u16_to_be port
               @ (case parse_v4 host of
                    Some q \<Rightarrow> octets4 q @ [0x00]
                  | None \<Rightarrow> [0, 0, 0, 1] @ [0x00] @ as_bytes host @ [0x00])
     in io_bind (io_write HandlerIo req) (\<lambda>_.
        io_bind (io_read HandlerIo 8) (\<lambda>resp.
        if resp ! 1 \<noteq> REP_GRANTED
        then io_err (HandlerProxy (''SOCKS4a connect rejected: code '' @ show_nat (unat (resp ! 1))))
        else io_ok ())))"

section \<open>Server\<close>

lemma conn_read_exact_weight:
  "conn_read_exact n c = (Inr bs, c') \<Longrightarrow> conn_weight c' \<le> conn_weight c \<and> (0 < n \<longrightarrow> conn_weight c' < conn_weight c)"
proof (induction n c arbitrary: bs c' rule: conn_read_exact.induct)
  case (1 n c)
  show ?case
  proof (cases "n = 0")
    case True
    then show ?thesis using 1(3) by (simp add: conn_read_exact.simps [of 0 c])
  next
    case False
    obtain x c1 where x: "conn_poll_read n c = (x, c1)" by (cases "conn_poll_read n c")
    note w = conn_read_weight [OF x]
    show ?thesis
    proof (cases x)
      case Pending
      then show ?thesis using 1(1) [OF False x [symmetric] Pending, of bs c'] 1(3) False x w
        by (simp add: conn_read_exact.simps [of n c])
    next
      case (Ready y)
      then obtain b rest where b: "y = Inr b" "b \<noteq> []" "conn_read_exact (n - length b) c1 = (Inr rest, c')"
        using 1(3) False x by (auto simp: conn_read_exact.simps [of n c] split: sum.splits if_splits prod.splits)
      from 1(2) [OF False x [symmetric] Ready b(1,2) b(3)] w Ready b show ?thesis by auto
    qed
  qed
qed

text \<open>Bytes up to a zero byte, read one at a time without a limit.\<close>

function read_until_nul :: "bytes \<Rightarrow> (handler_error, bytes) io" where
  "read_until_nul acc c =
     (case conn_read_exact 1 c of
        (Inl e, c') \<Rightarrow> (Inl (HandlerIo e), c')
      | (Inr b, c') \<Rightarrow> if b ! 0 = 0 then (Inr acc, c') else read_until_nul (acc @ [b ! 0]) c')"
  by pat_completeness auto
termination
  by (relation "measure (\<lambda>(_, c). conn_weight c)") (auto dest!: conn_read_exact_weight [OF sym])

declare read_until_nul.simps [simp del]

definition socks4_domain_marker :: "bytes \<Rightarrow> bool" where
  "socks4_domain_marker ip \<longleftrightarrow> ip ! 0 = 0 \<and> ip ! 1 = 0 \<and> ip ! 2 = 0 \<and> ip ! 3 \<noteq> 0"

text \<open>The request: the command, whether it names a domain, and the target.\<close>

definition socks4_server_request :: "(handler_error, u8 \<times> bool \<times> string) io" where
  "socks4_server_request =
     io_bind (io_read HandlerIo 1) (\<lambda>ver.
     if ver ! 0 \<noteq> SOCKS4_VERSION
     then io_err (HandlerProxy (''unsupported SOCKS version: '' @ show_nat (unat (ver ! 0))))
     else
       io_bind (io_read HandlerIo 1) (\<lambda>cmd.
       io_bind (io_read HandlerIo 2) (\<lambda>port_buf.
       io_bind (io_read HandlerIo 4) (\<lambda>ip_buf.
       io_bind (read_until_nul []) (\<lambda>user_id.
       let port = u16_from_be (port_buf ! 0) (port_buf ! 1);
           is_socks4a = socks4_domain_marker ip_buf
       in io_bind
            (if is_socks4a then io_bind (read_until_nul []) (\<lambda>domain. io_ok (from_utf8_lossy domain))
             else io_ok (show_v4 (ip_buf ! 0) (ip_buf ! 1) (ip_buf ! 2) (ip_buf ! 3))) (\<lambda>host.
          io_ok (cmd ! 0, is_socks4a, host @ '':'' @ show_nat (unat port))))))))"

abbreviation reply4 :: "u8 \<Rightarrow> string \<Rightarrow> u16 \<Rightarrow> unit hio" where
  "reply4 code addr port \<equiv> hio_io (socks4_reply code addr port)"

definition refuse4 :: "handler_error \<Rightarrow> service hio" where
  "refuse4 e = hio_bind (reply4 REP_REJECTED ''0.0.0.0'' 0) (\<lambda>_. hio_err e)"

definition socks4_handle_connect :: "('r, 'n, 't) host \<Rightarrow> ('r, 'n) handler_options \<Rightarrow> string \<Rightarrow> service hio" where
  "socks4_handle_connect H ho target =
     (if \<not> allowed ho ''tcp'' target then refuse4 Forbidden
      else if bypassed (ht_libs H) ho target
      then hio_bind (reply4 REP_REJECTED ''0.0.0.0'' 0) (\<lambda>_. hio_ok Finished)
      else hio_bind (hio_net (dial_target H ho target)) (\<lambda>r.
        case r of
          Inr cc \<Rightarrow> hio_bind (reply4 REP_GRANTED ''0.0.0.0'' 0) (\<lambda>_. hio_ok (Splice cc))
        | Inl e \<Rightarrow> refuse4 (HandlerChain e)))"

fun only_v4 :: "ip_addr \<Rightarrow> string" where
  "only_v4 (V4 a b c d) = show_v4 a b c d"
| "only_v4 (V6 _) = ''0.0.0.0''"

definition socks4_bind_on :: "('r, 'n, 't) host \<Rightarrow> string \<Rightarrow> service hio" where
  "socks4_bind_on H addr =
     hio_bind (hio_net (sys_listen H addr)) (\<lambda>ln.
     case ln of
       Inl e \<Rightarrow> refuse4 (HandlerIo e)
     | Inr (Inl e) \<Rightarrow> hio_err (HandlerIo e)
     | Inr (Inr bound) \<Rightarrow>
         hio_bind hio_conn (\<lambda>conn.
         let host = (case px_local conn of Some a \<Rightarrow> fst a | None \<Rightarrow> fst bound)
         in hio_bind (reply4 REP_GRANTED (only_v4 host) (snd bound)) (\<lambda>_.
            hio_bind (hio_net (sys_accept H)) (\<lambda>ev.
            case ev of
              Peer pconn praddr \<Rightarrow>
                hio_bind (reply4 REP_GRANTED (only_v4 (fst praddr)) (snd praddr)) (\<lambda>_. hio_ok (Splice (from_tcp pconn)))
            | AcceptFailed e \<Rightarrow> hio_err (HandlerIo e)
            | ControlRead \<Rightarrow> hio_bind (hio_io (\<lambda>c. (Inr (), snd (conn_await_read 1 c)))) (\<lambda>_. hio_ok Finished)))))"

definition socks4_handle_bind :: "('r, 'n, 't) host \<Rightarrow> ('r, 'n) handler_options \<Rightarrow> bool \<Rightarrow> string \<Rightarrow> service hio" where
  "socks4_handle_bind H ho is_socks4a target =
     (if \<not> allowed ho ''rtcp'' target then refuse4 Forbidden
      else if chain_is_empty (the_chain ho) then socks4_bind_on H target
      else
        let node = chain_last_node (ht_marker H) (the_chain ho)
        in hio_bind (hio_net (sys_connect H (dial_timeout ho) (nd_addr node))) (\<lambda>cc.
           case cc of
             None \<Rightarrow> refuse4 (HandlerProxy ''bind: chain dial timeout'')
           | Some (Inl e) \<Rightarrow> refuse4 (HandlerIo e)
           | Some (Inr s) \<Rightarrow>
               (case socks4_parse_address target of
                  Inl e \<Rightarrow> hio_err e
                | Inr (host, port) \<Rightarrow>
                    let req = [SOCKS4_VERSION, SOCKS4_BIND] @ u16_to_be port
                              @ (if is_socks4a then [0, 0, 0, 1] @ [0x00] @ as_bytes host @ [0x00]
                                 else v4_or_unspecified host @ [0x00])
                    in (case io_write HandlerIo req (from_tcp s) of
                          (Inl e, _) \<Rightarrow> hio_err e
                        | (Inr _, cc) \<Rightarrow> hio_ok (Splice cc)))))"

definition socks4_handle :: "('r, 'n, 't) host \<Rightarrow> ('r, 'n) handler_options \<Rightarrow> service hio" where
  "socks4_handle H ho =
     hio_bind (hio_io socks4_server_request) (\<lambda>(cmd, is_socks4a, target).
     if cmd = SOCKS4_CONNECT then socks4_handle_connect H ho target
     else if cmd = SOCKS4_BIND then socks4_handle_bind H ho is_socks4a target
     else refuse4 (HandlerProxy (''unsupported SOCKS4 command: '' @ show_nat (unat cmd))))"

section \<open>Picking the protocol\<close>

text \<open>\<^verbatim>\<open>AutoHandler::handle\<close>; \<open>http\<close> is the HTTP handler.\<close>

definition auto_handle :: "('r, 'n, 't) host \<Rightarrow> (('r, 'n) handler_options \<Rightarrow> service hio) \<Rightarrow> ('r, 'n) handler_options \<Rightarrow> service hio" where
  "auto_handle H http ho =
     hio_bind (hio_io (io_peek HandlerIo 1)) (\<lambda>bs.
     if bs = [] then hio_err (HandlerIo (IoError UnexpectedEof ''connection closed''))
     else if bs ! 0 = 0x05 then socks5_handle H ho
     else if bs ! 0 = 0x04 then (if requires_auth ho then hio_err AuthFailed else socks4_handle H ho)
     else http ho)"

section \<open>A hop of a chain and this server\<close>

lemma runs_read_until_nul:
  assumes "conn_at l (xs @ 0 # rest) out c" "0 \<notin> set xs" "\<And>c'. conn_at l rest out c' \<Longrightarrow> Q (Inr (acc @ xs)) c'"
  shows "runs (read_until_nul acc) c Q"
  using assms
proof (induction xs arbitrary: acc c)
  case Nil
  then have "runs (io_read HandlerIo 1) c (\<lambda>r c'. r = Inr [0] \<and> conn_at l rest out c')"
    by - (erule runs_read_step; simp)
  then show ?case using Nil(3) by (auto simp: runs_def io_read_def read_until_nul.simps [of acc c] split: prod.splits sum.splits)
next
  case (Cons x xs)
  then have "runs (io_read HandlerIo 1) c (\<lambda>r c'. r = Inr [x] \<and> conn_at l (xs @ 0 # rest) out c')"
    by - (erule runs_read_step; simp)
  then obtain c1 where c1: "conn_read_exact 1 c = (Inr [x], c1)" "conn_at l (xs @ 0 # rest) out c1"
    by (auto simp: runs_def io_read_def split: prod.splits sum.splits)
  have "runs (read_until_nul (acc @ [x])) c1 Q" by (rule Cons.IH [OF c1(2)]) (use Cons.prems in auto)
  then show ?case using c1(1) Cons.prems(2) by (simp add: runs_def read_until_nul.simps [of acc c])
qed

text \<open>Hosts a SOCKS4(a) request can name: addresses that are not taken for the marker of a domain
  name, and names without a zero byte; and the target the server makes of them.\<close>

definition socks4_host_ok :: "string \<Rightarrow> bool" where
  "socks4_host_ok h \<longleftrightarrow>
     (case parse_v4 h of
        Some (a, b, c, d) \<Rightarrow> \<not> socks4_domain_marker [a, b, c, d]
      | None \<Rightarrow> 0 \<notin> set (as_bytes h) \<and> utf8_valid h)"

definition socks4_target :: "string \<Rightarrow> u16 \<Rightarrow> string" where
  "socks4_target h p =
     (case parse_v4 h of Some (a, b, c, d) \<Rightarrow> show_v4 a b c d | None \<Rightarrow> h) @ '':'' @ show_nat (unat p)"

definition userid_ok :: "credentials \<Rightarrow> bool" where
  "userid_ok user = (case user of Some (name, _) \<Rightarrow> 0 \<notin> set (as_bytes name) | None \<Rightarrow> True)"

lemma runs_socks4_request:
  assumes "conn_at l (req @ rest) out c" "socks4_request user d h p = Inr req" "userid_ok user" "socks4_host_ok h"
    "\<And>is4a c'. conn_at l rest out c' \<Longrightarrow> Q (Inr (SOCKS4_CONNECT, is4a, socks4_target h p)) c'"
  shows "runs socks4_server_request c Q"
proof -
  obtain uid where uid: "(case user of Some (name, _) \<Rightarrow> as_bytes name | None \<Rightarrow> []) = uid" "0 \<notin> set uid"
    using assms(3) by (auto simp: userid_ok_def split: option.splits)
  show ?thesis
  proof (cases "parse_v4 h")
    case (Some q)
    obtain a b e f where q: "q = (a, b, e, f)" by (cases q)
    have m: "\<not> socks4_domain_marker [a, b, e, f]" using assms(4) Some q by (simp add: socks4_host_ok_def)
    have "conn_at l (4 # 1 # u16_to_be p @ a # b # e # f # uid @ 0 # rest) out c"
      using assms(1,2) Some q uid(1) by (auto simp: socks4_request_def Let_def)
    moreover have "\<And>c'. conn_at l rest out c' \<Longrightarrow> Q (Inr (1, False, show_v4 a b e f @ CHR '':'' # show_nat (unat p))) c'"
      using assms(5) [of _ False] by (simp add: socks4_consts socks4_target_def Some q)
    ultimately show ?thesis unfolding socks4_server_request_def u16_to_be_def
      by - (rule run_intros | erule runs_read_step | erule runs_read_until_nul [OF _ uid(2)] | simp add: socks4_consts m)+
  next
    case None
    have h: "0 \<notin> set (as_bytes h)" "utf8_valid h" using assms(4) None by (simp_all add: socks4_host_ok_def)
    have m: "socks4_domain_marker [0, 0, 0, 1]" by (simp add: socks4_domain_marker_def)
    have "conn_at l (4 # 1 # u16_to_be p @ 0 # 0 # 0 # 1 # uid @ 0 # as_bytes h @ 0 # rest) out c"
      using assms(1,2) None uid(1) by (auto simp: socks4_request_def Let_def split: if_splits)
    moreover have "\<And>c'. conn_at l rest out c' \<Longrightarrow> Q (Inr (1, True, h @ CHR '':'' # show_nat (unat p))) c'"
      using assms(5) [of _ True] by (simp add: socks4_consts socks4_target_def None)
    ultimately show ?thesis unfolding socks4_server_request_def u16_to_be_def
      by - (rule run_intros | erule runs_read_step | erule runs_read_until_nul [OF _ uid(2)] runs_read_until_nul [OF _ h(1)]
          | simp add: socks4_consts m from_utf8_lossy_as_bytes h(2))+
  qed
qed

lemma socks4_granted: "[0x00, REP_GRANTED] @ u16_to_be 0 @ v4_or_unspecified ''0.0.0.0'' = [0, 0x5A, 0, 0, 0, 0, 0, 0]"
proof -
  have "show_v4 0 0 0 0 = ''0.0.0.0''" by (simp add: show_v4_def show_nat.simps digit_char_def)
  then have "parse_v4 ''0.0.0.0'' = Some (0, 0, 0, 0)" using parse_v4_show [of 0 0 0 0] by simp
  then show ?thesis by (simp add: v4_or_unspecified_def octets4_def u16_to_be_def REP_GRANTED_def)
qed

lemma hruns_socks4_connect:
  assumes "conn_at l ys out c" "allowed ho ''tcp'' t" "\<not> bypassed (ht_libs H) ho t"
    "dial_target H ho t w = (Inr cc, w')"
    "\<And>c'. conn_at l ys (out @ [0, 0x5A, 0, 0, 0, 0, 0, 0]) c' \<Longrightarrow> Q (Inr (Splice cc)) c' w'"
  shows "hruns (socks4_handle_connect H ho t) c w Q"
  using assms(1) unfolding socks4_handle_connect_def socks4_reply_def socks4_granted
  by - (rule hrun_intros | erule runs_write | simp add: assms(2-5) assms(5) [simplified])+

section \<open>Properties\<close>

text \<open>C28. A SOCKS4 or SOCKS4a hop of a chain and this server understand each other: whatever target
  the client may ask for, the server reads exactly that target (an address in canonical
  form), dials it once, grants it in the form the client expects, and splices the connections
  at the first byte after the request.\<close>

theorem socks4_hop_agrees:
  assumes "nd_protocol n = (if d then ''socks4a'' else ''socks4'')" "chain_split_host_port target = Inr (h, p)"
    and "socks4_request (nd_user n) d h p = Inr req" "userid_ok (nd_user n)" "socks4_host_ok h"
    and "allowed ho ''tcp'' (socks4_target h p)" "\<not> bypassed (ht_libs H) ho (socks4_target h p)"
    and "dial_target H ho (socks4_target h p) w = (Inr cc, w')" "conn_at l (req @ rest) [] c"
  shows "hop_dialogue b64 n target req [0, 0x5A, 0, 0, 0, 0, 0, 0] \<and>
    (\<exists>c'. socks4_handle H ho c w = (Inr (Splice cc), c', w') \<and> conn_at l rest [0, 0x5A, 0, 0, 0, 0, 0, 0] c')"
proof
  show "hop_dialogue b64 n target req [0, 0x5A, 0, 0, 0, 0, 0, 0]"
    by (rule hop_dialogue.socks4 [OF assms(1-3)]) simp_all
  have "hruns (socks4_handle H ho) c w (\<lambda>r c' w''. r = Inr (Splice cc) \<and> w'' = w' \<and> conn_at l rest [0, 0x5A, 0, 0, 0, 0, 0, 0] c')"
    using assms(9) unfolding socks4_handle_def
    by - (rule hrun_intros | erule runs_socks4_request [OF _ assms(3-5)] | erule hruns_socks4_connect [OF _ assms(6-8)] | simp)+
  then show "\<exists>c'. socks4_handle H ho c w = (Inr (Splice cc), c', w') \<and> conn_at l rest [0, 0x5A, 0, 0, 0, 0, 0, 0] c'"
    by (auto simp: hruns_def split: prod.splits)
qed

definition demo_hop4 :: node where
  "demo_hop4 = demo_node ''socks4a'' ''p:1080''"

definition demo_request4 :: bytes where
  "demo_request4 = [4, 1, 1, 187, 0, 0, 0, 1, 0] @ as_bytes ''example.org'' @ [0]"

theorem socks4_hop_agrees_witness:
  "\<exists>c'. socks4_handle demo_host demo_options (demo_conn (demo_request4 @ [9])) demo_world =
     (Inr (Splice (from_tcp (demo_tcp []))), c', logged (TcpConnect ''example.org:443'') demo_world) \<and>
     conn_at None [9] [0, 0x5A, 0, 0, 0, 0, 0, 0] c'"
proof -
  have v4: "parse_v4 ''example.org'' = None"
    using not_address [of "CHR ''x''" "''example.org''"] by (simp add: addr_char_def to_digit_def)
  have t: "socks4_target ''example.org'' 443 = ''example.org:443''"
    by (simp add: socks4_target_def v4 show_nat.simps digit_char_def)
  have r: "socks4_request (nd_user demo_hop4) True ''example.org'' 443 = Inr demo_request4"
    by (simp add: socks4_request_def v4 demo_hop4_def demo_node_def node_default_def demo_request4_def u16_to_be_def)
  have ok: "userid_ok (nd_user demo_hop4)" "socks4_host_ok ''example.org''"
    by (simp_all add: userid_ok_def socks4_host_ok_def v4 demo_hop4_def demo_node_def node_default_def as_bytes_def byte_of_def byte_in_def)
  have pr: "nd_protocol demo_hop4 = (if True then ''socks4a'' else ''socks4'')" by (simp add: demo_hop4_def demo_node_def)
  show ?thesis
    by (rule conjunct2 [OF socks4_hop_agrees [OF pr demo_target(1) r ok _ _ _ demo_conn_at, of demo_options demo_host, unfolded t]])
      (simp_all add: demo_dial demo_allowed)
qed

end
