(* ===== verification/DnsWire.thy ===== *)
theory DnsWire
  imports NetAddr
begin

unbundle bit_operations_syntax

text \<open>
  DNS messages (\<^verbatim>\<open>src/src/resolver.rs\<close>): names with compression pointers, questions, records, the message
  codec, and the EDNS0 client-subnet option. Offsets into the message are natural numbers;
  an index past its end is an error value exactly where the code checks it.
\<close>

section \<open>Constants and small helpers\<close>

definition CLASS_IN :: u16 where "CLASS_IN = 1"
definition CLASS_CH :: u16 where "CLASS_CH = 3"
definition CLASS_HS :: u16 where "CLASS_HS = 4"
definition CLASS_ANY :: u16 where "CLASS_ANY = 255"
definition TYPE_A :: u16 where "TYPE_A = 1"
definition TYPE_NS :: u16 where "TYPE_NS = 2"
definition TYPE_CNAME :: u16 where "TYPE_CNAME = 5"
definition TYPE_SOA :: u16 where "TYPE_SOA = 6"
definition TYPE_PTR :: u16 where "TYPE_PTR = 12"
definition TYPE_MX :: u16 where "TYPE_MX = 15"
definition TYPE_TXT :: u16 where "TYPE_TXT = 16"
definition TYPE_AAAA :: u16 where "TYPE_AAAA = 28"
definition TYPE_SRV :: u16 where "TYPE_SRV = 33"
definition TYPE_OPT :: u16 where "TYPE_OPT = 41"
definition TYPE_ANY :: u16 where "TYPE_ANY = 255"
definition EDNS0_SUBNET :: u16 where "EDNS0_SUBNET = 8"
definition FLAG_RD :: u16 where "FLAG_RD = 0x0100"
definition FLAG_QR :: u16 where "FLAG_QR = 0x8000"

definition wire_err :: "string \<Rightarrow> io_error" where
  "wire_err msg = IoError InvalidData msg"

definition class_name :: "u16 \<Rightarrow> string" where
  "class_name c =
     (if c = CLASS_IN then ''IN'' else if c = CLASS_CH then ''CH'' else if c = CLASS_HS then ''HS''
      else if c = CLASS_ANY then ''ANY'' else ''CLASS'' @ show_nat (unat c))"

definition type_name :: "u16 \<Rightarrow> string" where
  "type_name t =
     (if t = TYPE_A then ''A'' else if t = TYPE_NS then ''NS'' else if t = TYPE_CNAME then ''CNAME''
      else if t = TYPE_SOA then ''SOA'' else if t = TYPE_PTR then ''PTR'' else if t = TYPE_MX then ''MX''
      else if t = TYPE_TXT then ''TXT'' else if t = TYPE_AAAA then ''AAAA'' else if t = TYPE_SRV then ''SRV''
      else if t = TYPE_OPT then ''OPT'' else if t = TYPE_ANY then ''ANY'' else ''TYPE'' @ show_nat (unat t))"

definition fqdn :: "string \<Rightarrow> string" where
  "fqdn name = (if name \<noteq> [] \<and> last name = CHR ''.'' then name else name @ ''.'')"

definition u32_to_be :: "u32 \<Rightarrow> bytes" where
  "u32_to_be w = rev (u32_to_le w)"

definition be16 :: "bytes \<Rightarrow> nat \<Rightarrow> io_error + u16" where
  "be16 buf pos =
     (if pos + 2 > length buf then Inl (wire_err ''short read (u16)'')
      else Inr (u16_from_be (buf ! pos) (buf ! (pos + 1))))"

definition be32 :: "bytes \<Rightarrow> nat \<Rightarrow> io_error + u32" where
  "be32 buf pos =
     (if pos + 4 > length buf then Inl (wire_err ''short read (u32)'')
      else Inr (u32_from_le (buf ! (pos + 3)) (buf ! (pos + 2)) (buf ! (pos + 1)) (buf ! pos)))"

text \<open>\<^verbatim>\<open>?\<close> on a result.\<close>

definition ebind :: "'e + 'a \<Rightarrow> ('a \<Rightarrow> 'e + 'b) \<Rightarrow> 'e + 'b" where
  "ebind r f = (case r of Inl e \<Rightarrow> Inl e | Inr a \<Rightarrow> f a)"

lemma ebind_simps [simp]: "ebind (Inl e) f = Inl e" "ebind (Inr a) f = f a"
  by (simp_all add: ebind_def)

lemma ebind_Inr: "ebind r f = Inr b \<longleftrightarrow> (\<exists>a. r = Inr a \<and> f a = Inr b)"
  by (cases r) auto

section \<open>Names\<close>

fun encode_labels :: "string list \<Rightarrow> io_error + bytes" where
  "encode_labels [] = Inr [0]"
| "encode_labels (label # labels) =
     (if label = [] then encode_labels labels
      else if length label > 63 then Inl (wire_err (''label too long: '' @ label))
      else ebind (encode_labels labels) (\<lambda>rest. Inr (word_of_nat (length label) # as_bytes label @ rest)))"

definition encode_name :: "string \<Rightarrow> io_error + bytes" where
  "encode_name name = encode_labels (split_char CHR ''.'' name)"

text \<open>
  The loop of \<^verbatim>\<open>decode_name\<close>; the budget is the number of rounds left. The two parts of a pointer
  do not overlap, so that the shift and the disjunction are a sum.
\<close>

fun decode_name_loop :: "bytes \<Rightarrow> nat \<Rightarrow> nat \<Rightarrow> nat \<Rightarrow> bool \<Rightarrow> string \<Rightarrow> io_error + (string \<times> nat)" where
  "decode_name_loop buf 0 pos end_pos jumped name = Inl (wire_err ''compression pointer loop'')"
| "decode_name_loop buf (Suc budget) pos end_pos jumped name =
     (if pos \<ge> length buf then Inl (wire_err ''truncated name'')
      else
        let b = buf ! pos; len = unat b
        in if len = 0 then Inr (if name = [] then ''.'' else name, if jumped then end_pos else pos + 1)
           else if b AND 0xC0 = 0
           then (if pos + 1 + len > length buf then Inl (wire_err ''truncated label'')
                 else decode_name_loop buf budget (pos + 1 + len) end_pos jumped
                        (name @ from_utf8_lossy (take len (drop (pos + 1) buf)) @ ''.''))
           else if b AND 0xC0 = 0xC0
           then (if pos + 2 > length buf then Inl (wire_err ''truncated compression pointer'')
                 else
                   let ptr = unat (b AND 0x3F) * 256 + unat (buf ! (pos + 1));
                       end_pos = (if jumped then end_pos else pos + 2)
                   in if ptr \<ge> length buf then Inl (wire_err ''compression pointer out of range'')
                      else decode_name_loop buf budget ptr end_pos True name)
           else Inl (wire_err ''reserved label type''))"

definition decode_name :: "bytes \<Rightarrow> nat \<Rightarrow> io_error + (string \<times> nat)" where
  "decode_name buf start = decode_name_loop buf (length buf + 1) start start False []"

section \<open>Messages\<close>

record question =
  qu_name :: string
  qu_type :: u16
  qu_class :: u16

definition question_new :: "string \<Rightarrow> u16 \<Rightarrow> question" where
  "question_new name qtype = \<lparr>qu_name = fqdn name, qu_type = qtype, qu_class = CLASS_IN\<rparr>"

record rr =
  rr_name :: string
  rr_type :: u16
  rr_class :: u16
  rr_ttl :: u32
  rr_rdata :: bytes

definition as_a :: "rr \<Rightarrow> ip_addr option" where
  "as_a r =
     (if rr_type r \<noteq> TYPE_A \<or> length (rr_rdata r) \<noteq> 4 then None
      else Some (V4 (rr_rdata r ! 0) (rr_rdata r ! 1) (rr_rdata r ! 2) (rr_rdata r ! 3)))"

definition as_aaaa :: "rr \<Rightarrow> ip_addr option" where
  "as_aaaa r =
     (if rr_type r \<noteq> TYPE_AAAA \<or> length (rr_rdata r) \<noteq> 16 then None else Some (V6 (v6_of_octets (rr_rdata r))))"

record message =
  me_id :: u16
  me_flags :: u16
  me_questions :: "question list"
  me_answers :: "rr list"
  me_authorities :: "rr list"
  me_additionals :: "rr list"

definition message_query :: "u16 \<Rightarrow> string \<Rightarrow> u16 \<Rightarrow> message" where
  "message_query i name qtype =
     \<lparr>me_id = i, me_flags = FLAG_RD, me_questions = [question_new name qtype],
      me_answers = [], me_authorities = [], me_additionals = []\<rparr>"

definition is_response :: "message \<Rightarrow> bool" where
  "is_response m \<longleftrightarrow> me_flags m AND FLAG_QR \<noteq> 0"

definition rcode :: "message \<Rightarrow> u16" where
  "rcode m = me_flags m AND 0x000F"

definition usize_as_be16 :: "nat \<Rightarrow> bytes" where
  "usize_as_be16 n = u16_to_be (word_of_nat n)"

definition encode_question :: "question \<Rightarrow> io_error + bytes" where
  "encode_question q =
     ebind (encode_name (qu_name q)) (\<lambda>n. Inr (n @ u16_to_be (qu_type q) @ u16_to_be (qu_class q)))"

definition encode_rr :: "rr \<Rightarrow> io_error + bytes" where
  "encode_rr r =
     ebind (encode_name (rr_name r)) (\<lambda>n.
     if length (rr_rdata r) > 65535 then Inl (wire_err ''rdata too long'')
     else Inr (n @ u16_to_be (rr_type r) @ u16_to_be (rr_class r) @ u32_to_be (rr_ttl r)
               @ usize_as_be16 (length (rr_rdata r)) @ rr_rdata r))"

fun encode_all :: "('a \<Rightarrow> io_error + bytes) \<Rightarrow> 'a list \<Rightarrow> io_error + bytes" where
  "encode_all f [] = Inr []"
| "encode_all f (x # xs) = ebind (f x) (\<lambda>a. ebind (encode_all f xs) (\<lambda>b. Inr (a @ b)))"

definition message_encode :: "message \<Rightarrow> io_error + bytes" where
  "message_encode m =
     ebind (encode_all encode_question (me_questions m)) (\<lambda>qs.
     ebind (encode_all encode_rr (me_answers m @ me_authorities m @ me_additionals m)) (\<lambda>rs.
     Inr (u16_to_be (me_id m) @ u16_to_be (me_flags m) @ usize_as_be16 (length (me_questions m))
          @ usize_as_be16 (length (me_answers m)) @ usize_as_be16 (length (me_authorities m))
          @ usize_as_be16 (length (me_additionals m)) @ qs @ rs)))"

fun decode_questions :: "bytes \<Rightarrow> nat \<Rightarrow> nat \<Rightarrow> io_error + (question list \<times> nat)" where
  "decode_questions buf 0 pos = Inr ([], pos)"
| "decode_questions buf (Suc n) pos =
     ebind (decode_name buf pos) (\<lambda>(name, pos).
     ebind (be16 buf pos) (\<lambda>qtype.
     ebind (be16 buf (pos + 2)) (\<lambda>qclass.
     ebind (decode_questions buf n (pos + 4)) (\<lambda>(qs, pos).
     Inr (\<lparr>qu_name = name, qu_type = qtype, qu_class = qclass\<rparr> # qs, pos)))))"

fun decode_section :: "bytes \<Rightarrow> nat \<Rightarrow> nat \<Rightarrow> io_error + (rr list \<times> nat)" where
  "decode_section buf 0 pos = Inr ([], pos)"
| "decode_section buf (Suc n) pos =
     ebind (decode_name buf pos) (\<lambda>(name, pos).
     ebind (be16 buf pos) (\<lambda>rtype.
     ebind (be16 buf (pos + 2)) (\<lambda>rclass.
     ebind (be32 buf (pos + 4)) (\<lambda>ttl.
     ebind (be16 buf (pos + 8)) (\<lambda>rdlen.
     let pos = pos + 10; rdlen = unat rdlen
     in if pos + rdlen > length buf then Inl (wire_err ''truncated rdata'')
        else ebind (decode_section buf n (pos + rdlen)) (\<lambda>(rs, pos').
          Inr (\<lparr>rr_name = name, rr_type = rtype, rr_class = rclass, rr_ttl = ttl,
                 rr_rdata = take rdlen (drop pos buf)\<rparr> # rs, pos')))))))"

definition message_decode :: "bytes \<Rightarrow> io_error + message" where
  "message_decode buf =
     (if length buf < 12 then Inl (wire_err ''message shorter than DNS header'')
      else
        ebind (be16 buf 0) (\<lambda>i.
        ebind (be16 buf 2) (\<lambda>flags.
        ebind (be16 buf 4) (\<lambda>qdcount.
        ebind (be16 buf 6) (\<lambda>ancount.
        ebind (be16 buf 8) (\<lambda>nscount.
        ebind (be16 buf 10) (\<lambda>arcount.
        ebind (decode_questions buf (unat qdcount) 12) (\<lambda>(questions, pos).
        ebind (decode_section buf (unat ancount) pos) (\<lambda>(answers, pos).
        ebind (decode_section buf (unat nscount) pos) (\<lambda>(authorities, pos).
        ebind (decode_section buf (unat arcount) pos) (\<lambda>(additionals, pos).
        Inr \<lparr>me_id = i, me_flags = flags, me_questions = questions, me_answers = answers,
             me_authorities = authorities, me_additionals = additionals\<rparr>)))))))))))"

definition edns0_udp_size :: "message \<Rightarrow> u16 option" where
  "edns0_udp_size m = map_option rr_class (find (\<lambda>r. rr_type r = TYPE_OPT) (me_additionals m))"

definition remove_opt :: "message \<Rightarrow> message" where
  "remove_opt m = m\<lparr>me_additionals := filter (\<lambda>r. rr_type r \<noteq> TYPE_OPT) (me_additionals m)\<rparr>"

fun option_list :: "'a option \<Rightarrow> 'a list" where
  "option_list None = []"
| "option_list (Some a) = [a]"

definition answer_ips :: "message \<Rightarrow> ip_addr list" where
  "answer_ips m = concat (map (\<lambda>r. option_list (as_aaaa r) @ option_list (as_a r)) (me_answers m))"

definition min_answer_ttl :: "message \<Rightarrow> u32 option" where
  "min_answer_ttl m = (case map rr_ttl (me_answers m) of [] \<Rightarrow> None | t # ts \<Rightarrow> Some (fold min ts t))"

definition set_msg_id :: "bytes \<Rightarrow> u16 \<Rightarrow> bytes" where
  "set_msg_id buf i = (if length buf \<ge> 2 then u16_to_be i @ drop 2 buf else buf)"

section \<open>Client subnet\<close>

definition edns0_subnet_opt :: "ip_addr \<Rightarrow> u16 \<Rightarrow> rr" where
  "edns0_subnet_opt src udp_size =
     (let (family, netmask, addr) =
            (case src of
               V4 a b c d \<Rightarrow> (1 :: u16, 32 :: u8, [a, b, c, d])
             | V6 gs \<Rightarrow> (2, 128, v6_octets gs));
          opt = u16_to_be family @ [netmask, 0] @ addr
      in \<lparr>rr_name = ''.'', rr_type = TYPE_OPT, rr_class = udp_size, rr_ttl = 0,
          rr_rdata = u16_to_be EDNS0_SUBNET @ usize_as_be16 (length opt) @ opt\<rparr>)"

function subnet_loop :: "bytes \<Rightarrow> nat \<Rightarrow> (u16 \<times> u8 \<times> bytes) option" where
  "subnet_loop rdata pos =
     (if pos + 4 \<le> length rdata
      then
        let code = u16_from_be (rdata ! pos) (rdata ! (pos + 1));
            len = unat (u16_from_be (rdata ! (pos + 2)) (rdata ! (pos + 3)));
            pos = pos + 4
        in if pos + len > length rdata then None
           else if code = EDNS0_SUBNET \<and> len \<ge> 4
           then Some (u16_from_be (rdata ! pos) (rdata ! (pos + 1)), rdata ! (pos + 2), take (len - 4) (drop (pos + 4) rdata))
           else subnet_loop rdata (pos + len)
      else None)"
  by pat_completeness auto
termination
  by (relation "measure (\<lambda>(rdata, pos). length rdata - pos)") auto

declare subnet_loop.simps [simp del]

definition parse_edns0_subnet :: "rr \<Rightarrow> (u16 \<times> u8 \<times> bytes) option" where
  "parse_edns0_subnet r = (if rr_type r \<noteq> TYPE_OPT then None else subnet_loop (rr_rdata r) 0)"

section \<open>Reading at an offset\<close>

lemma drop_advance: "drop pos buf = a @ rest \<Longrightarrow> drop (pos + length a) buf = rest"
  by (metis add.commute append_eq_conv_conj drop_drop)

lemma drop_length:
  assumes "drop pos buf = a @ rest" "a \<noteq> []"
  shows "pos + length a \<le> length buf"
  using arg_cong [OF assms(1), of length] assms(2) by (cases a) auto

lemma nth_drop_eq:
  assumes "drop pos buf = a @ rest" "i < length a"
  shows "buf ! (pos + i) = a ! i"
proof -
  have "pos + length a \<le> length buf" using drop_length [OF assms(1)] assms(2) by force
  then have "buf ! (pos + i) = drop pos buf ! i" by simp
  then show ?thesis using assms by (simp add: nth_append)
qed

lemma be16_at: "drop pos buf = u16_to_be x @ rest \<Longrightarrow> be16 buf pos = Inr x"
  using drop_length [of pos buf "u16_to_be x" rest] nth_drop_eq [of pos buf "u16_to_be x" rest 0]
    nth_drop_eq [of pos buf "u16_to_be x" rest 1]
  by (simp add: be16_def u16_to_be_def)

lemma be32_at: "drop pos buf = u32_to_be x @ rest \<Longrightarrow> be32 buf pos = Inr x"
  using drop_length [of pos buf "u32_to_be x" rest] nth_drop_eq [of pos buf "u32_to_be x" rest 0]
    nth_drop_eq [of pos buf "u32_to_be x" rest 1] nth_drop_eq [of pos buf "u32_to_be x" rest 2]
    nth_drop_eq [of pos buf "u32_to_be x" rest 3]
  by (simp add: be32_def u32_to_be_def u32_to_le_def)

section \<open>Names as labels\<close>

definition wire_label :: "string \<Rightarrow> bool" where
  "wire_label l \<longleftrightarrow> l \<noteq> [] \<and> length l \<le> 63 \<and> utf8_valid l"

definition label_ok :: "string \<Rightarrow> bool" where
  "label_ok l \<longleftrightarrow> wire_label l \<and> CHR ''.'' \<notin> set l"

lemma label_ok_wire: "list_all label_ok ls \<Longrightarrow> list_all wire_label ls"
  by (simp add: list_all_iff label_ok_def)

definition name_text :: "string list \<Rightarrow> string" where
  "name_text labels = concat (map (\<lambda>l. l @ ''.'') labels)"

definition full_name :: "string list \<Rightarrow> string" where
  "full_name labels = (if labels = [] then ''.'' else name_text labels)"

definition labels_bytes :: "string list \<Rightarrow> bytes" where
  "labels_bytes labels = concat (map (\<lambda>l. word_of_nat (length l) # as_bytes l) labels) @ [0]"

lemma labels_bytes_simps [simp]:
  "labels_bytes [] = [0]" "labels_bytes (l # ls) = word_of_nat (length l) # as_bytes l @ labels_bytes ls"
  by (simp_all add: labels_bytes_def)

lemma name_text_simps [simp]: "name_text [] = []" "name_text (l # ls) = l @ CHR ''.'' # name_text ls"
  by (simp_all add: name_text_def)

lemma split_name_text: "list_all label_ok ls \<Longrightarrow> split_char CHR ''.'' (name_text ls) = ls @ [[]]"
  by (induction ls) (auto simp: split_pred_append label_ok_def wire_label_def)

lemma encode_labels_ok: "list_all label_ok ls \<Longrightarrow> encode_labels (ls @ [[]]) = Inr (labels_bytes ls)"
  by (induction ls) (auto simp: label_ok_def wire_label_def)

lemma encode_full_name: "list_all label_ok ls \<Longrightarrow> encode_name (full_name ls) = Inr (labels_bytes ls)"
  by (auto simp: encode_name_def full_name_def split_name_text encode_labels_ok)

lemma label_length_byte:
  assumes "n \<le> 63"
  shows "unat (word_of_nat n :: u8) = n" "(word_of_nat n :: u8) AND 0xC0 = 0"
proof -
  show u: "unat (word_of_nat n :: u8) = n" using assms by (simp add: unat_of_nat take_bit_eq_mod)
  have "list_all (\<lambda>n. (word_of_nat n :: u8) AND 0xC0 = 0) [0..<64]" by code_simp
  then show "(word_of_nat n :: u8) AND 0xC0 = 0" using assms by (simp add: list_all_iff)
qed

lemma decode_labels:
  assumes "drop pos buf = labels_bytes ls @ rest" "list_all wire_label ls" "length ls < budget"
  shows "decode_name_loop buf budget pos end_pos False name =
    Inr (if name @ name_text ls = [] then ''.'' else name @ name_text ls, pos + length (labels_bytes ls))"
  using assms
proof (induction ls arbitrary: pos budget name)
  case Nil
  then obtain b where b: "budget = Suc b" by (cases budget) auto
  have "pos + 1 \<le> length buf" "buf ! pos = 0"
    using drop_length [of pos buf "[0]" rest] nth_drop_eq [of pos buf "[0]" rest 0] Nil by simp_all
  then show ?case using b by simp
next
  case (Cons l ls)
  then obtain b where b: "budget = Suc b" "length ls < b" by (cases budget) auto
  have l: "l \<noteq> []" "length l \<le> 63" "utf8_valid l" using Cons.prems(2) by (simp_all add: wire_label_def)
  let ?h = "word_of_nat (length l) # as_bytes l"
  have d: "drop pos buf = ?h @ labels_bytes ls @ rest" using Cons.prems(1) by simp
  have p: "pos + 1 + length l \<le> length buf" "buf ! pos = word_of_nat (length l)" "drop (pos + 1 + length l) buf = labels_bytes ls @ rest"
    using drop_length [OF d] nth_drop_eq [OF d, of 0] drop_advance [OF d] by simp_all
  have t: "take (length l) (drop (pos + 1) buf) = as_bytes l"
    using drop_advance [of pos buf "[word_of_nat (length l)]" "as_bytes l @ labels_bytes ls @ rest"] d by simp
  note w = label_length_byte [OF l(2)]
  have "decode_name_loop buf budget pos end_pos False name =
      decode_name_loop buf b (pos + 1 + length l) end_pos False (name @ l @ ''.'')"
    using p b(1) w l t by (simp add: from_utf8_lossy_as_bytes)
  also have "\<dots> = Inr (name @ l @ CHR ''.'' # name_text ls, pos + 1 + length l + length (labels_bytes ls))"
    using Cons.IH [OF p(3) _ b(2), of "name @ l @ ''.''"] Cons.prems(2) by simp
  finally show ?case by simp
qed

lemma decode_full_name:
  assumes "drop pos buf = labels_bytes ls @ rest" "list_all wire_label ls"
  shows "decode_name buf pos = Inr (full_name ls, pos + length (labels_bytes ls))"
proof -
  have "length ls < length (labels_bytes ls)" by (induction ls) auto
  moreover have "length (labels_bytes ls) \<le> length buf"
    using arg_cong [OF assms(1), of length] by simp
  ultimately show ?thesis using decode_labels [OF assms, of "length buf + 1" pos "[]"]
    by (cases ls) (simp_all add: decode_name_def full_name_def del: decode_name_loop.simps)
qed

section \<open>Encoding and decoding a message\<close>

definition name_ok :: "string \<Rightarrow> bool" where
  "name_ok name \<longleftrightarrow> (\<exists>ls. list_all label_ok ls \<and> name = full_name ls)"

definition question_ok :: "question \<Rightarrow> bool" where
  "question_ok q \<longleftrightarrow> name_ok (qu_name q)"

definition rr_ok :: "rr \<Rightarrow> bool" where
  "rr_ok r \<longleftrightarrow> name_ok (rr_name r) \<and> length (rr_rdata r) \<le> 65535"

definition message_ok :: "message \<Rightarrow> bool" where
  "message_ok m \<longleftrightarrow>
     list_all question_ok (me_questions m) \<and> length (me_questions m) \<le> 65535 \<and>
     list_all rr_ok (me_answers m) \<and> length (me_answers m) \<le> 65535 \<and>
     list_all rr_ok (me_authorities m) \<and> length (me_authorities m) \<le> 65535 \<and>
     list_all rr_ok (me_additionals m) \<and> length (me_additionals m) \<le> 65535"

lemma name_roundtrip:
  assumes "name_ok name"
  shows "\<exists>n. encode_name name = Inr n \<and>
    (\<forall>buf pos rest. drop pos buf = n @ rest \<longrightarrow> decode_name buf pos = Inr (name, pos + length n) \<and> drop (pos + length n) buf = rest)"
  using assms encode_full_name decode_full_name [OF _ label_ok_wire] drop_advance unfolding name_ok_def by blast

lemma usize_as_be16_at: "drop pos buf = usize_as_be16 n @ rest \<Longrightarrow> n \<le> 65535 \<Longrightarrow> be16 buf pos = Inr (word_of_nat n)"
  unfolding usize_as_be16_def by (rule be16_at)

lemma unat_u16: "n \<le> 65535 \<Longrightarrow> unat (word_of_nat n :: u16) = n"
  by (simp add: unat_of_nat take_bit_eq_mod)

lemma length_be [simp]: "length (u16_to_be x) = 2" "length (usize_as_be16 n) = 2" "length (u32_to_be y) = 4"
  by (simp_all add: u16_to_be_def usize_as_be16_def u32_to_be_def u32_to_le_def)

lemma drop_field: "drop pos buf = a @ b \<Longrightarrow> length a = n \<Longrightarrow> drop (pos + n) buf = b"
  using drop_advance by blast

lemma question_roundtrip:
  assumes "question_ok q"
  obtains b where "encode_question q = Inr b"
    "\<And>buf pos rest n. drop pos buf = b @ rest \<Longrightarrow> decode_questions buf (Suc n) pos =
       ebind (decode_questions buf n (pos + length b)) (\<lambda>(qs, p). Inr (q # qs, p))"
proof -
  obtain nb where nb: "encode_name (qu_name q) = Inr nb"
    "\<And>buf pos rest. drop pos buf = nb @ rest \<Longrightarrow> decode_name buf pos = Inr (qu_name q, pos + length nb)"
    using name_roundtrip assms unfolding question_ok_def by blast
  let ?b = "nb @ u16_to_be (qu_type q) @ u16_to_be (qu_class q)"
  show thesis
  proof (rule that)
    show "encode_question q = Inr ?b" by (simp add: encode_question_def nb(1))
    fix buf pos rest n
    assume d: "drop pos buf = ?b @ rest"
    then have d1: "drop (pos + length nb) buf = u16_to_be (qu_type q) @ u16_to_be (qu_class q) @ rest"
      by (simp add: drop_field)
    then have d2: "drop (pos + length nb + 2) buf = u16_to_be (qu_class q) @ rest" by (rule drop_field) simp
    show "decode_questions buf (Suc n) pos =
       ebind (decode_questions buf n (pos + length ?b)) (\<lambda>(qs, p). Inr (q # qs, p))"
      using nb(2) [of pos buf] d be16_at [OF d1] be16_at [OF d2] by (cases q) (simp add: add.assoc)
  qed
qed

lemma rr_roundtrip:
  assumes "rr_ok r"
  obtains b where "encode_rr r = Inr b"
    "\<And>buf pos rest n. drop pos buf = b @ rest \<Longrightarrow> decode_section buf (Suc n) pos =
       ebind (decode_section buf n (pos + length b)) (\<lambda>(rs, p). Inr (r # rs, p))"
proof -
  obtain nb where nb: "encode_name (rr_name r) = Inr nb"
    "\<And>buf pos rest. drop pos buf = nb @ rest \<Longrightarrow> decode_name buf pos = Inr (rr_name r, pos + length nb)"
    using name_roundtrip assms unfolding rr_ok_def by blast
  have l: "length (rr_rdata r) \<le> 65535" using assms by (simp add: rr_ok_def)
  let ?b = "nb @ u16_to_be (rr_type r) @ u16_to_be (rr_class r) @ u32_to_be (rr_ttl r)
               @ usize_as_be16 (length (rr_rdata r)) @ rr_rdata r"
  show thesis
  proof (rule that)
    show "encode_rr r = Inr ?b" using l by (simp add: encode_rr_def nb(1))
    fix buf pos rest n
    assume d: "drop pos buf = ?b @ rest"
    define p where "p = pos + length nb"
    have d1: "drop p buf = u16_to_be (rr_type r) @ u16_to_be (rr_class r) @ u32_to_be (rr_ttl r)
               @ usize_as_be16 (length (rr_rdata r)) @ rr_rdata r @ rest"
      using d unfolding p_def by (simp add: drop_field)
    then have d2: "drop (p + 2) buf = u16_to_be (rr_class r) @ u32_to_be (rr_ttl r)
               @ usize_as_be16 (length (rr_rdata r)) @ rr_rdata r @ rest" by (rule drop_field) simp
    then have d3: "drop (p + 4) buf = u32_to_be (rr_ttl r) @ usize_as_be16 (length (rr_rdata r)) @ rr_rdata r @ rest"
      using drop_field [OF d2, of 2] by (simp add: numeral_eq_Suc)
    then have d4: "drop (p + 8) buf = usize_as_be16 (length (rr_rdata r)) @ rr_rdata r @ rest"
      using drop_field [OF d3, of 4] by (simp add: add.assoc)
    then have d5: "drop (p + 10) buf = rr_rdata r @ rest"
      using drop_field [OF d4, of 2] by (simp add: add.commute)
    have e: "p + 10 + length (rr_rdata r) \<le> length buf"
      using arg_cong [OF d, of length] unfolding p_def by (cases "pos \<le> length buf") auto
    have n: "decode_name buf pos = Inr (rr_name r, p)" unfolding p_def using nb(2) [of pos buf] d by simp
    have rr: "\<lparr>rr_name = rr_name r, rr_type = rr_type r, rr_class = rr_class r, rr_ttl = rr_ttl r, rr_rdata = rr_rdata r\<rparr> = r"
      by (cases r) simp
    have b: "pos + length ?b = p + 10 + length (rr_rdata r)" by (simp add: p_def)
    show "decode_section buf (Suc n) pos =
       ebind (decode_section buf n (pos + length ?b)) (\<lambda>(rs, p). Inr (r # rs, p))"
      unfolding b decode_section.simps n ebind_simps prod.case be16_at [OF d1] be16_at [OF d2] be32_at [OF d3] usize_as_be16_at [OF d4 l]
      using d5 e by (simp add: unat_u16 l rr)
  qed
qed


lemma questions_roundtrip:
  assumes "list_all question_ok qs"
  shows "\<exists>b. encode_all encode_question qs = Inr b \<and>
    (\<forall>buf pos rest. drop pos buf = b @ rest \<longrightarrow> decode_questions buf (length qs) pos = Inr (qs, pos + length b))"
  using assms
proof (induction qs)
  case (Cons q qs)
  then obtain a b where a: "encode_question q = Inr a" "\<And>buf pos rest n. drop pos buf = a @ rest \<Longrightarrow> decode_questions buf (Suc n) pos =
       ebind (decode_questions buf n (pos + length a)) (\<lambda>(qs, p). Inr (q # qs, p))"
    and b: "encode_all encode_question qs = Inr b"
      "\<And>buf pos rest. drop pos buf = b @ rest \<Longrightarrow> decode_questions buf (length qs) pos = Inr (qs, pos + length b)"
    by (metis list.pred_inject(2) question_roundtrip)
  show ?case
    using a b(1) b(2) [OF drop_advance] by (intro exI [of _ "a @ b"]) (simp del: decode_questions.simps)
qed simp

lemma section_roundtrip:
  assumes "list_all rr_ok rs"
  shows "\<exists>b. encode_all encode_rr rs = Inr b \<and>
    (\<forall>buf pos rest. drop pos buf = b @ rest \<longrightarrow> decode_section buf (length rs) pos = Inr (rs, pos + length b))"
  using assms
proof (induction rs)
  case (Cons r rs)
  then obtain a b where a: "encode_rr r = Inr a" "\<And>buf pos rest n. drop pos buf = a @ rest \<Longrightarrow> decode_section buf (Suc n) pos =
       ebind (decode_section buf n (pos + length a)) (\<lambda>(rs, p). Inr (r # rs, p))"
    and b: "encode_all encode_rr rs = Inr b"
      "\<And>buf pos rest. drop pos buf = b @ rest \<Longrightarrow> decode_section buf (length rs) pos = Inr (rs, pos + length b)"
    by (metis list.pred_inject(2) rr_roundtrip)
  show ?case
    using a b(1) b(2) [OF drop_advance] by (intro exI [of _ "a @ b"]) (simp del: decode_section.simps)
qed simp

lemma encode_all_append:
  "encode_all f xs = Inr a \<Longrightarrow> encode_all f ys = Inr b \<Longrightarrow> encode_all f (xs @ ys) = Inr (a @ b)"
  by (induction xs arbitrary: a) (auto simp: ebind_Inr)

lemma message_roundtrip:
  assumes "message_ok m"
  shows "\<exists>bs. message_encode m = Inr bs \<and> message_decode bs = Inr m"
proof -
  note ok = assms [unfolded message_ok_def]
  obtain q where q: "encode_all encode_question (me_questions m) = Inr q"
    "\<And>buf pos rest. drop pos buf = q @ rest \<Longrightarrow> decode_questions buf (length (me_questions m)) pos = Inr (me_questions m, pos + length q)"
    using questions_roundtrip ok by blast
  obtain a where a: "encode_all encode_rr (me_answers m) = Inr a"
    "\<And>buf pos rest. drop pos buf = a @ rest \<Longrightarrow> decode_section buf (length (me_answers m)) pos = Inr (me_answers m, pos + length a)"
    using section_roundtrip ok by blast
  obtain b where b: "encode_all encode_rr (me_authorities m) = Inr b"
    "\<And>buf pos rest. drop pos buf = b @ rest \<Longrightarrow> decode_section buf (length (me_authorities m)) pos = Inr (me_authorities m, pos + length b)"
    using section_roundtrip ok by blast
  obtain c where c: "encode_all encode_rr (me_additionals m) = Inr c"
    "\<And>buf pos rest. drop pos buf = c @ rest \<Longrightarrow> decode_section buf (length (me_additionals m)) pos = Inr (me_additionals m, pos + length c)"
    using section_roundtrip ok by blast
  let ?h = "u16_to_be (me_id m) @ u16_to_be (me_flags m) @ usize_as_be16 (length (me_questions m))
          @ usize_as_be16 (length (me_answers m)) @ usize_as_be16 (length (me_authorities m))
          @ usize_as_be16 (length (me_additionals m))"
  let ?bs = "?h @ q @ a @ b @ c"
  have e: "message_encode m = Inr ?bs"
    by (simp add: message_encode_def q(1) encode_all_append [OF a(1) encode_all_append [OF b(1) c(1)]])
  have f: "be16 ?bs 0 = Inr (me_id m)" "be16 ?bs 2 = Inr (me_flags m)"
    "be16 ?bs 4 = Inr (word_of_nat (length (me_questions m)))" "be16 ?bs 6 = Inr (word_of_nat (length (me_answers m)))"
    "be16 ?bs 8 = Inr (word_of_nat (length (me_authorities m)))" "be16 ?bs 10 = Inr (word_of_nat (length (me_additionals m)))"
    by (rule be16_at; simp add: usize_as_be16_def u16_to_be_def)+
  have d: "drop 12 ?bs = q @ a @ b @ c @ []" "drop (12 + length q) ?bs = a @ b @ c @ []"
    "drop (12 + length q + length a) ?bs = b @ c @ []" "drop (12 + length q + length a + length b) ?bs = c @ []"
    by simp_all
  have "message_decode ?bs = Inr m"
    unfolding message_decode_def f ebind_simps unat_u16 [OF ok [THEN conjunct2, THEN conjunct1]]
    using q(2) [OF d(1)] a(2) [OF d(2)] b(2) [OF d(3)] c(2) [OF d(4)] ok by (cases m) (simp add: unat_u16)
  with e show ?thesis by blast
qed

section \<open>The loop budget\<close>

text \<open>One round of the name loop as far as positions go: an error, the end of the name, or the next position.\<close>

definition name_next :: "bytes \<Rightarrow> nat \<Rightarrow> nat option option" where
  "name_next buf pos =
     (if pos \<ge> length buf then None
      else let b = buf ! pos; len = unat b
           in if len = 0 then Some None
              else if b AND 0xC0 = 0 then (if pos + 1 + len > length buf then None else Some (Some (pos + 1 + len)))
              else if b AND 0xC0 = 0xC0
              then (if pos + 2 > length buf then None
                    else let ptr = unat (b AND 0x3F) * 256 + unat (buf ! (pos + 1))
                         in if ptr \<ge> length buf then None else Some (Some ptr))
              else None)"

text \<open>The name at \<open>pos\<close> takes exactly \<open>k\<close> rounds.\<close>

fun name_rounds :: "bytes \<Rightarrow> nat \<Rightarrow> nat \<Rightarrow> bool" where
  "name_rounds buf 0 pos = False"
| "name_rounds buf (Suc k) pos =
     (case name_next buf pos of None \<Rightarrow> False | Some None \<Rightarrow> k = 0 | Some (Some q) \<Rightarrow> name_rounds buf k q)"

lemma name_rounds_unique: "name_rounds buf k pos \<Longrightarrow> name_rounds buf j pos \<Longrightarrow> j = k"
proof (induction k arbitrary: pos j)
  case (Suc k)
  then show ?case by (cases j) (auto split: option.splits)
qed simp

lemma name_rounds_positions:
  "name_rounds buf k pos \<Longrightarrow> \<exists>S. S \<subseteq> {..<length buf} \<and> card S = k \<and> (\<forall>q\<in>S. \<exists>j\<le>k. name_rounds buf j q)"
proof (induction k arbitrary: pos)
  case (Suc k)
  have pos: "pos < length buf" using Suc.prems by (auto simp: name_next_def split: if_splits option.splits)
  have "\<exists>S. S \<subseteq> {..<length buf} \<and> card S = k \<and> (\<forall>q\<in>S. \<exists>j\<le>k. name_rounds buf j q)"
    using Suc by (cases "name_next buf pos") (auto split: option.splits)
  then obtain S where S: "S \<subseteq> {..<length buf}" "card S = k" "\<forall>q\<in>S. \<exists>j\<le>k. name_rounds buf j q" by blast
  have "pos \<notin> S" using S(3) name_rounds_unique [OF Suc.prems] by fastforce
  moreover have "finite S" using S(1) finite_subset by blast
  ultimately have "card (insert pos S) = Suc k" using S(2) by simp
  moreover have "\<forall>q\<in>insert pos S. \<exists>j\<le>Suc k. name_rounds buf j q" using S(3) Suc.prems le_SucI by blast
  ultimately show ?case using S(1) pos by (intro exI [of _ "insert pos S"]) simp
qed simp

lemma name_rounds_bound: "name_rounds buf k pos \<Longrightarrow> k \<le> length buf"
  using name_rounds_positions [of buf k pos] card_mono [of "{..<length buf}"] by fastforce

lemma loop_rounds: "decode_name_loop buf N pos e j name = Inr r \<Longrightarrow> \<exists>k\<le>N. name_rounds buf k pos"
proof (induction N arbitrary: pos e j name)
  case (Suc N)
  show ?case
  proof (cases "name_next buf pos")
    case None
    then show ?thesis using Suc.prems by (auto simp: name_next_def Let_def split: if_splits)
  next
    case (Some n)
    show ?thesis
    proof (cases n)
      case None
      then show ?thesis using Some by (intro exI [of _ "Suc 0"]) simp
    next
      case (Some q)
      then have "\<exists>e j name. decode_name_loop buf N q e j name = Inr r"
        using \<open>name_next buf pos = Some n\<close> Suc.prems by (auto simp: name_next_def Let_def split: if_splits)
      then obtain k where "k \<le> N" "name_rounds buf k q" using Suc.IH by blast
      then show ?thesis using Some \<open>name_next buf pos = Some n\<close> by (intro exI [of _ "Suc k"]) simp
    qed
  qed
qed simp

lemma loop_enough:
  "name_rounds buf k pos \<Longrightarrow> k \<le> M \<Longrightarrow> k \<le> N \<Longrightarrow> decode_name_loop buf M pos e j name = decode_name_loop buf N pos e j name"
proof (induction k arbitrary: pos e j name M N)
  case (Suc k)
  obtain M' N' where MN: "M = Suc M'" "N = Suc N'" "k \<le> M'" "k \<le> N'" using Suc.prems by (cases M; cases N) auto
  have ih: "\<And>e j name. name_next buf pos = Some (Some q) \<Longrightarrow> decode_name_loop buf M' q e j name = decode_name_loop buf N' q e j name" for q
    using Suc.IH [OF _ MN(3,4), of q] Suc.prems by simp
  show ?case using ih Suc.prems(1) unfolding MN
    by (cases "name_next buf pos"; cases "the (name_next buf pos)") (auto simp: name_next_def Let_def split: if_splits)
qed simp

lemma decode_name_unbounded: "(\<exists>N. decode_name_loop buf N start start False [] = Inr r) \<longleftrightarrow> decode_name buf start = Inr r"
proof
  assume "\<exists>N. decode_name_loop buf N start start False [] = Inr r"
  then obtain N k where N: "decode_name_loop buf N start start False [] = Inr r" and k: "k \<le> N" "name_rounds buf k start"
    using loop_rounds by blast
  then show "decode_name buf start = Inr r"
    using loop_enough [OF k(2) k(1), of "length buf + 1"] name_rounds_bound [OF k(2)] by (simp add: decode_name_def)
qed (use decode_name_def in metis)

lemma loop_end:
  assumes "decode_name_loop buf N pos e j name = Inr (nm, e')" "name = [] \<or> last name = CHR ''.''"
  shows "nm \<noteq> [] \<and> last nm = CHR ''.'' \<and> (if j then e' = e else pos < e' \<and> e' \<le> length buf)"
  using assms
proof (induction N arbitrary: pos e j name)
  case (Suc N)
  note ih = Suc.IH
  from Suc.prems show ?case
    by (auto simp: Let_def split: if_splits dest!: ih)
qed simp

lemma decode_name_end:
  "decode_name buf start = Inr (name, e) \<Longrightarrow> name \<noteq> [] \<and> last name = CHR ''.'' \<and> start < e \<and> e \<le> length buf"
  unfolding decode_name_def by (drule loop_end) simp_all

lemma subnet_roundtrip:
  assumes "ip_ok src"
  shows "parse_edns0_subnet (edns0_subnet_opt src udp_size) =
     Some (case src of V4 a b c d \<Rightarrow> (1, 32, [a, b, c, d]) | V6 gs \<Rightarrow> (2, 128, v6_octets gs))"
  using assms
  by (cases src) (simp_all add: ip_ok_def edns0_subnet_opt_def parse_edns0_subnet_def subnet_loop.simps usize_as_be16_def
      u16_to_be_def EDNS0_SUBNET_def u16_from_be_def u16_from_le_def TYPE_OPT_def)

section \<open>Properties of the wire format\<close>

text \<open>C20. Every message whose names consist of labels of 1 to 63 bytes, whose record data fit 16 bits and
  whose sections have fewer than 65536 entries is encoded, and decoding the bytes gives the
  message back.\<close>

theorem dns_message_roundtrip:
  assumes "message_ok m"
  shows "\<exists>bs. message_encode m = Inr bs \<and> message_decode bs = Inr m"
  by (rule message_roundtrip [OF assms])

lemma demo_query_ok: "message_ok (message_query 7 ''example.com'' TYPE_A)"
proof -
  have u: "utf8_valid ''example''" "utf8_valid ''com''" by (rule ascii_utf8, code_simp)+
  have "list_all label_ok [''example'', ''com'']" by (simp add: label_ok_def wire_label_def u del: utf8_valid.simps)
  moreover have "fqdn ''example.com'' = full_name [''example'', ''com'']" by (simp add: fqdn_def full_name_def)
  ultimately have "name_ok (fqdn ''example.com'')" unfolding name_ok_def by blast
  then show ?thesis by (simp add: message_ok_def message_query_def question_ok_def question_new_def)
qed

theorem dns_message_roundtrip_witness:
  "message_ok (message_query 7 ''example.com'' TYPE_A) \<and>
   (\<exists>bs. message_encode (message_query 7 ''example.com'' TYPE_A) = Inr bs \<and>
         message_decode bs = Inr (message_query 7 ''example.com'' TYPE_A))"
  using demo_query_ok dns_message_roundtrip [OF demo_query_ok] by blast

text \<open>C21. The round budget of the name decoder only ever stops pointer loops: a name that decodes with any
  number of rounds decodes, to the same result, within the budget of the code. A decoded name
  ends with a dot and lies within the message.\<close>

theorem decode_name_budget:
  "((\<exists>N. decode_name_loop buf N start start False [] = Inr r) \<longleftrightarrow> decode_name buf start = Inr r) \<and>
   (case decode_name buf start of
      Inl _ \<Rightarrow> True
    | Inr (name, e) \<Rightarrow> last name = CHR ''.'' \<and> start < e \<and> e \<le> length buf)"
  using decode_name_unbounded [of buf start r] decode_name_end [of buf start] by (auto split: sum.splits)

end
