(* ===== verification/DnsExchange.thy ===== *)
theory DnsExchange
  imports DnsWire Chain
begin

text \<open>
  Asking one name server (\<^verbatim>\<open>src/src/resolver.rs\<close>): the specification of a name server, and an exchange
  over UDP, TCP, TLS or HTTPS, the last three directly or through a proxy chain. The URL
  and HTTP parsers are those of external crates and parameters, as is TLS.
\<close>

section \<open>Name servers\<close>

definition DEFAULT_UDP_SIZE :: u16 where "DEFAULT_UDP_SIZE = 1232"

definition to_ascii_lower_char :: "char \<Rightarrow> char" where
  "to_ascii_lower_char c =
     (let n = (of_char c :: nat) in if 65 \<le> n \<and> n \<le> 90 then char_of (n + 32) else c)"

definition to_ascii_lowercase :: "string \<Rightarrow> string" where
  "to_ascii_lowercase s = map to_ascii_lower_char s"

definition strip_suffix :: "string \<Rightarrow> string \<Rightarrow> string option" where
  "strip_suffix suf s = (if suffix suf s then Some (take (length s - length suf) s) else None)"

datatype ns_protocol = NsUdp | NsTcp | NsTls | NsHttps

definition ns_protocol_parse :: "string \<Rightarrow> ns_protocol \<times> bool" where
  "ns_protocol_parse s =
     (let lower = to_ascii_lowercase s;
          (base, chained) = (case strip_suffix ''-chain'' lower of Some b \<Rightarrow> (b, True) | None \<Rightarrow> (lower, False));
          proto = (if base = ''tcp'' then NsTcp else if base = ''tls'' then NsTls
                   else if base = ''https'' then NsHttps else NsUdp)
      in (proto, chained))"

record name_server =
  ns_addr :: string
  ns_protocol :: string
  ns_hostname :: string

definition name_server_new :: "string \<Rightarrow> name_server" where
  "name_server_new addr = \<lparr>ns_addr = addr, ns_protocol = [], ns_hostname = []\<rparr>"

definition with_protocol :: "name_server \<Rightarrow> string \<Rightarrow> name_server" where
  "with_protocol ns p = ns\<lparr>ns_protocol := p\<rparr>"

definition with_hostname :: "name_server \<Rightarrow> string \<Rightarrow> name_server" where
  "with_hostname ns h = ns\<lparr>ns_hostname := h\<rparr>"

definition protocol_kind :: "name_server \<Rightarrow> ns_protocol \<times> bool" where
  "protocol_kind ns = ns_protocol_parse (ns_protocol ns)"

definition count_char :: "char \<Rightarrow> string \<Rightarrow> nat" where
  "count_char c s = length (filter (\<lambda>x. x = c) s)"

definition ensure_port :: "string \<Rightarrow> string \<Rightarrow> string" where
  "ensure_port addr default_port =
     (if addr = [] then addr
      else if prefix ''['' addr
      then (case str_find '']:'' addr of Some _ \<Rightarrow> addr | None \<Rightarrow> addr @ '':'' @ default_port)
      else if count_char CHR '':'' addr = 0 then addr @ '':'' @ default_port
      else if count_char CHR '':'' addr = 1 then addr
      else ''['' @ addr @ '']:'' @ default_port)"

definition dial_addr :: "name_server \<Rightarrow> string" where
  "dial_addr ns = ensure_port (ns_addr ns) ''53''"

definition show_name_server :: "name_server \<Rightarrow> string" where
  "show_name_server ns =
     (let prot = (if ns_protocol ns = [] then ''udp'' else ns_protocol ns) in ns_addr ns @ ''/'' @ prot)"

definition dns_host_of :: "string \<Rightarrow> string" where
  "dns_host_of addr =
     (let other = (case rfind_char CHR '':'' addr of
                     Some i \<Rightarrow> if CHR '':'' \<notin> set (take i addr) then take i addr else addr
                   | None \<Rightarrow> addr)
      in case strip_prefix_char CHR ''['' addr of
           Some rest \<Rightarrow> (case find_char CHR '']'' rest of Some e \<Rightarrow> take e rest | None \<Rightarrow> other)
         | None \<Rightarrow> other)"

section \<open>The outside\<close>

text \<open>
  What the operating system and the external crates answer: a UDP exchange (binding,
  connecting, sending and the first datagram, \<open>None\<close> when none comes in time), whether a block
  under \<^verbatim>\<open>tokio::time::timeout\<close> ends in time, the TLS connectors, parsed URLs and HTTP responses.
\<close>

record url =
  ur_host :: "string option"
  ur_scheme :: string
  ur_port :: "u16 option"
  ur_path :: string
  ur_query :: "string option"

record 'r dns_net =
  dn_net :: "'r net"
  dn_udp :: "nat \<Rightarrow> string \<Rightarrow> string \<Rightarrow> bytes \<Rightarrow> nat \<Rightarrow> (io_error + bytes) option"
  dn_intime :: "nat \<Rightarrow> bool"
  dn_connector :: "nat \<Rightarrow> bool \<Rightarrow> string + unit"
  dn_tls :: "nat \<Rightarrow> bool \<Rightarrow> string \<Rightarrow> proxy_conn \<Rightarrow> string + wire"
  dn_url :: "string \<Rightarrow> string + url"
  dn_http :: "bytes \<Rightarrow> string + (nat option \<times> (string \<times> bytes) list)"

definition io_other :: "string \<Rightarrow> io_error" where
  "io_other msg = IoError Other msg"

definition timed :: "'r dns_net \<Rightarrow> string \<Rightarrow> world \<Rightarrow> io_error + 'a \<Rightarrow> io_error + 'a" where
  "timed D msg w r = (if dn_intime D (wd_tick w) then r else Inl (IoError TimedOut msg))"

section \<open>Exchanges\<close>

definition dial_tcp_via ::
    "'r dns_net \<Rightarrow> string \<Rightarrow> nat \<Rightarrow> 'r chain option \<Rightarrow> world \<Rightarrow> (io_error + proxy_conn) \<times> world" where
  "dial_tcp_via D addr timeout chain w =
     (let direct =
        ((case nt_connect (dn_net D) (wd_tick w) timeout addr of
            None \<Rightarrow> Inl (IoError TimedOut ''dns dial timeout'')
          | Some (Inl e) \<Rightarrow> Inl e
          | Some (Inr s) \<Rightarrow> Inr (from_tcp s)), logged (TcpConnect addr) w)
      in case chain of
           Some c \<Rightarrow>
             if chain_is_empty c then direct
             else let opts = \<lparr>co_retries = 0, co_timeout = timeout, co_hosts = ch_hosts c, co_resolver = None\<rparr>
                  in (case dial_with_options (dn_net D) c addr opts w of
                        (Inl e, w) \<Rightarrow> (Inl (io_other (show_chain_error e)), w)
                      | (Inr s, w) \<Rightarrow> (Inr s, w))
         | None \<Rightarrow> direct)"

definition exchange_stream :: "bytes \<Rightarrow> (io_error, bytes) io" where
  "exchange_stream query =
     (if length query > 65535 then io_err (wire_err ''query too long for TCP framing'')
      else
        io_bind (io_write id (usize_as_be16 (length query) @ query)) (\<lambda>_.
        io_bind (io_read id 2) (\<lambda>len_buf.
        io_read id (unat (u16_from_be (len_buf ! 0) (len_buf ! 1))))))"

definition udp_reply_size :: "bytes \<Rightarrow> nat" where
  "udp_reply_size query =
     unat (max (case message_decode query of
                  Inl _ \<Rightarrow> DEFAULT_UDP_SIZE
                | Inr m \<Rightarrow> (case edns0_udp_size m of Some s \<Rightarrow> s | None \<Rightarrow> DEFAULT_UDP_SIZE)) 512)"

definition exchange_udp :: "'r dns_net \<Rightarrow> string \<Rightarrow> bytes \<Rightarrow> nat \<Rightarrow> world \<Rightarrow> (io_error + bytes) \<times> world" where
  "exchange_udp D addr query timeout w =
     (let bind = (if prefix ''['' addr \<or> count_char CHR '':'' addr > 1 then ''[::]:0'' else ''0.0.0.0:0'')
      in ((case dn_udp D (wd_tick w) bind addr query timeout of
             None \<Rightarrow> Inl (IoError TimedOut ''dns udp timeout'')
           | Some (Inl e) \<Rightarrow> Inl e
           | Some (Inr d) \<Rightarrow> Inr (take (udp_reply_size query) d)), logged (UdpQuery addr) w))"

definition exchange_tcp ::
    "'r dns_net \<Rightarrow> string \<Rightarrow> bytes \<Rightarrow> nat \<Rightarrow> 'r chain option \<Rightarrow> world \<Rightarrow> (io_error + bytes) \<times> world" where
  "exchange_tcp D addr query timeout chain w =
     (case dial_tcp_via D addr timeout chain w of
        (Inl e, w) \<Rightarrow> (Inl e, w)
      | (Inr c, w) \<Rightarrow> (timed D ''dns tcp timeout'' w (fst (exchange_stream query c)), tick w))"

definition exchange_tls ::
    "'r dns_net \<Rightarrow> string \<Rightarrow> string \<Rightarrow> bytes \<Rightarrow> nat \<Rightarrow> 'r chain option \<Rightarrow> world \<Rightarrow> (io_error + bytes) \<times> world" where
  "exchange_tls D addr hostname query timeout chain w =
     (case dial_tcp_via D addr timeout chain w of
        (Inl e, w) \<Rightarrow> (Inl e, w)
      | (Inr c, w) \<Rightarrow>
          let insecure = (hostname = []);
              sni = (if insecure then dns_host_of addr else hostname)
          in (case dn_connector D (wd_tick w) insecure of
                Inl e \<Rightarrow> (Inl (io_other e), w)
              | Inr _ \<Rightarrow>
                  (case timed D ''dns tls handshake timeout'' w
                          (map_sum io_other id (dn_tls D (wd_tick w) insecure sni c)) of
                     Inl e \<Rightarrow> (Inl e, tick w)
                   | Inr tls \<Rightarrow>
                       let w = tick w
                       in (timed D ''dns tls timeout'' w (fst (exchange_stream query (layered tls None None))), tick w))))"

section \<open>DNS over HTTPS\<close>

definition find_header_end :: "bytes \<Rightarrow> nat option" where
  "find_header_end buf = map_option (\<lambda>i. i + 4) (str_find (crlf @ crlf) (of_bytes buf))"

text \<open>The first loop of \<^verbatim>\<open>read_http_body\<close>: what was read, and the end of the header if it was found.\<close>

function doh_header :: "bytes \<Rightarrow> (io_error, bytes \<times> nat option) io" where
  "doh_header buf c =
     (case conn_await_read 2048 c of
        (Inl e, c') \<Rightarrow> (Inl e, c')
      | (Inr chunk, c') \<Rightarrow>
          if chunk = [] then (Inr (buf, None), c')
          else let buf' = buf @ chunk; header_end = find_header_end buf'
               in if length buf' > 64 * 1024 then (Inl (wire_err ''DoH response header too large''), c')
                  else case header_end of
                         Some h \<Rightarrow> (Inr (buf', Some h), c')
                       | None \<Rightarrow> doh_header buf' c')"
  by pat_completeness auto
termination
  by (relation "measure (\<lambda>(_, c). conn_weight c)") (auto intro: conn_await_read_weight [OF sym])

declare doh_header.simps [simp del]

function doh_body :: "nat option \<Rightarrow> bytes \<Rightarrow> (io_error, bytes) io" where
  "doh_body limit body c =
     (case limit of
        Some len \<Rightarrow>
          if length body < len
          then (case conn_await_read 2048 c of
                  (Inl e, c') \<Rightarrow> (Inl e, c')
                | (Inr chunk, c') \<Rightarrow> if chunk = [] then (Inr (take len body), c') else doh_body limit (body @ chunk) c')
          else (Inr (take len body), c)
      | None \<Rightarrow>
          (case conn_await_read 2048 c of
             (Inl e, c') \<Rightarrow> (Inl e, c')
           | (Inr chunk, c') \<Rightarrow> if chunk = [] then (Inr body, c') else doh_body limit (body @ chunk) c'))"
  by pat_completeness auto
termination
  by (relation "measure (\<lambda>(_, _, c). conn_weight c)") (auto intro: conn_await_read_weight [OF sym])

declare doh_body.simps [simp del]

definition content_length :: "(string \<times> bytes) list \<Rightarrow> nat option" where
  "content_length headers =
     (case find (\<lambda>h. to_ascii_lowercase (fst h) = ''content-length'') headers of
        None \<Rightarrow> None
      | Some (_, v) \<Rightarrow> if utf8_valid (of_bytes v) then parse_u64 (trim (of_bytes v)) else None)"

definition read_http_body :: "'r dns_net \<Rightarrow> (io_error, bytes) io" where
  "read_http_body D =
     io_bind (doh_header []) (\<lambda>(buf, header_end).
     case header_end of
       None \<Rightarrow> io_err (wire_err ''truncated DoH response'')
     | Some h \<Rightarrow>
         (case dn_http D (take h buf) of
            Inl e \<Rightarrow> io_err (wire_err (''bad DoH response: '' @ e))
          | Inr (code, headers) \<Rightarrow>
              let code = (case code of Some c \<Rightarrow> c | None \<Rightarrow> 0)
              in if code \<noteq> 200 then io_err (io_other (''returned status code '' @ show_nat code))
                 else doh_body (content_length headers) (drop h buf)))"

definition doh_request :: "string \<Rightarrow> string \<Rightarrow> nat \<Rightarrow> string" where
  "doh_request path host_header n =
     ''POST '' @ path @ '' HTTP/1.1'' @ crlf @ ''Host: '' @ host_header @ crlf
     @ ''Content-Type: application/dns-message'' @ crlf @ ''Accept: application/dns-message'' @ crlf
     @ ''Content-Length: '' @ show_nat n @ crlf @ ''Connection: close'' @ crlf @ crlf"

definition doh_post :: "'r dns_net \<Rightarrow> string \<Rightarrow> bytes \<Rightarrow> (io_error, bytes) io" where
  "doh_post D request query =
     io_bind (io_write id (as_bytes request)) (\<lambda>_. io_bind (io_write id query) (\<lambda>_. read_http_body D))"

definition exchange_doh ::
    "'r dns_net \<Rightarrow> string \<Rightarrow> string \<Rightarrow> bytes \<Rightarrow> nat \<Rightarrow> 'r chain option \<Rightarrow> world \<Rightarrow> (io_error + bytes) \<times> world" where
  "exchange_doh D url_str hostname query timeout chain w =
     (case dn_url D url_str of
        Inl e \<Rightarrow> (Inl (wire_err (''bad DoH url: '' @ e)), w)
      | Inr u \<Rightarrow>
          (case ur_host u of
             None \<Rightarrow> (Inl (wire_err ''DoH url has no host''), w)
           | Some host \<Rightarrow>
               let plaintext = (ur_scheme u = ''http'');
                   port = unat (case ur_port u of Some p \<Rightarrow> p | None \<Rightarrow> if plaintext then 80 else 443);
                   path = (if ur_path u = [] then ''/'' else ur_path u)
                          @ (case ur_query u of Some q \<Rightarrow> ''?'' @ q | None \<Rightarrow> []);
                   addr = (if CHR '':'' \<in> set host then ''['' @ host @ '']:'' @ show_nat port
                           else host @ '':'' @ show_nat port);
                   host_header = (if plaintext \<and> port = 80 \<or> \<not> plaintext \<and> port = 443 then host
                                  else host @ '':'' @ show_nat port);
                   request = doh_request path host_header (length query)
               in (case dial_tcp_via D addr timeout chain w of
                     (Inl e, w) \<Rightarrow> (Inl e, w)
                   | (Inr c, w) \<Rightarrow>
                       (timed D ''doh timeout'' w
                          (if plaintext then fst (doh_post D request query c)
                           else
                             let insecure = (hostname = []);
                                 sni = (if insecure then host else hostname)
                             in case dn_connector D (wd_tick w) insecure of
                                  Inl e \<Rightarrow> Inl (io_other e)
                                | Inr _ \<Rightarrow>
                                    (case dn_tls D (wd_tick w) insecure sni c of
                                       Inl e \<Rightarrow> Inl (io_other e)
                                     | Inr tls \<Rightarrow> fst (doh_post D request query (layered tls None None)))), tick w))))"

definition ns_exchange ::
    "'r dns_net \<Rightarrow> name_server \<Rightarrow> bytes \<Rightarrow> nat \<Rightarrow> 'r chain option \<Rightarrow> world \<Rightarrow> (io_error + bytes) \<times> world" where
  "ns_exchange D ns query timeout chain w =
     (let (proto, chained) = protocol_kind ns;
          chain = (if chained then chain else None)
      in case proto of
           NsUdp \<Rightarrow> exchange_udp D (dial_addr ns) query timeout w
         | NsTcp \<Rightarrow> exchange_tcp D (dial_addr ns) query timeout chain w
         | NsTls \<Rightarrow> exchange_tls D (dial_addr ns) (ns_hostname ns) query timeout chain w
         | NsHttps \<Rightarrow> exchange_doh D (ns_addr ns) (ns_hostname ns) query timeout chain w)"

section \<open>Exchanges over a stream\<close>

lemma runs_exchange_stream:
  assumes "conn_at l (usize_as_be16 (length reply) @ reply @ rest) out c" "length reply \<le> 65535" "length query \<le> 65535"
    "\<And>c'. conn_at l rest (out @ usize_as_be16 (length query) @ query) c' \<Longrightarrow> Q (Inr reply) c'"
  shows "runs (exchange_stream query) c Q"
proof -
  have n: "unat (u16_from_be (usize_as_be16 (length reply) ! 0) (usize_as_be16 (length reply) ! 1)) = length reply"
    using assms(2) by (simp add: usize_as_be16_def unat_u16)
  have "runs (io_bind (io_write id (usize_as_be16 (length query) @ query)) (\<lambda>_.
        io_bind (io_read id 2) (\<lambda>len_buf. io_read id (unat (u16_from_be (len_buf ! 0) (len_buf ! 1)))))) c Q"
    using assms(1)
    by - (rule run_intros | erule runs_write | erule runs_read_step | erule runs_read
        | simp add: assms(4) n [simplified])+
  then show ?thesis using assms(3) by (simp add: exchange_stream_def)
qed

section \<open>HTTP bodies\<close>

lemma await_read_at:
  assumes "conn_at l ys out c" "ys \<noteq> []" "0 < cap"
  obtains chunk c' where "conn_await_read cap c = (Inr chunk, c')" "chunk \<noteq> []" "length chunk \<le> cap"
    "ys = chunk @ content c'" "conn_at l (content c') out c'"
proof -
  obtain r c' where r: "conn_await_read cap c = (r, c')" by (cases "conn_await_read cap c")
  have ok: "conn_ok c" "content c = ys" using assms(1) by (simp_all add: conn_at_def)
  note a = conn_await_read_cases [OF ok(1) r]
  obtain chunk where chunk: "r = Inr chunk" "chunk \<noteq> []" using a ok assms(2,3) by (cases r) auto
  have "conn_frame c' = conn_frame c" using a by blast
  from frame_fields [OF this] a chunk ok assms(1) have "conn_at l (content c') out c'" by (auto simp: conn_at_def)
  then show thesis using that [of chunk c'] a chunk ok r by auto
qed

definition doh_head_ok :: "bytes \<Rightarrow> bool" where
  "doh_head_ok head \<longleftrightarrow> 4 \<le> length head \<and> length head \<le> 62 * 1024 \<and>
     str_find (crlf @ crlf) (of_bytes head) = Some (length head - 4)"

lemma find_header_end_append:
  assumes "doh_head_ok head" "z @ v = head @ rest"
  shows "find_header_end z = (if length head \<le> length z then Some (length head) else None)"
proof (cases "length head \<le> length z")
  case True
  then have "z = head @ drop (length head) z" using append_split_le(1) [OF assms(2) [symmetric]] by (metis append_take_drop_id)
  then have "str_find (crlf @ crlf) (of_bytes z) = Some (length head - 4)"
    using str_find_append assms(1) unfolding doh_head_ok_def by (metis of_bytes_append)
  then show ?thesis using True assms(1) by (simp add: find_header_end_def doh_head_ok_def)
next
  case False
  have "str_find (crlf @ crlf) (of_bytes z) = None"
  proof (rule ccontr)
    assume "str_find (crlf @ crlf) (of_bytes z) \<noteq> None"
    then obtain i where i: "str_find (crlf @ crlf) (of_bytes z) = Some i" by blast
    from str_find_append [OF this, of "of_bytes v"] have "str_find (crlf @ crlf) (of_bytes (head @ rest)) = Some i"
      using assms(2) by (metis of_bytes_append)
    moreover have "str_find (crlf @ crlf) (of_bytes (head @ rest)) = Some (length head - 4)"
      using assms(1) by (simp add: doh_head_ok_def str_find_append)
    ultimately have "i + 4 = length head" using assms(1) by (simp add: doh_head_ok_def)
    moreover obtain a b where "of_bytes z = a @ (crlf @ crlf) @ b" "length a = i" using str_find_SomeE [OF i] by metis
    then have "length (of_bytes z) = i + 4 + length b" by (simp add: crlf_def)
    ultimately show False using False by (simp add: of_bytes_def)
  qed
  then show ?thesis using False by (simp add: find_header_end_def)
qed

lemma doh_header_reads:
  assumes "doh_head_ok head" "conn_at l ys out c" "buf @ ys = head @ rest" "length buf < length head"
  shows "\<exists>buf' c'. doh_header buf c = (Inr (buf', Some (length head)), c') \<and> buf' @ content c' = head @ rest
    \<and> length head \<le> length buf' \<and> conn_at l (content c') out c'"
  using assms(2-4)
proof (induction buf c arbitrary: ys rule: doh_header.induct)
  case (1 buf c)
  have "ys \<noteq> []" using 1(3,4) by auto
  then obtain chunk c1 where r: "conn_await_read 2048 c = (Inr chunk, c1)" "chunk \<noteq> []" "length chunk \<le> 2048"
    "ys = chunk @ content c1" "conn_at l (content c1) out c1"
    using await_read_at [OF 1(2)] by (metis zero_less_numeral)
  have sp: "(buf @ chunk) @ content c1 = head @ rest" using 1(3) r(4) by simp
  have small: "\<not> 64 * 1024 < length (buf @ chunk)" using 1(4) r(3) assms(1) by (simp add: doh_head_ok_def)
  show ?case
  proof (cases "length head \<le> length (buf @ chunk)")
    case True
    then have "doh_header buf c = (Inr (buf @ chunk, Some (length head)), c1)"
      using r small find_header_end_append [OF assms(1) sp] by (simp add: doh_header.simps [of buf c])
    then show ?thesis using True sp r(5) by blast
  next
    case False
    then have n: "find_header_end (buf @ chunk) = None" using find_header_end_append [OF assms(1) sp] by simp
    then have "doh_header buf c = doh_header (buf @ chunk) c1" using r small by (simp add: doh_header.simps [of buf c])
    then show ?thesis
      using 1(1) [OF r(1) [symmetric] refl r(2) refl refl small n r(5) sp] False by simp
  qed
qed

lemma doh_body_reads:
  assumes "conn_at l ys out c" "buf @ ys = body @ extra"
  shows "fst (doh_body (Some (length body)) buf c) = Inr body"
  using assms
proof (induction "Some (length body)" buf c arbitrary: ys rule: doh_body.induct)
  case (1 buf c)
  show ?case
  proof (cases "length buf < length body")
    case True
    then have "ys \<noteq> []" using 1(4) by auto
    then obtain chunk c1 where r: "conn_await_read 2048 c = (Inr chunk, c1)" "chunk \<noteq> []"
      "ys = chunk @ content c1" "conn_at l (content c1) out c1"
      using await_read_at [OF 1(3)] by (metis zero_less_numeral)
    then have "doh_body (Some (length body)) buf c = doh_body (Some (length body)) (buf @ chunk) c1"
      using True by (simp add: doh_body.simps [of _ buf c])
    moreover have "fst (doh_body (Some (length body)) (buf @ chunk) c1) = Inr body"
      using 1(2) [OF refl True r(1) [symmetric] refl r(2,4)] 1(4) r(3) by simp
    ultimately show ?thesis by simp
  next
    case False
    then have "take (length body) buf = body" using append_split_le(1) [OF 1(4) [symmetric]] by simp
    then show ?thesis using False by (simp add: doh_body.simps [of _ buf c])
  qed
qed

section \<open>What is dialled for a name server\<close>

lemma extends_dial_tcp_via:
  assumes "dial_tcp_via D addr timeout (Some ch) w = (r, w')" "\<not> chain_is_empty ch"
  shows "extends (via_first (dn_net D) (chain_nodes ch)) w w'"
proof -
  let ?opts = "\<lparr>co_retries = 0, co_timeout = timeout, co_hosts = ch_hosts ch, co_resolver = None\<rparr>"
  obtain x w1 where x: "dial_with_options (dn_net D) ch addr ?opts w = (x, w1)"
    by (cases "dial_with_options (dn_net D) ch addr ?opts w")
  then show ?thesis using assms extends_dial_options [OF assms(2) x] by (cases x) (auto simp: dial_tcp_via_def Let_def)
qed

lemma extends_exchange:
  fixes D :: "'r dns_net" and ch :: "'r chain"
  assumes "\<not> chain_is_empty ch"
  defines "P \<equiv> via_first (dn_net D) (chain_nodes ch)"
  shows "exchange_tcp D addr query timeout (Some ch) w = (r, w') \<Longrightarrow> extends P w w'"
    "exchange_tls D addr host query timeout (Some ch) w = (r, w') \<Longrightarrow> extends P w w'"
    "exchange_doh D addr host query timeout (Some ch) w = (r, w') \<Longrightarrow> extends P w w'"
proof -
  have t: "dial_tcp_via D a timeout (Some ch) w = (x, w1) \<Longrightarrow> extends P w w1" for a x w1
    unfolding P_def using extends_dial_tcp_via assms(1) by blast
  have tt: "extends P w w1 \<Longrightarrow> extends P w (tick w1)" for w1 using extends_trans extends_refl(2) by blast
  show "exchange_tcp D addr query timeout (Some ch) w = (r, w') \<Longrightarrow> extends P w w'"
    by (auto simp: exchange_tcp_def split: prod.splits sum.splits dest!: t intro: tt)
  show "exchange_tls D addr host query timeout (Some ch) w = (r, w') \<Longrightarrow> extends P w w'"
    by (auto simp: exchange_tls_def Let_def split: prod.splits sum.splits dest!: t intro: tt)
  show "exchange_doh D addr host query timeout (Some ch) w = (r, w') \<Longrightarrow> extends P w w'"
    by (auto simp: exchange_doh_def Let_def split: prod.splits sum.splits option.splits dest!: t intro: tt)
qed

section \<open>Properties of an exchange\<close>

text \<open>An exchange over a stream writes the query behind its length and returns exactly the reply the
  server framed, whatever the chunks in which it arrives, and leaves what follows unread.\<close>

theorem dns_stream_exchange:
  assumes "conn_at l (usize_as_be16 (length reply) @ reply @ rest) out c" "length reply \<le> 65535" "length query \<le> 65535"
  shows "\<exists>c'. exchange_stream query c = (Inr reply, c') \<and>
    conn_at l rest (out @ usize_as_be16 (length query) @ query) c'"
proof -
  have "runs (exchange_stream query) c (\<lambda>r c'. r = Inr reply \<and> conn_at l rest (out @ usize_as_be16 (length query) @ query) c')"
    by (rule runs_exchange_stream [OF assms]) simp
  then show ?thesis by (auto simp: runs_def prod_eq_iff)
qed

theorem dns_stream_exchange_witness:
  "\<exists>c'. exchange_stream [7, 8] (from_tcp (demo_tcp (usize_as_be16 2 @ [1, 2] @ [9]))) = (Inr [1, 2], c') \<and>
    conn_at None [9] (usize_as_be16 2 @ [7, 8]) c'"
  using dns_stream_exchange [where l = None and reply = "[1, 2]" and rest = "[9]" and out = "[]" and query = "[7, 8]"
      and c = "from_tcp (demo_tcp (usize_as_be16 2 @ [1, 2] @ [9]))"] demo_tcp_at [of "usize_as_be16 2 @ [1, 2] @ [9]"]
  by (simp add: numeral_2_eq_2)

text \<open>A DNS-over-HTTPS answer with status 200 and a content length yields exactly that many bytes after
  the header, whatever the chunks in which header and body arrive.\<close>

theorem doh_body_exact:
  assumes "conn_at l (head @ body @ extra) out c" "doh_head_ok head"
    "dn_http D head = Inr (Some 200, headers)" "content_length headers = Some (length body)"
  shows "fst (read_http_body D c) = Inr body"
proof -
  have "length ([] :: bytes) < length head" using assms(2) by (auto simp: doh_head_ok_def)
  with doh_header_reads [OF assms(2,1), of "[]" "body @ extra"] obtain buf c1 where
    h: "doh_header [] c = (Inr (buf, Some (length head)), c1)" "buf @ content c1 = head @ body @ extra"
      "length head \<le> length buf" "conn_at l (content c1) out c1" by auto
  have t: "take (length head) buf = head" "drop (length head) buf @ content c1 = body @ extra"
    using append_split_le [OF h(2) [symmetric] h(3)] by simp_all
  show ?thesis using doh_body_reads [OF h(4) t(2)] h(1) t(1) assms(3,4) by (simp add: read_http_body_def io_bind_def)
qed

definition demo_dns :: "bytes \<Rightarrow> unit dns_net" where
  "demo_dns bs =
     \<lparr>dn_net = demo_net bs, dn_udp = (\<lambda>_ _ _ _ _. None), dn_intime = (\<lambda>_. True), dn_connector = (\<lambda>_ _. Inr ()),
      dn_tls = (\<lambda>_ _ _ _. Inl []), dn_url = (\<lambda>_. Inl []),
      dn_http = (\<lambda>_. Inr (Some 200, [(''Content-Length'', as_bytes ''2'')]))\<rparr>"

lemma demo_content_length: "content_length [(''Content-Length'', as_bytes ''2'')] = Some 2"
proof -
  have "trim ''2'' = ''2''" by (rule trim_graphic) code_simp
  moreover have "utf8_valid ''2''" by (rule ascii_utf8) code_simp
  moreover have "to_ascii_lowercase ''Content-Length'' = ''content-length''" by code_simp
  moreover have "parse_u64 ''2'' = Some 2" by (simp add: parse_uint_def digit_val_def)
  ultimately show ?thesis by (simp add: content_length_def del: utf8_valid.simps)
qed

theorem doh_body_exact_witness:
  "fst (read_http_body (demo_dns []) (from_tcp (demo_tcp (demo_head @ [1, 2] @ [9])))) = Inr [1, 2]"
proof (rule doh_body_exact [OF demo_tcp_at])
  show "doh_head_ok demo_head"
    using demo_head_ok by (simp add: http_accepts_def head_ok_def doh_head_ok_def MEDIUM_BUFFER_SIZE_def)
  show "dn_http (demo_dns []) demo_head = Inr (Some 200, [(''Content-Length'', as_bytes ''2'')])" by (simp add: demo_dns_def)
  show "content_length [(''Content-Length'', as_bytes ''2'')] = Some (length [1 :: u8, 2])" by (simp add: demo_content_length)
qed

text \<open>C19. A name server marked for the chain never leaks: with a chain of at least one group, queries over
  TCP, TLS and HTTPS are sent only through the first hop. A UDP query goes straight to the
  name server, chain or not.\<close>

theorem dns_chain_no_leak:
  assumes "protocol_kind ns = (proto, True)" "\<not> chain_is_empty ch" "ns_exchange D ns query timeout (Some ch) w = (r, w')"
  shows "if proto = NsUdp then wd_log w' = wd_log w @ [UdpQuery (dial_addr ns)]
    else \<exists>acts. wd_log w' = wd_log w @ acts \<and> list_all (via_first (dn_net D) (chain_nodes ch)) acts"
proof (cases proto)
  case NsUdp
  then show ?thesis using assms by (auto simp: ns_exchange_def exchange_udp_def logged_def)
qed (use assms extends_exchange [OF assms(2)] in \<open>auto simp: ns_exchange_def extends_def\<close>)

lemma demo_chained: "protocol_kind (with_protocol (name_server_new ''8.8.8.8'') ''tcp-chain'') = (NsTcp, True)"
  by (simp add: protocol_kind_def with_protocol_def name_server_new_def ns_protocol_parse_def to_ascii_lowercase_def
      to_ascii_lower_char_def strip_suffix_def suffix_def Let_def)

theorem dns_chain_no_leak_witness:
  "\<not> chain_is_empty demo_chain \<and>
   (\<exists>acts. wd_log (snd (ns_exchange (demo_dns []) (with_protocol (name_server_new ''8.8.8.8'') ''tcp-chain'') [] 0 (Some demo_chain) demo_world))
      = wd_log demo_world @ acts \<and> list_all (via_first (demo_net []) (chain_nodes demo_chain)) acts)"
proof -
  have c: "\<not> chain_is_empty demo_chain" by (simp add: demo_chain_def chain_new_def chain_is_empty_def)
  show ?thesis
    using dns_chain_no_leak [OF demo_chained c, of "demo_dns []" "[]" 0 demo_world, OF surjective_pairing] c
    by (simp add: demo_dns_def)
qed

end
