(* ===== verification/Resolver.thy ===== *)
theory Resolver
  imports DnsExchange Hosts "HOL-Library.AList"
begin

text \<open>
  The name resolver (\<^verbatim>\<open>src/src/resolver.rs\<close>): its cache, its state with the options set over those of
  the configuration file, lookups with failover between name servers, the exchange the DNS
  proxy uses, and live reload. The resolver is shared; while a lookup waits for a name
  server, other tasks may change it, which the environment's \<open>re_during\<close> stands for.
\<close>

section \<open>Cache\<close>

definition cache_key :: "string \<Rightarrow> u16 \<Rightarrow> u16 \<Rightarrow> string" where
  "cache_key name qclass qtype = name @ class_name qclass @ ''.'' @ type_name qtype"

record cache_item =
  ci_bytes :: bytes
  ci_ts :: nat
  ci_ttl :: nat
  ci_min_rr_ttl :: "u32 option"

type_synonym resolver_cache = "(string \<times> cache_item) list"

text \<open>Times and durations are in nanoseconds.\<close>

definition from_secs :: "u32 \<Rightarrow> nat" where
  "from_secs s = unat s * 1000000000"

definition cache_load :: "nat \<Rightarrow> string \<Rightarrow> resolver_cache \<Rightarrow> bytes option \<times> resolver_cache" where
  "cache_load now key cache =
     (case map_of cache key of
        None \<Rightarrow> (None, cache)
      | Some item \<Rightarrow>
          let elapsed = now - ci_ts item
          in if ci_ttl item > 0 \<and> elapsed > ci_ttl item then (None, AList.delete key cache)
             else case ci_min_rr_ttl item of
                    Some min_ttl \<Rightarrow>
                      if elapsed > from_secs min_ttl then (None, AList.delete key cache) else (Some (ci_bytes item), cache)
                  | None \<Rightarrow> (Some (ci_bytes item), cache))"

definition cache_store :: "nat \<Rightarrow> string \<Rightarrow> bytes \<Rightarrow> message \<Rightarrow> nat \<Rightarrow> bool \<Rightarrow> resolver_cache \<Rightarrow> resolver_cache" where
  "cache_store now key bs msg ttl ttl_negative cache =
     (if key = [] \<or> ttl_negative then cache
      else AList.update key \<lparr>ci_bytes = bs, ci_ts = now, ci_ttl = ttl, ci_min_rr_ttl = min_answer_ttl msg\<rparr> cache)"

section \<open>State\<close>

record resolver_state =
  rs_servers :: "name_server list"
  rs_domain :: string
  rs_period :: nat
  rs_ttl :: nat
  rs_ttl_negative :: bool
  rs_timeout :: nat
  rs_prefer :: string
  rs_src_ip :: "ip_addr option"
  rs_opt_ttl :: nat
  rs_opt_ttl_negative :: bool
  rs_opt_timeout :: nat
  rs_opt_prefer :: string
  rs_opt_src_ip :: "ip_addr option"

definition apply_options :: "resolver_state \<Rightarrow> resolver_state" where
  "apply_options st =
     (let st = (if rs_opt_timeout st \<noteq> 0 then st\<lparr>rs_timeout := rs_opt_timeout st\<rparr> else st);
          st = (if rs_opt_ttl st \<noteq> 0 \<or> rs_opt_ttl_negative st
                then st\<lparr>rs_ttl := rs_opt_ttl st, rs_ttl_negative := rs_opt_ttl_negative st\<rparr> else st);
          st = (if rs_opt_prefer st \<noteq> [] then st\<lparr>rs_prefer := rs_opt_prefer st\<rparr> else st)
      in if rs_opt_src_ip st \<noteq> None then st\<lparr>rs_src_ip := rs_opt_src_ip st\<rparr> else st)"

definition DEFAULT_RESOLVER_TIMEOUT :: nat where "DEFAULT_RESOLVER_TIMEOUT = 5 * 1000000000"

definition effective_timeout :: "resolver_state \<Rightarrow> nat" where
  "effective_timeout st = (if rs_timeout st = 0 then DEFAULT_RESOLVER_TIMEOUT else rs_timeout st)"

record 'r resolver =
  rv_state :: resolver_state
  rv_cache :: resolver_cache
  rv_stopped :: bool
  rv_chain :: "'r chain option"

definition with_servers :: "name_server list \<Rightarrow> 'r resolver" where
  "with_servers servers =
     \<lparr>rv_state = \<lparr>rs_servers = servers, rs_domain = [], rs_period = 0, rs_ttl = 0, rs_ttl_negative = False,
        rs_timeout = 0, rs_prefer = [], rs_src_ip = None, rs_opt_ttl = 0, rs_opt_ttl_negative = False,
        rs_opt_timeout = 0, rs_opt_prefer = [], rs_opt_src_ip = None\<rparr>,
      rv_cache = [], rv_stopped = False, rv_chain = None\<rparr>"

definition parse_ns_spec :: "'r dns_net \<Rightarrow> string \<Rightarrow> name_server option" where
  "parse_ns_spec D s =
     (if s = [] then None
      else if prefix ''https'' s
      then (case dn_url D s of
              Inl _ \<Rightarrow> None
            | Inr u \<Rightarrow>
                if ur_scheme u = [] then None
                else Some (with_protocol (name_server_new s) (if ur_scheme u = ''https-chain'' then ''https-chain'' else ''https'')))
      else case split_char CHR ''/'' s of
             [a] \<Rightarrow> Some (name_server_new a)
           | [a, p] \<Rightarrow> Some (with_protocol (name_server_new a) p)
           | _ \<Rightarrow> None)"

definition from_inline :: "'r dns_net \<Rightarrow> string \<Rightarrow> 'r resolver" where
  "from_inline D cfg = with_servers (List.map_filter (\<lambda>s. parse_ns_spec D (trim s)) (split_char CHR '','' cfg))"

definition resolver_new :: "'r dns_net \<Rightarrow> string list \<Rightarrow> 'r resolver" where
  "resolver_new D servers =
     (let r = with_servers (List.map_filter (\<lambda>s. parse_ns_spec D (trim s)) servers)
      in r\<lparr>rv_state := (rv_state r)\<lparr>rs_prefer := ''ipv4''\<rparr>\<rparr>)"

definition resolver_init ::
    "'r chain option \<Rightarrow> nat \<Rightarrow> nat \<Rightarrow> string \<Rightarrow> ip_addr option \<Rightarrow> 'r resolver \<Rightarrow> 'r resolver" where
  "resolver_init chain timeout ttl prefer src_ip r =
     (let r = (if chain \<noteq> None then r\<lparr>rv_chain := chain\<rparr> else r);
          st = rv_state r;
          st = (if timeout \<noteq> 0 then st\<lparr>rs_opt_timeout := timeout\<rparr> else st);
          st = (if ttl \<noteq> 0 then st\<lparr>rs_opt_ttl := ttl\<rparr> else st);
          st = (if prefer \<noteq> [] then st\<lparr>rs_opt_prefer := to_ascii_lowercase prefer\<rparr> else st);
          st = (if src_ip \<noteq> None then st\<lparr>rs_opt_src_ip := src_ip\<rparr> else st)
      in r\<lparr>rv_state := apply_options st\<rparr>)"

definition set_ttl_disabled :: "'r resolver \<Rightarrow> 'r resolver" where
  "set_ttl_disabled r =
     r\<lparr>rv_state := apply_options ((rv_state r)\<lparr>rs_opt_ttl_negative := True, rs_opt_ttl := 0\<rparr>)\<rparr>"

definition set_chain :: "'r chain \<Rightarrow> 'r resolver \<Rightarrow> 'r resolver" where
  "set_chain chain r = r\<lparr>rv_chain := Some chain\<rparr>"

definition set_prefer :: "string \<Rightarrow> 'r resolver \<Rightarrow> 'r resolver" where
  "set_prefer prefer r = r\<lparr>rv_state := apply_options ((rv_state r)\<lparr>rs_opt_prefer := to_ascii_lowercase prefer\<rparr>)\<rparr>"

definition set_src_ip :: "ip_addr option \<Rightarrow> 'r resolver \<Rightarrow> 'r resolver" where
  "set_src_ip ip r = r\<lparr>rv_state := apply_options ((rv_state r)\<lparr>rs_opt_src_ip := ip\<rparr>)\<rparr>"

definition set_timeout :: "nat \<Rightarrow> 'r resolver \<Rightarrow> 'r resolver" where
  "set_timeout timeout r = r\<lparr>rv_state := apply_options ((rv_state r)\<lparr>rs_opt_timeout := timeout\<rparr>)\<rparr>"

definition add_server :: "name_server \<Rightarrow> 'r resolver \<Rightarrow> 'r resolver" where
  "add_server ns r = r\<lparr>rv_state := (rv_state r)\<lparr>rs_servers := rs_servers (rv_state r) @ [ns]\<rparr>\<rparr>"

definition clear_cache :: "'r resolver \<Rightarrow> 'r resolver" where
  "clear_cache r = r\<lparr>rv_cache := []\<rparr>"

section \<open>Lookups\<close>

record 'r resolver_env =
  re_dns :: "'r dns_net"
  re_now :: "nat \<Rightarrow> nat"
  re_random :: "nat \<Rightarrow> u16"
  re_during :: "nat \<Rightarrow> 'r resolver \<Rightarrow> 'r resolver"
  re_lookup :: "nat \<Rightarrow> string \<Rightarrow> io_error + ip_addr list"

type_synonym ('r, 'a) rio = "'r resolver \<Rightarrow> world \<Rightarrow> (io_error + 'a) \<times> 'r resolver \<times> world"

text \<open>A look into the cache, and a reply that is put into it.\<close>

definition rv_load :: "'r resolver_env \<Rightarrow> string \<Rightarrow> 'r resolver \<Rightarrow> world \<Rightarrow> bytes option \<times> 'r resolver \<times> world" where
  "rv_load E key r w =
     (case cache_load (re_now E (wd_tick w)) key (rv_cache r) of (hit, cache) \<Rightarrow> (hit, r\<lparr>rv_cache := cache\<rparr>, tick w))"

definition rv_store :: "'r resolver_env \<Rightarrow> string \<Rightarrow> bytes \<Rightarrow> message \<Rightarrow> resolver_state \<Rightarrow> 'r resolver \<Rightarrow> world \<Rightarrow> 'r resolver" where
  "rv_store E key reply msg st r w =
     r\<lparr>rv_cache := cache_store (re_now E (wd_tick w)) key reply msg (rs_ttl st) (rs_ttl_negative st) (rv_cache r)\<rparr>"

text \<open>Waiting for a name server; meanwhile other tasks run.\<close>

definition rv_exchange ::
    "'r resolver_env \<Rightarrow> name_server \<Rightarrow> bytes \<Rightarrow> resolver_state \<Rightarrow> 'r chain option \<Rightarrow> ('r, bytes) rio" where
  "rv_exchange E ns query st chain r w =
     (case ns_exchange (re_dns E) ns query (effective_timeout st) chain w of
        (reply, w') \<Rightarrow> (reply, re_during E (wd_tick w) r, tick w'))"

definition rv_query :: "'r resolver_env \<Rightarrow> name_server \<Rightarrow> string \<Rightarrow> u16 \<Rightarrow> resolver_state \<Rightarrow> 'r chain option \<Rightarrow> ('r, ip_addr list) rio" where
  "rv_query E ns host qtype st chain r w =
     (let name = fqdn host; key = cache_key name CLASS_IN qtype
      in case rv_load E key r w of
           (Some bytes, r, w) \<Rightarrow> (ebind (message_decode bytes) (\<lambda>mr. Inr (answer_ips mr)), r, w)
         | (None, r, w) \<Rightarrow>
             let mq = message_query (re_random E (wd_tick w)) name qtype;
                 mq = (case rs_src_ip st of
                         Some ip \<Rightarrow> mq\<lparr>me_additionals := me_additionals mq @ [edns0_subnet_opt ip DEFAULT_UDP_SIZE]\<rparr>
                       | None \<Rightarrow> mq)
             in case message_encode mq of
                  Inl e \<Rightarrow> (Inl e, r, w)
                | Inr query \<Rightarrow>
                    (case rv_exchange E ns query st chain r w of
                       (Inl e, r, w) \<Rightarrow> (Inl e, r, w)
                     | (Inr reply, r, w) \<Rightarrow>
                         (case message_decode reply of
                            Inl e \<Rightarrow> (Inl e, r, w)
                          | Inr mr \<Rightarrow> (Inr (answer_ips mr), rv_store E key reply mr st r w, tick w))))"

definition resolve_via :: "'r resolver_env \<Rightarrow> name_server \<Rightarrow> string \<Rightarrow> resolver_state \<Rightarrow> 'r chain option \<Rightarrow> ('r, ip_addr list) rio" where
  "resolve_via E ns host st chain r w =
     (let (first, second) = (if rs_prefer st = ''ipv6'' then (TYPE_AAAA, TYPE_A) else (TYPE_A, TYPE_AAAA))
      in case rv_query E ns host first st chain r w of
           (Inr (ip # ips), r, w) \<Rightarrow> (Inr (ip # ips), r, w)
         | (_, r, w) \<Rightarrow> rv_query E ns host second st chain r w)"

text \<open>The loop over the name servers, with what it has found and the last error.\<close>

fun resolve_servers ::
    "'r resolver_env \<Rightarrow> string \<Rightarrow> resolver_state \<Rightarrow> 'r chain option \<Rightarrow> name_server list \<Rightarrow> ip_addr list \<Rightarrow> io_error option
     \<Rightarrow> ('r, ip_addr list) rio" where
  "resolve_servers E host st chain [] ips last_err r w =
     (if ips = [] then (case last_err of Some e \<Rightarrow> (Inl e, r, w) | None \<Rightarrow> (Inr ips, r, w)) else (Inr ips, r, w))"
| "resolve_servers E host st chain (ns # nss) ips last_err r w =
     (case resolve_via E ns host st chain r w of
        (Inr v, r, w) \<Rightarrow> if v \<noteq> [] then (Inr v, r, w) else resolve_servers E host st chain nss v None r w
      | (Inl e, r, w) \<Rightarrow> resolve_servers E host st chain nss ips (Some e) r w)"

definition is_v4 :: "ip_addr \<Rightarrow> bool" where
  "is_v4 a = (case a of V4 _ _ _ _ \<Rightarrow> True | V6 _ \<Rightarrow> False)"

definition system_lookup :: "'r resolver_env \<Rightarrow> string \<Rightarrow> string \<Rightarrow> nat \<Rightarrow> io_error + ip_addr list" where
  "system_lookup E host prefer i =
     (case re_lookup E i (host @ '':0'') of
        Inl e \<Rightarrow> Inl e
      | Inr addrs \<Rightarrow>
          (case (if prefer = ''ipv6'' then partition (\<lambda>a. \<not> is_v4 a) addrs else partition is_v4 addrs) of
             (first, second) \<Rightarrow> Inr (first @ second)))"

definition resolver_resolve :: "'r resolver_env \<Rightarrow> string \<Rightarrow> ('r, ip_addr list) rio" where
  "resolver_resolve E host r w =
     (if host = [] then (Inr [], r, w)
      else case parse_ip host of
        Some ip \<Rightarrow> (Inr [ip], r, w)
      | None \<Rightarrow>
          let st = rv_state r;
              host = (if CHR ''.'' \<notin> set host \<and> rs_domain st \<noteq> [] then host @ ''.'' @ rs_domain st else host)
          in if rs_servers st = [] then (system_lookup E host (rs_prefer st) (wd_tick w), re_during E (wd_tick w) r, tick w)
             else resolve_servers E host st (rv_chain r) (rs_servers st) [] None r w)"

text \<open>\<^verbatim>\<open>Resolver::exchange\<close>: the loop over the servers, then the whole.\<close>

fun exchange_servers ::
    "'r resolver_env \<Rightarrow> u16 \<Rightarrow> string \<Rightarrow> bytes \<Rightarrow> resolver_state \<Rightarrow> 'r chain option \<Rightarrow> name_server list \<Rightarrow> io_error option
     \<Rightarrow> ('r, bytes) rio" where
  "exchange_servers E i key outbound st chain [] last_err r w =
     (Inl (case last_err of Some e \<Rightarrow> e | None \<Rightarrow> io_other ''no name server answered''), r, w)"
| "exchange_servers E i key outbound st chain (ns # nss) last_err r w =
     (case rv_exchange E ns outbound st chain r w of
        (Inr reply, r, w) \<Rightarrow>
          (Inr (set_msg_id reply i),
           (case message_decode reply of Inr mr \<Rightarrow> rv_store E key reply mr st r w | Inl _ \<Rightarrow> r), tick w)
      | (Inl e, r, w) \<Rightarrow> exchange_servers E i key outbound st chain nss (Some e) r w)"

definition resolver_exchange :: "'r resolver_env \<Rightarrow> bytes \<Rightarrow> ('r, bytes) rio" where
  "resolver_exchange E query r w =
     (case message_decode query of
        Inl e \<Rightarrow> (Inl e, r, w)
      | Inr mq \<Rightarrow>
          if me_questions mq = [] then (Inl (io_other ''empty question''), r, w)
          else
            let st = rv_state r;
                single = (length (me_questions mq) = 1);
                q = hd (me_questions mq);
                key = (if single then cache_key (qu_name q) (qu_class q) (qu_type q) else [])
            in case (if single then rv_load E key r w else (None, r, w)) of
                 (Some bytes, r, w) \<Rightarrow> (Inr (set_msg_id bytes (me_id mq)), r, w)
               | (None, r, w) \<Rightarrow>
                   let outbound =
                     (case rs_src_ip st of
                        Some ip \<Rightarrow>
                          let udp_size = (case edns0_udp_size mq of Some s \<Rightarrow> s | None \<Rightarrow> DEFAULT_UDP_SIZE);
                              m = remove_opt mq
                          in message_encode (m\<lparr>me_additionals := me_additionals m @ [edns0_subnet_opt ip udp_size]\<rparr>)
                      | None \<Rightarrow> Inr query)
                   in case outbound of
                        Inl e \<Rightarrow> (Inl e, r, w)
                      | Inr outbound \<Rightarrow>
                          if rs_servers st = [] then (Inl (io_other ''no name server configured''), r, w)
                          else exchange_servers E (me_id mq) key outbound st (rv_chain r) (rs_servers st) None r w)"

section \<open>The configuration file\<close>

definition parse_signed_go_duration :: "string \<Rightarrow> bool \<times> nat" where
  "parse_signed_go_duration s =
     (case strip_prefix_char CHR ''-'' s of
        Some rest \<Rightarrow>
          let d = (case parse_go_duration rest of Some d \<Rightarrow> d | None \<Rightarrow> 0) in if d > 0 then (True, 0) else (False, 0)
      | None \<Rightarrow> (False, case parse_go_duration s of Some d \<Rightarrow> d | None \<Rightarrow> 0))"

definition duration_or_zero :: "string \<Rightarrow> nat" where
  "duration_or_zero s = (case parse_go_duration s of Some d \<Rightarrow> d | None \<Rightarrow> 0)"

record resolver_file =
  rf_ttl :: nat
  rf_ttl_negative :: bool
  rf_timeout :: nat
  rf_period :: nat
  rf_domain :: string
  rf_prefer :: string
  rf_src_ip :: "ip_addr option"
  rf_servers :: "name_server list"

definition file_empty :: resolver_file where
  "file_empty = \<lparr>rf_ttl = 0, rf_ttl_negative = False, rf_timeout = 0, rf_period = 0, rf_domain = [], rf_prefer = [],
     rf_src_ip = None, rf_servers = []\<rparr>"

text \<open>A name server given by the words of a line.\<close>

definition server_of_words :: "string list \<Rightarrow> name_server" where
  "server_of_words ss =
     (let ns = (case ss of
                  [a] \<Rightarrow> name_server_new a
                | [a, p] \<Rightarrow> with_protocol (name_server_new a) p
                | a # p # h # _ \<Rightarrow> with_hostname (with_protocol (name_server_new a) p) h
                | [] \<Rightarrow> name_server_new [])
      in if prefix ''https'' (ns_addr ns) \<and> ns_protocol ns = [] then with_protocol ns ''https'' else ns)"

definition resolver_line :: "resolver_file \<Rightarrow> string \<Rightarrow> resolver_file" where
  "resolver_line f line =
     (case split_line_ref line of
        [] \<Rightarrow> f
      | head # args \<Rightarrow>
          if head = ''timeout'' then (case args of v # _ \<Rightarrow> f\<lparr>rf_timeout := duration_or_zero v\<rparr> | [] \<Rightarrow> f)
          else if head = ''ttl''
          then (case args of v # _ \<Rightarrow> (case parse_signed_go_duration v of (neg, d) \<Rightarrow> f\<lparr>rf_ttl := d, rf_ttl_negative := neg\<rparr>)
                | [] \<Rightarrow> f)
          else if head = ''reload'' then (case args of v # _ \<Rightarrow> f\<lparr>rf_period := duration_or_zero v\<rparr> | [] \<Rightarrow> f)
          else if head = ''domain'' then (case args of v # _ \<Rightarrow> f\<lparr>rf_domain := v\<rparr> | [] \<Rightarrow> f)
          else if head \<in> set [''search'', ''sortlist'', ''options''] then f
          else if head = ''prefer'' then (case args of v # _ \<Rightarrow> f\<lparr>rf_prefer := to_ascii_lowercase v\<rparr> | [] \<Rightarrow> f)
          else if head = ''ip'' then (case args of v # _ \<Rightarrow> f\<lparr>rf_src_ip := parse_ip v\<rparr> | [] \<Rightarrow> f)
          else if head = ''nameserver''
          then (if args = [] then f else f\<lparr>rf_servers := rf_servers f @ [server_of_words args]\<rparr>)
          else f\<lparr>rf_servers := rf_servers f @ [server_of_words (head # args)]\<rparr>)"

definition resolver_reload :: "reader \<Rightarrow> 'r resolver \<Rightarrow> (io_error + unit) \<times> 'r resolver" where
  "resolver_reload rd r =
     (if rv_stopped r then (Inr (), r)
      else case fold_lines resolver_line file_empty (buf_lines rd) of
        Inl e \<Rightarrow> (Inl e, r)
      | Inr f \<Rightarrow>
          (Inr (), r\<lparr>rv_state := apply_options ((rv_state r)\<lparr>rs_ttl := rf_ttl f, rs_ttl_negative := rf_ttl_negative f,
                       rs_timeout := rf_timeout f, rs_domain := rf_domain f, rs_period := rf_period f,
                       rs_prefer := rf_prefer f, rs_src_ip := rf_src_ip f, rs_servers := rf_servers f\<rparr>),
                     rv_cache := []\<rparr>))"

definition resolver_period :: "'r resolver \<Rightarrow> nat" where
  "resolver_period r = (if rv_stopped r then 0 else rs_period (rv_state r))"

definition resolver_stop :: "'r resolver \<Rightarrow> 'r resolver" where
  "resolver_stop r = r\<lparr>rv_stopped := True\<rparr>"

text \<open>\<^verbatim>\<open>Resolver::parse\<close>; \<open>opened\<close> is what opening the file of that name gives.\<close>

definition resolver_parse :: "'r dns_net \<Rightarrow> string \<Rightarrow> (io_error + reader) \<Rightarrow> 'r resolver option" where
  "resolver_parse D cfg opened =
     (if cfg = [] then None
      else case opened of
        Inr f \<Rightarrow> Some (snd (resolver_reload f (with_servers [])))
      | Inl _ \<Rightarrow> Some (from_inline D cfg))"

interpretation resolver_reloads: reloadable resolver_reload resolver_period resolver_stop rv_stopped
  by unfold_locales
    (auto simp: resolver_stop_def resolver_period_def resolver_reload_def split: if_splits sum.splits prod.splits)

section \<open>Cache keys\<close>

lemma show_nat_eq [simp]: "show_nat a = show_nat b \<longleftrightarrow> a = b"
proof
  assume "show_nat a = show_nat b"
  then show "a = b" using parse_uint_show_nat [of "max a b"] by (metis max.cobounded1 max.cobounded2 option.inject)
qed simp

lemma class_name_inj: "class_name c = class_name c' \<Longrightarrow> c = c'"
  by (auto simp: class_name_def word_unat_eq_iff split: if_splits)

lemma type_name_inj: "type_name t = type_name t' \<Longrightarrow> t = t'"
  by (auto simp: type_name_def word_unat_eq_iff split: if_splits)

lemma names_no_dot: "CHR ''.'' \<notin> set (class_name c)" "CHR ''.'' \<notin> set (type_name t)"
  using show_nat_not_mem [of "CHR ''.''"] by (auto simp: class_name_def type_name_def)

lemma cache_key_eq:
  assumes "n \<noteq> []" "last n = CHR ''.''" "n' \<noteq> []" "last n' = CHR ''.''" "cache_key n c t = cache_key n' c' t'"
  shows "n = n' \<and> c = c' \<and> t = t'"
proof -
  have 1: "n @ class_name c = n' @ class_name c'" "type_name t = type_name t'"
    using rsplit_unique [of "n @ class_name c" "CHR ''.''" "type_name t"] assms(5) names_no_dot
    by (auto simp: cache_key_def)
  have "n = butlast n @ ''.''" "n' = butlast n' @ ''.''" using assms(1-4) append_butlast_last_id by metis+
  then have "butlast n @ CHR ''.'' # class_name c = butlast n' @ CHR ''.'' # class_name c'" using 1(1)
    by (metis append.assoc append_Cons append_Nil)
  from rsplit_unique [OF this names_no_dot(1) names_no_dot(1)] \<open>n = _\<close> \<open>n' = _\<close>
  show ?thesis using 1(2) class_name_inj type_name_inj by metis
qed

section \<open>What the cache serves\<close>

definition cache_ok :: "resolver_cache \<Rightarrow> bool" where
  "cache_ok cache \<longleftrightarrow> (\<forall>key item. map_of cache key = Some item \<longrightarrow>
     (\<exists>m. message_decode (ci_bytes item) = Inr m \<and> ci_min_rr_ttl item = min_answer_ttl m))"

lemma from_secs_min: "elapsed \<le> from_secs (min a b) \<longleftrightarrow> elapsed \<le> from_secs a \<and> elapsed \<le> from_secs b"
  by (auto simp: min_def from_secs_def word_le_nat_alt intro: order_trans)

lemma from_secs_fold:
  "elapsed \<le> from_secs (fold min ts t) \<longleftrightarrow> elapsed \<le> from_secs t \<and> (\<forall>x \<in> set ts. elapsed \<le> from_secs x)"
  by (induction ts arbitrary: t) (auto simp: from_secs_min)

lemma min_answer_ttl_le:
  "(case min_answer_ttl m of Some t \<Rightarrow> elapsed \<le> from_secs t | None \<Rightarrow> True) \<longleftrightarrow>
   (\<forall>a \<in> set (me_answers m). elapsed \<le> from_secs (rr_ttl a))"
  by (cases "me_answers m") (auto simp: min_answer_ttl_def from_secs_fold)

lemma cache_load_fresh:
  assumes "cache_ok cache" "map_of cache key = Some item" "message_decode (ci_bytes item) = Inr m"
  shows "cache_load now key cache =
    (if (0 < ci_ttl item \<longrightarrow> now - ci_ts item \<le> ci_ttl item) \<and>
        (\<forall>a \<in> set (me_answers m). now - ci_ts item \<le> from_secs (rr_ttl a))
     then (Some (ci_bytes item), cache) else (None, AList.delete key cache))"
proof -
  have "ci_min_rr_ttl item = min_answer_ttl m" using assms unfolding cache_ok_def by force
  then show ?thesis using assms(2) min_answer_ttl_le [where m = m and elapsed = "now - ci_ts item"]
    by (auto simp: cache_load_def Let_def not_less split: option.splits)
qed

lemma cache_ok_delete: "cache_ok cache \<Longrightarrow> cache_ok (AList.delete key cache)"
  by (auto simp: cache_ok_def AList.delete_conv')

lemma cache_ok_Nil [simp]: "cache_ok []"
  by (simp add: cache_ok_def)

lemma cache_ok_load: "cache_ok cache \<Longrightarrow> cache_load now key cache = (hit, cache') \<Longrightarrow> cache_ok cache'"
  using cache_ok_delete [of cache key]
  by (auto simp: cache_load_def Let_def split: option.splits if_splits)

lemma cache_load_hit:
  "cache_ok cache \<Longrightarrow> cache_load now key cache = (Some bs, cache') \<Longrightarrow> \<exists>m. message_decode bs = Inr m"
  by (fastforce simp: cache_load_def cache_ok_def Let_def split: option.splits if_splits)

lemma cache_ok_store: "cache_ok cache \<Longrightarrow> message_decode bs = Inr m \<Longrightarrow> cache_ok (cache_store now key bs m ttl neg cache)"
  by (auto simp: cache_store_def cache_ok_def AList.update_conv')

section \<open>Operations keep the cache in order\<close>

definition during_ok :: "'r resolver_env \<Rightarrow> bool" where
  "during_ok E \<longleftrightarrow> (\<forall>i r. cache_ok (rv_cache r) \<longrightarrow> cache_ok (rv_cache (re_during E i r)))"

lemma rv_load_ok:
  assumes "rv_load E key r w = (hit, r', w')" "cache_ok (rv_cache r)"
  shows "cache_ok (rv_cache r') \<and> (\<forall>bs. hit = Some bs \<longrightarrow> (\<exists>m. message_decode bs = Inr m))"
  using assms cache_ok_load cache_load_hit by (fastforce simp: rv_load_def split: prod.splits)

lemma rv_exchange_ok:
  "rv_exchange E ns q st chain r w = (x, r', w') \<Longrightarrow> during_ok E \<Longrightarrow> cache_ok (rv_cache r) \<Longrightarrow> cache_ok (rv_cache r')"
  by (auto simp: rv_exchange_def during_ok_def split: prod.splits)

lemma rv_store_ok:
  "message_decode reply = Inr m \<Longrightarrow> cache_ok (rv_cache r) \<Longrightarrow> cache_ok (rv_cache (rv_store E key reply m st r w))"
  by (simp add: rv_store_def cache_ok_store)

lemma rv_query_ok:
  assumes "rv_query E ns host t st chain r w = (x, r', w')" "during_ok E" "cache_ok (rv_cache r)"
  shows "cache_ok (rv_cache r')"
  using assms
  by (auto simp: rv_query_def Let_def split: prod.splits option.splits sum.splits
      intro: rv_store_ok dest!: rv_load_ok rv_exchange_ok)

lemma resolve_via_ok:
  assumes "resolve_via E ns host st chain r w = (x, r', w')" "during_ok E" "cache_ok (rv_cache r)"
  shows "cache_ok (rv_cache r')"
proof -
  define a b where "a = (if rs_prefer st = ''ipv6'' then TYPE_AAAA else TYPE_A)"
    and "b = (if rs_prefer st = ''ipv6'' then TYPE_A else TYPE_AAAA)"
  obtain y r1 w1 where y: "rv_query E ns host a st chain r w = (y, r1, w1)" by (cases "rv_query E ns host a st chain r w")
  note ok = rv_query_ok [OF y assms(2,3)]
  show ?thesis using assms(1) y ok rv_query_ok [OF _ assms(2) ok]
    by (auto simp: resolve_via_def a_def b_def Let_def split: if_splits sum.splits list.splits)
qed

lemma resolve_servers_ok:
  "resolve_servers E host st chain nss ips err r w = (x, r', w') \<Longrightarrow> during_ok E \<Longrightarrow> cache_ok (rv_cache r) \<Longrightarrow> cache_ok (rv_cache r')"
proof (induction nss arbitrary: ips err r w)
  case (Cons ns nss)
  obtain y r1 w1 where y: "resolve_via E ns host st chain r w = (y, r1, w1)" by (cases "resolve_via E ns host st chain r w")
  show ?case using Cons y resolve_via_ok [OF y Cons.prems(2,3)] by (auto split: sum.splits if_splits)
qed (auto split: if_splits option.splits)

lemma exchange_servers_ok:
  "exchange_servers E i key q st chain nss err r w = (x, r', w') \<Longrightarrow> during_ok E \<Longrightarrow> cache_ok (rv_cache r) \<Longrightarrow> cache_ok (rv_cache r')"
proof (induction nss arbitrary: err r w)
  case (Cons ns nss)
  obtain y r1 w1 where y: "rv_exchange E ns q st chain r w = (y, r1, w1)" by (cases "rv_exchange E ns q st chain r w")
  show ?case using Cons y rv_exchange_ok [OF y Cons.prems(2,3)] by (auto split: sum.splits intro: rv_store_ok)
qed auto

lemma resolver_ops_ok:
  assumes "during_ok E" "cache_ok (rv_cache r)"
  shows "resolver_resolve E host r w = (x, r', w') \<Longrightarrow> cache_ok (rv_cache r')"
    and "resolver_exchange E q r w = (y, r', w') \<Longrightarrow> cache_ok (rv_cache r')"
    and "resolver_reload rd r = (z, r') \<Longrightarrow> cache_ok (rv_cache r')"
proof -
  show "resolver_resolve E host r w = (x, r', w') \<Longrightarrow> cache_ok (rv_cache r')"
    using assms resolve_servers_ok [OF _ assms]
    by (auto simp: resolver_resolve_def Let_def during_ok_def split: if_splits option.splits)
  show "resolver_reload rd r = (z, r') \<Longrightarrow> cache_ok (rv_cache r')"
    using assms by (auto simp: resolver_reload_def split: if_splits sum.splits)
  show "cache_ok (rv_cache r')" if x: "resolver_exchange E q r w = (y, r', w')"
  proof (cases "message_decode q")
    case (Inr mq)
    define key where "key = cache_key (qu_name (hd (me_questions mq))) (qu_class (hd (me_questions mq))) (qu_type (hd (me_questions mq)))"
    obtain hit r1 w1 where l: "(if length (me_questions mq) = 1 then rv_load E key r w else (None, r, w)) = (hit, r1, w1)"
      by (cases "if length (me_questions mq) = 1 then rv_load E key r w else (None, r, w)")
    have k: "cache_ok (rv_cache r1)" using l assms(2) by (auto split: if_splits dest: rv_load_ok)
    show ?thesis using x Inr l k assms(2) exchange_servers_ok [OF _ assms(1) k]
      by (cases hit) (auto simp: resolver_exchange_def Let_def key_def split: if_splits sum.splits option.splits)
  qed (use x assms in \<open>simp add: resolver_exchange_def\<close>)
qed

section \<open>Failover\<close>

text \<open>The results of the name servers that are asked, in order: up to the first that knows an address.\<close>

fun via_results ::
    "'r resolver_env \<Rightarrow> string \<Rightarrow> resolver_state \<Rightarrow> 'r chain option \<Rightarrow> name_server list \<Rightarrow> 'r resolver \<Rightarrow> world
     \<Rightarrow> (io_error + ip_addr list) list" where
  "via_results E host st chain [] r w = []"
| "via_results E host st chain (ns # nss) r w =
     (case resolve_via E ns host st chain r w of
        (x, r, w) \<Rightarrow> x # (case x of Inr (_ # _) \<Rightarrow> [] | _ \<Rightarrow> via_results E host st chain nss r w))"

definition found :: "io_error + ip_addr list \<Rightarrow> bool" where
  "found x = (case x of Inr (_ # _) \<Rightarrow> True | _ \<Rightarrow> False)"

lemma resolve_servers_last:
  "fst (resolve_servers E host st chain nss [] err r w) =
   (case via_results E host st chain nss r w of
      [] \<Rightarrow> (case err of Some e \<Rightarrow> Inl e | None \<Rightarrow> Inr [])
    | x # xs \<Rightarrow> last (x # xs))"
proof (induction nss arbitrary: err r w)
  case (Cons ns nss)
  obtain y r1 w1 where y: "resolve_via E ns host st chain r w = (y, r1, w1)" by (cases "resolve_via E ns host st chain r w")
  show ?case using y Cons.IH [of _ r1 w1]
    by (cases y; cases "via_results E host st chain nss r1 w1") (auto split: list.splits)
qed (auto split: option.splits)

lemma via_results_Nil: "via_results E host st chain nss r w = [] \<longleftrightarrow> nss = []"
  by (cases nss) (auto split: prod.splits)

lemma via_results_shape:
  "length (via_results E host st chain nss r w) \<le> length nss \<and>
   list_all (\<lambda>x. \<not> found x) (butlast (via_results E host st chain nss r w)) \<and>
   (length (via_results E host st chain nss r w) < length nss \<longrightarrow> found (last (via_results E host st chain nss r w)))"
proof (induction nss arbitrary: r w)
  case (Cons ns nss)
  obtain y r1 w1 where y: "resolve_via E ns host st chain r w = (y, r1, w1)" by (cases "resolve_via E ns host st chain r w")
  show ?case using y Cons.IH [of r1 w1]
    by (cases y; cases "via_results E host st chain nss r1 w1") (auto simp: found_def via_results_Nil split: list.splits)
qed simp

section \<open>Properties of the resolver\<close>

text \<open>Questions with different fully qualified names, classes or types never share a cache entry.\<close>

theorem cache_key_injective:
  assumes "n \<noteq> []" "last n = CHR ''.''" "n' \<noteq> []" "last n' = CHR ''.''"
  shows "cache_key n c t = cache_key n' c' t' \<longleftrightarrow> n = n' \<and> c = c' \<and> t = t'"
  using cache_key_eq [OF assms] by blast

theorem cache_key_injective_witness: "cache_key ''a.'' 1 1 \<noteq> cache_key ''a.'' 1 28"
  using cache_key_injective [of "''a.''" "''a.''" 1 1 1 28] by simp


definition demo_env :: "('r resolver \<Rightarrow> 'r resolver) \<Rightarrow> 'r dns_net \<Rightarrow> 'r resolver_env" where
  "demo_env during D =
     \<lparr>re_dns = D, re_now = (\<lambda>i. i), re_random = (\<lambda>i. word_of_nat i), re_during = (\<lambda>_. during), re_lookup = (\<lambda>_ _. Inr [])\<rparr>"

text \<open>A reply without answers, and a resolver that has cached it.\<close>

definition demo_reply :: bytes where
  "demo_reply = [0, 7, 0x81, 0x83, 0, 0, 0, 0, 0, 0, 0, 0]"

definition demo_message :: message where
  "demo_message = \<lparr>me_id = 7, me_flags = 0x8183, me_questions = [], me_answers = [], me_authorities = [], me_additionals = []\<rparr>"

lemma demo_reply_decode: "message_decode demo_reply = Inr demo_message"
  by (simp add: message_decode_def demo_reply_def demo_message_def be16_def) code_simp

definition demo_item :: cache_item where
  "demo_item = \<lparr>ci_bytes = demo_reply, ci_ts = 5, ci_ttl = 0, ci_min_rr_ttl = None\<rparr>"

definition demo_resolver :: "unit resolver" where
  "demo_resolver = (with_servers [name_server_new ''8.8.8.8''])\<lparr>rv_cache := [(''a.IN.A'', demo_item)]\<rparr>"

lemma demo_resolver_ok: "cache_ok (rv_cache demo_resolver)"
  by (auto simp: demo_resolver_def cache_ok_def demo_item_def demo_reply_decode min_answer_ttl_def demo_message_def)


lemma demo_host: "parse_ip ''x.example'' = None"
  by (rule parse_ip_name; simp add: to_digit_def)+

text \<open>A lookup asks the configured name servers in order and stops at the first that knows an address;
  its result is that of the last server asked, an error or an empty list included.\<close>

theorem resolve_failover:
  assumes "host \<noteq> []" "parse_ip host = None" "rs_servers (rv_state r) \<noteq> []"
    "name = (if CHR ''.'' \<notin> set host \<and> rs_domain (rv_state r) \<noteq> [] then host @ ''.'' @ rs_domain (rv_state r) else host)"
    "results = via_results E name (rv_state r) (rv_chain r) (rs_servers (rv_state r)) r w"
  shows "fst (resolver_resolve E host r w) = last results \<and> results \<noteq> [] \<and>
    list_all (\<lambda>x. \<not> found x) (butlast results) \<and> length results \<le> length (rs_servers (rv_state r)) \<and>
    (found (last results) \<or> length results = length (rs_servers (rv_state r)))"
proof -
  let ?nss = "rs_servers (rv_state r)"
  have ne: "results \<noteq> []" using assms(3,5) by (simp add: via_results_Nil)
  have "fst (resolver_resolve E host r w) = last results"
    using assms(1-4) ne resolve_servers_last [of E name "rv_state r" "rv_chain r" ?nss None r w]
    unfolding assms(5) by (auto simp: resolver_resolve_def Let_def split: list.splits)
  then show ?thesis using via_results_shape [of E name "rv_state r" "rv_chain r" ?nss r w] ne
    unfolding assms(5) by linarith
qed

theorem resolve_failover_witness:
  "fst (resolver_resolve (demo_env id (demo_dns [])) ''x.example'' demo_resolver demo_world) =
     last (via_results (demo_env id (demo_dns [])) ''x.example'' (rv_state demo_resolver) None [name_server_new ''8.8.8.8''] demo_resolver demo_world)"
  using resolve_failover [OF _ demo_host _ refl refl, of demo_resolver "demo_env id (demo_dns [])" demo_world]
  by (simp add: demo_resolver_def with_servers_def)

lemma set_msg_id_take: "2 \<le> length reply \<Longrightarrow> take 2 (set_msg_id reply i) = u16_to_be i"
  by (simp add: set_msg_id_def u16_to_be_def)

lemma length_set_msg_id [simp]: "length (set_msg_id reply i) = length reply"
  by (auto simp: set_msg_id_def u16_to_be_def)

lemma take_2: "2 \<le> length xs \<Longrightarrow> take 2 xs = [xs ! 0, xs ! 1]"
  by (cases xs; cases "tl xs") auto

lemma message_decode_id: "message_decode query = Inr mq \<Longrightarrow> u16_to_be (me_id mq) = take 2 query"
  by (auto simp: message_decode_def ebind_Inr be16_def take_2 split: if_splits)

lemma exchange_servers_id:
  "exchange_servers E i key q st chain nss err r w = (Inr reply, r', w') \<Longrightarrow> \<exists>x. reply = set_msg_id x i"
proof (induction nss arbitrary: err r w)
  case (Cons ns nss)
  obtain y r1 w1 where y: "rv_exchange E ns q st chain r w = (y, r1, w1)" by (cases "rv_exchange E ns q st chain r w")
  then show ?case using Cons by (auto split: sum.splits)
qed simp

lemma resolver_exchange_id:
  assumes "resolver_exchange E query r w = (Inr reply, r', w')"
  shows "\<exists>mq x. message_decode query = Inr mq \<and> reply = set_msg_id x (me_id mq)"
  using assms exchange_servers_id
  by (fastforce simp: resolver_exchange_def Let_def split: sum.splits if_splits prod.splits option.splits)

text \<open>Every answer of the DNS proxy carries the identifier of the client's query, and an answer from the
  cache is the cached reply with nothing else changed, for which nothing is sent.\<close>

theorem dns_proxy_answers:
  assumes "resolver_exchange E query r w = (Inr reply, r', w')" "2 \<le> length reply"
  shows "take 2 reply = take 2 query \<and>
    (\<forall>mq q bs cache. message_decode query = Inr mq \<longrightarrow> me_questions mq = [q] \<longrightarrow>
       cache_load (re_now E (wd_tick w)) (cache_key (qu_name q) (qu_class q) (qu_type q)) (rv_cache r) = (Some bs, cache) \<longrightarrow>
       drop 2 reply = drop 2 bs \<and> wd_log w' = wd_log w \<and> rv_cache r' = rv_cache r)"
proof -
  obtain mq x where "message_decode query = Inr mq" "reply = set_msg_id x (me_id mq)" using resolver_exchange_id [OF assms(1)] by blast
  then have "take 2 reply = take 2 query" using assms(2) set_msg_id_take message_decode_id by (metis length_set_msg_id)
  moreover have "cache = c" if "cache_load now key c = (Some bs, cache)" for now key c bs cache
    using that by (auto simp: cache_load_def Let_def split: option.splits if_splits)
  ultimately show ?thesis using assms
    by (fastforce simp: resolver_exchange_def rv_load_def Let_def set_msg_id_def tick_def u16_to_be_def split: if_splits)
qed

section \<open>A client's query for one name\<close>

definition one_question :: "u16 \<Rightarrow> u16 \<Rightarrow> string list \<Rightarrow> u16 \<Rightarrow> u16 \<Rightarrow> bytes" where
  "one_question i flags labels qtype qclass =
     u16_to_be i @ u16_to_be flags @ u16_to_be 1 @ u16_to_be 0 @ u16_to_be 0 @ u16_to_be 0
     @ labels_bytes labels @ u16_to_be qtype @ u16_to_be qclass"

lemma decode_one_question:
  assumes "list_all wire_label ls"
  shows "message_decode (one_question i flags ls t c) =
    Inr \<lparr>me_id = i, me_flags = flags, me_questions = [\<lparr>qu_name = full_name ls, qu_type = t, qu_class = c\<rparr>],
      me_answers = [], me_authorities = [], me_additionals = []\<rparr>"
proof -
  let ?b = "one_question i flags ls t c"
  have f: "be16 ?b 0 = Inr i" "be16 ?b 2 = Inr flags" "be16 ?b 4 = Inr 1" "be16 ?b 6 = Inr 0" "be16 ?b 8 = Inr 0" "be16 ?b 10 = Inr 0"
    by (rule be16_at; simp add: one_question_def u16_to_be_def)+
  have d: "drop 12 ?b = labels_bytes ls @ u16_to_be t @ u16_to_be c" by (simp add: one_question_def u16_to_be_def)
  note n = decode_full_name [OF d assms]
  have d1: "drop (12 + length (labels_bytes ls)) ?b = u16_to_be t @ u16_to_be c" by (rule drop_field [OF d refl])
  have d2: "drop (12 + length (labels_bytes ls) + 2) ?b = u16_to_be c @ []" using drop_field [OF d1, of 2] by simp
  have l: "\<not> length ?b < 12" by (simp add: one_question_def u16_to_be_def)
  show ?thesis using l n be16_at [OF d1] be16_at [OF d2]
    unfolding message_decode_def f ebind_simps by simp
qed

lemma demo_labels: "list_all wire_label [''a'']"
proof -
  have "utf8_valid ''a''" by (rule ascii_utf8) code_simp
  then show ?thesis by (simp add: wire_label_def del: utf8_valid.simps)
qed

theorem dns_proxy_answers_witness:
  "\<exists>reply r' w'. resolver_exchange (demo_env id (demo_dns [])) (one_question 9 0x0100 [''a''] TYPE_A CLASS_IN) demo_resolver demo_world
      = (Inr reply, r', w') \<and> take 2 reply = u16_to_be 9 \<and> drop 2 reply = drop 2 demo_reply \<and> wd_log w' = []"
proof -
  let ?q = "one_question 9 0x0100 [''a''] TYPE_A CLASS_IN" and ?E = "demo_env id (demo_dns [])"
  let ?qu = "\<lparr>qu_name = ''a.'', qu_type = TYPE_A, qu_class = CLASS_IN\<rparr>"
  let ?m = "\<lparr>me_id = 9, me_flags = 0x0100, me_questions = [?qu], me_answers = [], me_authorities = [], me_additionals = []\<rparr>"
  have m: "message_decode ?q = Inr ?m" using decode_one_question [OF demo_labels] by (simp add: full_name_def)
  have k: "cache_key ''a.'' CLASS_IN TYPE_A = ''a.IN.A''" by (simp add: cache_key_def class_name_def type_name_def)
  have l: "cache_load 0 ''a.IN.A'' (rv_cache demo_resolver) = (Some demo_reply, rv_cache demo_resolver)"
    by (simp add: cache_load_def demo_resolver_def demo_item_def)
  have n: "re_now ?E (wd_tick demo_world) = 0" by (simp add: demo_env_def demo_world_def)
  obtain r' w' where x: "resolver_exchange ?E ?q demo_resolver demo_world = (Inr (set_msg_id demo_reply 9), r', w')"
    by (simp add: resolver_exchange_def m rv_load_def n k l)
  have t: "take 2 ?q = u16_to_be 9" by (simp add: one_question_def u16_to_be_def)
  have len: "2 \<le> length (set_msg_id demo_reply 9)" by (simp add: demo_reply_def)
  show ?thesis using dns_proxy_answers [OF x len] x t m k l n
    by (auto simp: demo_world_def)
qed

text \<open>C39. Negative answers are kept for ever: with no lifetime configured, a reply without answer records, an
  error such as SERVFAIL included, is stored without any limit, and from then on every lookup of that name answers
  with no address at any later time, without asking a server again.\<close>

theorem negative_reply_never_expires:
  assumes "message_decode reply = Inr m" "me_answers m = []"
    "rv_cache r = cache_store t (cache_key (fqdn host) CLASS_IN qtype) reply m 0 False cache"
  shows "rv_query E ns host qtype st chain r w = (Inr [], r, tick w)"
proof -
  have "cache_key (fqdn host) CLASS_IN qtype \<noteq> []" by (simp add: cache_key_def)
  then have "map_of (rv_cache r) (cache_key (fqdn host) CLASS_IN qtype) =
      Some \<lparr>ci_bytes = reply, ci_ts = t, ci_ttl = 0, ci_min_rr_ttl = None\<rparr>"
    using assms(2,3) by (simp add: cache_store_def update_conv' min_answer_ttl_def)
  then show ?thesis using assms(1,2) by (simp add: rv_query_def rv_load_def cache_load_def Let_def answer_ips_def)
qed

theorem negative_reply_never_expires_witness:
  "rv_query (demo_env id (demo_dns [])) (name_server_new ''8.8.8.8'') ''a'' TYPE_A (rv_state demo_resolver) None
     (demo_resolver\<lparr>rv_cache := cache_store 5 (cache_key (fqdn ''a'') CLASS_IN TYPE_A) demo_reply demo_message 0 False []\<rparr>) demo_world
   = (Inr [], demo_resolver\<lparr>rv_cache := cache_store 5 (cache_key (fqdn ''a'') CLASS_IN TYPE_A) demo_reply demo_message 0 False []\<rparr>,
      tick demo_world)"
  by (rule negative_reply_never_expires [OF demo_reply_decode, where cache = "[]" and t = 5]) (simp_all add: demo_message_def)

text \<open>A label that contains dots is not told apart from several labels: a query for the single label
  \<open>a.b\<close> decodes to the same message as one for the two labels \<open>a\<close> and \<open>b\<close>, so that the two share a cache entry and a
  client can fill the cache for a name it does not ask about.\<close>

theorem dotted_label_shares_entry:
  assumes "wire_label a" "wire_label b" "wire_label (a @ ''.'' @ b)"
  shows "one_question i flags [a @ ''.'' @ b] t c \<noteq> one_question i flags [a, b] t c \<and>
    message_decode (one_question i flags [a @ ''.'' @ b] t c) = message_decode (one_question i flags [a, b] t c) \<and>
    (\<exists>m. message_decode (one_question i flags [a, b] t c) = Inr m \<and> qu_name (hd (me_questions m)) = a @ ''.'' @ b @ ''.'')"
proof -
  have "unat (word_of_nat (length (a @ ''.'' @ b)) :: u8) = length (a @ ''.'' @ b)" "unat (word_of_nat (length a) :: u8) = length a"
    by (rule label_length_byte(1); use assms in \<open>simp add: wire_label_def\<close>)+
  moreover have "length (a @ ''.'' @ b) \<noteq> length a" by simp
  ultimately have "(word_of_nat (length (a @ ''.'' @ b)) :: u8) \<noteq> word_of_nat (length a)" by metis
  then have "one_question i flags [a @ ''.'' @ b] t c \<noteq> one_question i flags [a, b] t c"
    by (auto simp: one_question_def)
  then show ?thesis using assms by (simp add: decode_one_question full_name_def)
qed

theorem dotted_label_shares_entry_witness:
  "message_decode (one_question 1 0 [''a.b''] 1 1) = message_decode (one_question 1 0 [''a'', ''b''] 1 1)"
proof -
  have "utf8_valid ''a''" "utf8_valid ''b''" "utf8_valid ''a.b''" by (rule ascii_utf8, code_simp)+
  then have "wire_label ''a''" "wire_label ''b''" "wire_label (''a'' @ ''.'' @ ''b'')" by (simp_all add: wire_label_def del: utf8_valid.simps)
  from dotted_label_shares_entry [OF this, of 1 0 1 1] show ?thesis by simp
qed

text \<open>C40. A reload empties the cache so that no answer of a server that is no longer configured is served,
  but a lookup that was waiting during the reload puts the answer of the old server into the
  new cache afterwards.\<close>

theorem stale_reply_survives_reload:
  assumes "rv_load E (cache_key (fqdn host) CLASS_IN qtype) r w = (None, r1, w1)" "rs_src_ip st = None" "\<not> rs_ttl_negative st"
    "message_encode (message_query (re_random E (wd_tick w1)) (fqdn host) qtype) = Inr query"
    "ns_exchange (re_dns E) ns query (effective_timeout st) chain w1 = (Inr reply, w2)" "message_decode reply = Inr mr"
    "re_during E (wd_tick w1) r1 = snd (resolver_reload rd r1)"
  shows "\<exists>r' item. rv_query E ns host qtype st chain r w = (Inr (answer_ips mr), r', tick (tick w2)) \<and>
    rv_state r' = rv_state (snd (resolver_reload rd r1)) \<and>
    map_of (rv_cache r') (cache_key (fqdn host) CLASS_IN qtype) = Some item \<and> ci_bytes item = reply"
proof -
  have "cache_key (fqdn host) CLASS_IN qtype \<noteq> []" by (simp add: cache_key_def)
  then show ?thesis using assms
    by (simp add: rv_query_def rv_exchange_def rv_store_def cache_store_def update_conv')
qed

definition demo_udp :: "unit dns_net" where
  "demo_udp = (demo_dns [])\<lparr>dn_udp := \<lambda>_ _ _ _ _. Some (Inr demo_reply)\<rparr>"

definition demo_file :: reader where
  "demo_file = file_reader [''nameserver 1.1.1.1'']"

lemma demo_exchange:
  "ns_exchange demo_udp (name_server_new ''8.8.8.8'') query timeout chain w = (Inr demo_reply, logged (UdpQuery ''8.8.8.8:53'') w)"
proof -
  have "512 \<le> udp_reply_size query" unfolding udp_reply_size_def by (simp add: max_def word_le_nat_alt)
  then have "take (udp_reply_size query) demo_reply = demo_reply" by (simp add: demo_reply_def)
  then show ?thesis
    by (simp add: ns_exchange_def protocol_kind_def name_server_new_def ns_protocol_parse_def to_ascii_lowercase_def strip_suffix_def
        exchange_udp_def demo_udp_def dial_addr_def ensure_port_def count_char_def)
qed

theorem stale_reply_survives_reload_witness:
  "\<exists>r' item w'. rv_query (demo_env (\<lambda>r. snd (resolver_reload demo_file r)) demo_udp) (name_server_new ''8.8.8.8'') ''b'' TYPE_A
      (rv_state demo_resolver) None demo_resolver demo_world = (Inr [], r', w') \<and>
    rv_state r' = rv_state (snd (resolver_reload demo_file demo_resolver)) \<and>
    map_of (rv_cache r') (cache_key (fqdn ''b'') CLASS_IN TYPE_A) = Some item \<and> ci_bytes item = demo_reply"
proof -
  let ?E = "demo_env (\<lambda>r. snd (resolver_reload demo_file r)) demo_udp"
  have l: "rv_load ?E (cache_key (fqdn ''b'') CLASS_IN TYPE_A) demo_resolver demo_world = (None, demo_resolver, tick demo_world)"
    by (simp add: rv_load_def cache_load_def demo_resolver_def cache_key_def fqdn_def class_name_def type_name_def)
  obtain query where q: "message_encode (message_query (re_random ?E (wd_tick (tick demo_world))) (fqdn ''b'') TYPE_A) = Inr query"
    by (simp add: message_encode_def message_query_def encode_question_def encode_name_def fqdn_def question_new_def)
  have x: "ns_exchange (re_dns ?E) (name_server_new ''8.8.8.8'') query (effective_timeout (rv_state demo_resolver)) None (tick demo_world)
      = (Inr demo_reply, logged (UdpQuery ''8.8.8.8:53'') (tick demo_world))"
    using demo_exchange by (simp add: demo_env_def)
  have "answer_ips demo_message = []" by (simp add: answer_ips_def demo_message_def)
  then show ?thesis
    using stale_reply_survives_reload [OF l _ _ q x demo_reply_decode, of demo_file] by (auto simp: demo_env_def demo_resolver_def with_servers_def)
qed

end
