(* ===== verification/Relay.thy ===== *)
theory Relay
  imports Handler
begin

unbundle bit_operations_syntax

text \<open>
  The relay protocol (\<^verbatim>\<open>src/src/relay.rs\<close>): the stream wrapper with its deferred handshake and, for UDP, its
  datagram framing; the connector and the handler. The number of bytes \<^verbatim>\<open>read_need\<close> the wrapper
  waits for always is the one of its read state, and is a function of it here.
\<close>

section \<open>Constants\<close>

definition RELAY_VERSION1 :: u8 where "RELAY_VERSION1 = 0x01"
definition RELAY_STATUS_OK :: u8 where "RELAY_STATUS_OK = 0x00"
definition RELAY_STATUS_BAD_REQUEST :: u8 where "RELAY_STATUS_BAD_REQUEST = 0x01"
definition RELAY_STATUS_UNAUTHORIZED :: u8 where "RELAY_STATUS_UNAUTHORIZED = 0x02"
definition RELAY_STATUS_FORBIDDEN :: u8 where "RELAY_STATUS_FORBIDDEN = 0x03"
definition RELAY_STATUS_SERVICE_UNAVAILABLE :: u8 where "RELAY_STATUS_SERVICE_UNAVAILABLE = 0x05"
definition RELAY_FLAG_UDP :: u8 where "RELAY_FLAG_UDP = 0x80"
definition FEATURE_USER_AUTH :: u8 where "FEATURE_USER_AUTH = 0x01"
definition FEATURE_ADDR :: u8 where "FEATURE_ADDR = 0x02"
definition ADDR_IPV4 :: u8 where "ADDR_IPV4 = 0x01"
definition ADDR_IPV6 :: u8 where "ADDR_IPV6 = 0x04"
definition ADDR_DOMAIN :: u8 where "ADDR_DOMAIN = 0x03"
definition RELAY_HEADER_LEN :: nat where "RELAY_HEADER_LEN = 4"
definition RELAY_DGRAM_LEN_SIZE :: nat where "RELAY_DGRAM_LEN_SIZE = 2"
definition RELAY_MAX_DATAGRAM :: nat where "RELAY_MAX_DATAGRAM = 0xFFFF"

lemmas relay_consts =
  RELAY_VERSION1_def RELAY_STATUS_OK_def RELAY_STATUS_BAD_REQUEST_def RELAY_STATUS_UNAUTHORIZED_def
  RELAY_STATUS_FORBIDDEN_def RELAY_STATUS_SERVICE_UNAVAILABLE_def RELAY_FLAG_UDP_def FEATURE_USER_AUTH_def
  FEATURE_ADDR_def ADDR_IPV4_def ADDR_IPV6_def ADDR_DOMAIN_def RELAY_HEADER_LEN_def RELAY_DGRAM_LEN_SIZE_def
  RELAY_MAX_DATAGRAM_def

definition relay_status_text :: "u8 \<Rightarrow> string" where
  "relay_status_text status =
     (if status = 0x00 then ''ok'' else if status = 0x01 then ''bad request'' else if status = 0x02 then ''unauthorized''
      else if status = 0x03 then ''forbidden'' else if status = 0x04 then ''timeout''
      else if status = 0x05 then ''service unavailable'' else if status = 0x06 then ''host unreachable''
      else if status = 0x07 then ''network unreachable'' else ''unknown status'')"

section \<open>The stream wrapper\<close>

datatype read_state =
    ReadResponse | ReadResponseFeatures nat | ReadRaw | ReadLength | ReadPayload nat | ReadEof

record relay_conn =
  rc_inner :: proxy_conn
  rc_udp :: bool
  rc_read_state :: read_state
  rc_read_buf :: bytes
  rc_plain :: bytes
  rc_plain_pos :: nat
  rc_pending_header :: bytes
  rc_out :: bytes
  rc_out_pos :: nat

fun read_need :: "read_state \<Rightarrow> nat" where
  "read_need ReadResponse = RELAY_HEADER_LEN"
| "read_need (ReadResponseFeatures n) = n"
| "read_need ReadLength = RELAY_DGRAM_LEN_SIZE"
| "read_need (ReadPayload n) = n"
| "read_need ReadRaw = 0"
| "read_need ReadEof = 0"

definition relay_client :: "proxy_conn \<Rightarrow> bool \<Rightarrow> relay_conn" where
  "relay_client c udp =
     \<lparr>rc_inner = c, rc_udp = udp, rc_read_state = ReadResponse, rc_read_buf = [], rc_plain = [], rc_plain_pos = 0,
      rc_pending_header = [], rc_out = [], rc_out_pos = 0\<rparr>"

definition relay_server :: "proxy_conn \<Rightarrow> bool \<Rightarrow> u8 \<Rightarrow> relay_conn" where
  "relay_server c udp status =
     \<lparr>rc_inner = c, rc_udp = udp, rc_read_state = (if udp then ReadLength else ReadRaw), rc_read_buf = [],
      rc_plain = [], rc_plain_pos = 0, rc_pending_header = [RELAY_VERSION1, status, 0x00, 0x00],
      rc_out = [], rc_out_pos = 0\<rparr>"

definition enter_data_phase :: "relay_conn \<Rightarrow> relay_conn" where
  "enter_data_phase c = c\<lparr>rc_read_state := (if rc_udp c then ReadLength else ReadRaw)\<rparr>"

definition queue_pending_header :: "relay_conn \<Rightarrow> relay_conn" where
  "queue_pending_header c =
     (if rc_pending_header c \<noteq> [] then c\<lparr>rc_out := rc_out c @ rc_pending_header c, rc_pending_header := []\<rparr> else c)"

function relay_poll_fill :: "relay_conn \<Rightarrow> (io_error + bool) poll \<times> relay_conn" where
  "relay_poll_fill c =
     (let need = read_need (rc_read_state c)
      in if length (rc_read_buf c) < need
         then (case conn_poll_read (need - length (rc_read_buf c)) (rc_inner c) of
                 (Pending, i) \<Rightarrow> (Pending, c\<lparr>rc_inner := i\<rparr>)
               | (Ready (Inl e), i) \<Rightarrow> (Ready (Inl e), c\<lparr>rc_inner := i\<rparr>)
               | (Ready (Inr bs), i) \<Rightarrow>
                   if bs = [] then (Ready (Inr False), c\<lparr>rc_inner := i\<rparr>)
                   else relay_poll_fill (c\<lparr>rc_inner := i, rc_read_buf := rc_read_buf c @ bs\<rparr>))
         else (Ready (Inr True), c))"
  by pat_completeness auto
termination
  by (relation "measure (\<lambda>c. conn_weight (rc_inner c))") (auto intro: conn_read_weight [OF sym])

declare relay_poll_fill.simps [simp del]

definition relay_weight :: "relay_conn \<Rightarrow> nat" where
  "relay_weight c = conn_weight (rc_inner c) + length (rc_read_buf c)"

lemma relay_fill_weight:
  "relay_poll_fill c = (Ready (Inr True), c') \<Longrightarrow>
     relay_weight c' \<le> relay_weight c \<and> read_need (rc_read_state c) \<le> length (rc_read_buf c') \<and>
     rc_read_state c' = rc_read_state c \<and> rc_plain c' = rc_plain c \<and> rc_plain_pos c' = rc_plain_pos c"
proof (induction c rule: relay_poll_fill.induct)
  case (1 c)
  show ?case
  proof (cases "length (rc_read_buf c) < read_need (rc_read_state c)")
    case True
    obtain r i where r: "conn_poll_read (read_need (rc_read_state c) - length (rc_read_buf c)) (rc_inner c) = (r, i)"
      by (cases "conn_poll_read (read_need (rc_read_state c) - length (rc_read_buf c)) (rc_inner c)")
    then obtain bs where bs: "r = Ready (Inr bs)" "bs \<noteq> []"
      "relay_poll_fill (c\<lparr>rc_inner := i, rc_read_buf := rc_read_buf c @ bs\<rparr>) = (Ready (Inr True), c')"
      using 1(2) True by (auto simp: relay_poll_fill.simps [of c] Let_def split: poll.splits sum.splits if_splits)
    from 1(1) [OF refl True r [symmetric] bs(1) refl bs(2,3)] conn_read_weight_bytes [OF r [unfolded bs(1)]]
    show ?thesis by (simp add: relay_weight_def)
  next
    case False
    then show ?thesis using 1(2) by (simp add: relay_poll_fill.simps [of c])
  qed
qed

fun state_rank :: "read_state \<Rightarrow> nat" where
  "state_rank (ReadResponseFeatures _) = 1"
| "state_rank (ReadPayload _) = 1"
| "state_rank _ = 0"

text \<open>\<^verbatim>\<open>poll_read\<close> with room for \<open>cap\<close> bytes.\<close>

function relay_poll_read :: "nat \<Rightarrow> relay_conn \<Rightarrow> (io_error + bytes) poll \<times> relay_conn" where
  "relay_poll_read cap c =
     (if rc_plain_pos c < length (rc_plain c)
      then let n = min cap (length (rc_plain c) - rc_plain_pos c);
               out = take n (drop (rc_plain_pos c) (rc_plain c));
               pos = rc_plain_pos c + n
           in (Ready (Inr out),
               if pos = length (rc_plain c) then c\<lparr>rc_plain := [], rc_plain_pos := 0\<rparr> else c\<lparr>rc_plain_pos := pos\<rparr>)
      else if rc_read_state c = ReadEof then (Ready (Inr []), c)
      else if rc_read_state c = ReadRaw
      then (case conn_poll_read cap (rc_inner c) of (r, i) \<Rightarrow> (r, c\<lparr>rc_inner := i\<rparr>))
      else case relay_poll_fill c of
        (Pending, c) \<Rightarrow> (Pending, c)
      | (Ready (Inl e), c) \<Rightarrow> (Ready (Inl e), c)
      | (Ready (Inr False), c) \<Rightarrow>
          (case rc_read_state c of
             ReadResponse \<Rightarrow> (Ready (Inl (IoError UnexpectedEof ''relay: connection closed before the server response'')), c)
           | ReadResponseFeatures _ \<Rightarrow> (Ready (Inl (IoError UnexpectedEof ''relay: connection closed before the server response'')), c)
           | _ \<Rightarrow> if rc_read_buf c = [] then (Ready (Inr []), c\<lparr>rc_read_state := ReadEof\<rparr>)
                  else (Ready (Inl (IoError UnexpectedEof ''relay: truncated datagram'')), c))
      | (Ready (Inr True), c) \<Rightarrow>
          (case rc_read_state c of
             ReadResponse \<Rightarrow>
               let header = rc_read_buf c; c = c\<lparr>rc_read_buf := []\<rparr>
               in if header ! 0 \<noteq> RELAY_VERSION1 then (Ready (Inl (IoError Other ''relay: bad version'')), c)
                  else if header ! 1 \<noteq> RELAY_STATUS_OK
                  then (Ready (Inl (IoError Other (''relay: '' @ relay_status_text (header ! 1)))), c)
                  else let fea_len = unat (u16_from_be (header ! 2) (header ! 3))
                       in relay_poll_read cap
                            (if fea_len > 0 then c\<lparr>rc_read_state := ReadResponseFeatures fea_len\<rparr> else enter_data_phase c)
           | ReadResponseFeatures _ \<Rightarrow> relay_poll_read cap (enter_data_phase (c\<lparr>rc_read_buf := []\<rparr>))
           | ReadLength \<Rightarrow>
               let block = rc_read_buf c; c = c\<lparr>rc_read_buf := []\<rparr>; dlen = unat (u16_from_be (block ! 0) (block ! 1))
               in relay_poll_read cap (if dlen = 0 then c else c\<lparr>rc_read_state := ReadPayload dlen\<rparr>)
           | ReadPayload _ \<Rightarrow>
               relay_poll_read cap (c\<lparr>rc_plain := rc_read_buf c, rc_plain_pos := 0, rc_read_buf := [], rc_read_state := ReadLength\<rparr>)
           | _ \<Rightarrow> (Ready (Inr []), c)))"
  by pat_completeness auto
termination
proof (relation "measures [\<lambda>(_, c). relay_weight c, \<lambda>(_, c). state_rank (rc_read_state c)]", goal_cases)
  case 1
  show ?case by simp
qed (auto dest!: relay_fill_weight [OF sym] simp: relay_weight_def enter_data_phase_def relay_consts split: if_splits)

declare relay_poll_read.simps [simp del]

function relay_flush_out :: "relay_conn \<Rightarrow> (io_error + unit) poll \<times> relay_conn" where
  "relay_flush_out c =
     (if rc_out_pos c < length (rc_out c)
      then (case conn_poll_write (drop (rc_out_pos c) (rc_out c)) (rc_inner c) of
              (Pending, i) \<Rightarrow> (Pending, c\<lparr>rc_inner := i\<rparr>)
            | (Ready (Inl e), i) \<Rightarrow> (Ready (Inl e), c\<lparr>rc_inner := i\<rparr>)
            | (Ready (Inr n), i) \<Rightarrow>
                if n = 0 then (Ready (Inl (IoError WriteZero ''write zero'')), c\<lparr>rc_inner := i\<rparr>)
                else relay_flush_out (c\<lparr>rc_inner := i, rc_out_pos := rc_out_pos c + n\<rparr>))
      else (Ready (Inr ()), c\<lparr>rc_out := [], rc_out_pos := 0\<rparr>))"
  by pat_completeness auto
termination
  by (relation "measure (\<lambda>c. length (rc_out c) - rc_out_pos c)") auto

declare relay_flush_out.simps [simp del]

definition relay_poll_write :: "bytes \<Rightarrow> relay_conn \<Rightarrow> (io_error + nat) poll \<times> relay_conn" where
  "relay_poll_write buf c =
     (if buf = [] then (Ready (Inr 0), c)
      else if rc_udp c \<and> length buf > RELAY_MAX_DATAGRAM
      then (Ready (Inl (IoError Other (''relay: datagram of '' @ show_nat (length buf) @ '' bytes exceeds the ''
              @ show_nat RELAY_MAX_DATAGRAM @ ''-byte maximum''))), c)
      else case relay_flush_out c of
        (Pending, c) \<Rightarrow> (Pending, c)
      | (Ready (Inl e), c) \<Rightarrow> (Ready (Inl e), c)
      | (Ready (Inr _), c) \<Rightarrow>
          if \<not> rc_udp c \<and> rc_pending_header c = []
          then (case conn_poll_write buf (rc_inner c) of (r, i) \<Rightarrow> (r, c\<lparr>rc_inner := i\<rparr>))
          else let c = queue_pending_header c;
                   c = (if rc_udp c then c\<lparr>rc_out := rc_out c @ u16_to_be (word_of_nat (length buf))\<rparr> else c);
                   c = c\<lparr>rc_out := rc_out c @ buf\<rparr>
               in (Ready (Inr (length buf)), snd (relay_flush_out c)))"

definition relay_poll_flush :: "relay_conn \<Rightarrow> (io_error + unit) poll \<times> relay_conn" where
  "relay_poll_flush c =
     (case relay_flush_out (queue_pending_header c) of
        (Ready (Inr _), c) \<Rightarrow> (case conn_poll_flush (rc_inner c) of (r, i) \<Rightarrow> (r, c\<lparr>rc_inner := i\<rparr>))
      | r \<Rightarrow> r)"

definition relay_poll_shutdown :: "relay_conn \<Rightarrow> (io_error + unit) poll \<times> relay_conn" where
  "relay_poll_shutdown c =
     (case relay_flush_out (queue_pending_header c) of
        (Ready (Inr _), c) \<Rightarrow> (case conn_poll_shutdown (rc_inner c) of (r, i) \<Rightarrow> (r, c\<lparr>rc_inner := i\<rparr>))
      | r \<Rightarrow> r)"

section \<open>Reading\<close>

text \<open>A connection that ends without an error.\<close>

definition clean :: "proxy_conn \<Rightarrow> bool" where
  "clean c \<longleftrightarrow> conn_ok c \<and> ending (w_in (px_inner c)) = None"

lemma clean_read:
  assumes "clean c" "conn_poll_read cap c = (r, c')"
  shows "clean c' \<and> (\<forall>e. r \<noteq> Ready (Inl e))"
proof -
  have ok: "conn_ok c'" using conns.read_keeps assms by (auto simp: clean_def)
  show ?thesis
  proof (cases "px_pos c < length (px_prefix c)")
    case True
    then show ?thesis using assms ok by (auto simp: clean_def conn_poll_read_def Let_def split: if_splits)
  next
    case False
    then show ?thesis using assms ok
      by (cases rule: wire_read_cases [of "px_inner c" cap]) (auto simp: clean_def conn_poll_read_def split: if_splits)
  qed
qed

text \<open>The bytes of the wrapped stream that have not been taken apart yet.\<close>

definition raw :: "relay_conn \<Rightarrow> bytes" where
  "raw c = rc_read_buf c @ content (rc_inner c)"

definition fill_ok :: "relay_conn \<Rightarrow> bool" where
  "fill_ok c \<longleftrightarrow> clean (rc_inner c) \<and> length (rc_read_buf c) \<le> read_need (rc_read_state c)"

definition same_control :: "relay_conn \<Rightarrow> relay_conn \<Rightarrow> bool" where
  "same_control c c' \<longleftrightarrow> rc_read_state c' = rc_read_state c \<and> rc_udp c' = rc_udp c \<and> rc_plain c' = rc_plain c
     \<and> rc_plain_pos c' = rc_plain_pos c"

lemma relay_fill_spec:
  assumes "fill_ok c" "relay_poll_fill c = (r, c')"
  shows "fill_ok c' \<and> raw c' = raw c \<and> same_control c c' \<and>
    (r = Pending \<or>
     r = Ready (Inr True) \<and> rc_read_buf c' = take (read_need (rc_read_state c)) (raw c) \<and> read_need (rc_read_state c) \<le> length (raw c) \<or>
     r = Ready (Inr False) \<and> rc_read_buf c' = raw c \<and> length (raw c) < read_need (rc_read_state c))"
  using assms
proof (induction c rule: relay_poll_fill.induct)
  case (1 c)
  let ?need = "read_need (rc_read_state c)"
  have cl: "clean (rc_inner c)" "conn_ok (rc_inner c)" using 1(2) by (simp_all add: fill_ok_def clean_def)
  show ?case
  proof (cases "length (rc_read_buf c) < ?need")
    case True
    obtain x i where x: "conn_poll_read (?need - length (rc_read_buf c)) (rc_inner c) = (x, i)"
      by (cases "conn_poll_read (?need - length (rc_read_buf c)) (rc_inner c)")
    note k = clean_read [OF cl(1) x]
    show ?thesis
    proof (cases x)
      case Pending
      then show ?thesis using 1(2,3) True x k conns.read_pends [OF cl(2) x [unfolded Pending]]
        by (auto simp: relay_poll_fill.simps [of c] fill_ok_def raw_def same_control_def)
    next
      case (Ready y)
      then obtain bs where y: "y = Inr bs" using k by (cases y) auto
      note d = conns.read_delivers [OF cl(2) x [unfolded Ready y]]
      show ?thesis
      proof (cases "bs = []")
        case True
        have "content (rc_inner c) = []" using conns.read_ends [OF cl(2)] x Ready y True \<open>_ < ?need\<close> by fastforce
        then show ?thesis using 1(2,3) \<open>_ < ?need\<close> x k d Ready y True
          by (auto simp: relay_poll_fill.simps [of c] fill_ok_def raw_def same_control_def)
      next
        case False
        let ?c = "c\<lparr>rc_inner := i, rc_read_buf := rc_read_buf c @ bs\<rparr>"
        have "fill_ok ?c" "raw ?c = raw c" using k d \<open>_ < ?need\<close> by (auto simp: fill_ok_def raw_def)
        moreover have "relay_poll_fill ?c = (r, c')" using 1(3) \<open>_ < ?need\<close> x Ready y False by (simp add: relay_poll_fill.simps [of c])
        ultimately show ?thesis using 1(1) [OF refl True x [symmetric] Ready y False] by (simp add: same_control_def)
      qed
    qed
  next
    case False
    then have "length (rc_read_buf c) = ?need" using 1(2) by (simp add: fill_ok_def)
    then show ?thesis using 1(2,3) False by (auto simp: relay_poll_fill.simps [of c] raw_def same_control_def)
  qed
qed

text \<open>A datagram on the wire, and a stream of datagrams seen from a read state.\<close>

definition dgram :: "bytes \<Rightarrow> bytes" where
  "dgram d = u16_to_be (word_of_nat (length d)) @ d"

fun stream_of :: "read_state \<Rightarrow> bytes \<Rightarrow> bytes list \<Rightarrow> bool" where
  "stream_of ReadResponse bs ds =
     (\<exists>fs. length fs \<le> 65535 \<and> bs = [RELAY_VERSION1, RELAY_STATUS_OK] @ u16_to_be (word_of_nat (length fs)) @ fs @ concat (map dgram ds))"
| "stream_of (ReadResponseFeatures n) bs ds = (\<exists>fs. length fs = n \<and> bs = fs @ concat (map dgram ds))"
| "stream_of ReadLength bs ds = (bs = concat (map dgram ds))"
| "stream_of (ReadPayload n) bs ds = (\<exists>d ds'. ds = d # ds' \<and> length d = n \<and> d \<noteq> [] \<and> bs = d @ concat (map dgram ds'))"
| "stream_of ReadRaw bs ds = False"
| "stream_of ReadEof bs ds = (bs = [] \<and> ds = [])"

text \<open>The wrapper has \<open>cur\<close> left of the current datagram and \<open>ds\<close> to come.\<close>

definition relay_at :: "bytes \<Rightarrow> bytes list \<Rightarrow> relay_conn \<Rightarrow> bool" where
  "relay_at cur ds c \<longleftrightarrow> rc_udp c \<and> fill_ok c \<and> list_all (\<lambda>d. length d \<le> 65535) ds \<and>
     stream_of (rc_read_state c) (raw c) ds \<and> rc_plain_pos c \<le> length (rc_plain c) \<and>
     cur = drop (rc_plain_pos c) (rc_plain c)"

definition nonempty :: "bytes list \<Rightarrow> bytes list" where
  "nonempty ds = filter (\<lambda>d. d \<noteq> []) ds"

lemma nonempty_hd: "nonempty ds = d # xs \<Longrightarrow> d \<noteq> []"
  unfolding nonempty_def by (drule filter_eq_ConsD) blast

text \<open>What one poll may answer.\<close>

definition relay_answer :: "nat \<Rightarrow> bytes \<Rightarrow> bytes list \<Rightarrow> (io_error + bytes) poll \<Rightarrow> relay_conn \<Rightarrow> bool" where
  "relay_answer cap cur ds r c' \<longleftrightarrow>
     (\<exists>ds'. r = Pending \<and> cur = [] \<and> relay_at [] ds' c' \<and> nonempty ds' = nonempty ds) \<or>
     (cur \<noteq> [] \<and> r = Ready (Inr (take cap cur)) \<and> relay_at (drop cap cur) ds c') \<or>
     (\<exists>d ds'. cur = [] \<and> nonempty ds = d # nonempty ds' \<and> r = Ready (Inr (take cap d)) \<and> relay_at (drop cap d) ds' c') \<or>
     (cur = [] \<and> nonempty ds = [] \<and> r = Ready (Inr []) \<and> relay_at [] [] c')"

lemma relay_answer_step: "relay_answer cap [] ds' r c' \<Longrightarrow> nonempty ds' = nonempty ds \<Longrightarrow> relay_answer cap [] ds r c'"
  by (simp add: relay_answer_def)

lemma unat_dgram_len: "length d \<le> 65535 \<Longrightarrow> unat (word_of_nat (length d) :: u16) = length d"
  by (simp add: unat_of_nat take_bit_eq_mod)

text \<open>The wrapper after a complete fill, where the loop goes round again.\<close>

definition relay_next :: "relay_conn \<Rightarrow> relay_conn" where
  "relay_next c =
     (let buf = rc_read_buf c; c0 = c\<lparr>rc_read_buf := []\<rparr>
      in case rc_read_state c of
           ReadResponse \<Rightarrow>
             let fea_len = unat (u16_from_be (buf ! 2) (buf ! 3))
             in if fea_len > 0 then c0\<lparr>rc_read_state := ReadResponseFeatures fea_len\<rparr> else enter_data_phase c0
         | ReadResponseFeatures _ \<Rightarrow> enter_data_phase c0
         | ReadLength \<Rightarrow>
             let dlen = unat (u16_from_be (buf ! 0) (buf ! 1))
             in if dlen = 0 then c0 else c0\<lparr>rc_read_state := ReadPayload dlen\<rparr>
         | ReadPayload _ \<Rightarrow> c\<lparr>rc_plain := buf, rc_plain_pos := 0, rc_read_buf := [], rc_read_state := ReadLength\<rparr>
         | _ \<Rightarrow> c)"

lemma relay_poll_read_round:
  assumes "rc_plain_pos c = length (rc_plain c)" "relay_poll_fill c = (Ready (Inr True), c1)"
    "rc_read_state c \<noteq> ReadEof" "rc_read_state c \<noteq> ReadRaw"
    "rc_read_state c = ReadResponse \<Longrightarrow> rc_read_buf c1 ! 0 = RELAY_VERSION1 \<and> rc_read_buf c1 ! 1 = RELAY_STATUS_OK"
  shows "relay_poll_read cap c = relay_poll_read cap (relay_next c1)"
    "(relay_next c1, c) \<in> measures [relay_weight, \<lambda>c. state_rank (rc_read_state c)]"
proof -
  note w = relay_fill_weight [OF assms(2)]
  show "relay_poll_read cap c = relay_poll_read cap (relay_next c1)"
    using assms w
    by (cases "rc_read_state c") (simp_all add: relay_poll_read.simps [of cap c] relay_next_def Let_def)
  show "(relay_next c1, c) \<in> measures [relay_weight, \<lambda>c. state_rank (rc_read_state c)]"
    using assms(3,4) w
    by (cases "rc_read_state c") (auto simp: relay_next_def Let_def relay_weight_def enter_data_phase_def relay_consts)
qed

lemma dgram_simps: "length (dgram d) = 2 + length d" "take 2 (dgram d) = u16_to_be (word_of_nat (length d))"
  "drop 2 (dgram d) = d"
  by (simp_all add: dgram_def u16_to_be_def)

lemma concat_dgrams_short: "length (concat (map dgram ds)) < 2 \<Longrightarrow> ds = []"
  by (cases ds) (auto simp: dgram_simps)

lemma u16_len_roundtrip:
  "length d \<le> 65535 \<Longrightarrow> unat (u16_from_be (u16_to_be (word_of_nat (length d)) ! 0) (u16_to_be (word_of_nat (length d)) ! Suc 0)) = length d"
  by (simp add: unat_dgram_len)

lemma relay_next_at:
  assumes "fill_ok c1" "rc_udp c1" "raw c1 = bs" "rc_read_buf c1 = take (read_need (rc_read_state c1)) bs"
    "read_need (rc_read_state c1) \<le> length bs" "stream_of (rc_read_state c1) bs ds" "list_all (\<lambda>d. length d \<le> 65535) ds"
    "rc_plain_pos c1 = length (rc_plain c1)" "rc_read_state c1 \<noteq> ReadEof"
  shows "(\<exists>ds'. relay_at [] ds' (relay_next c1) \<and> nonempty ds' = nonempty ds) \<or>
    (\<exists>d ds'. ds = d # ds' \<and> d \<noteq> [] \<and> relay_at d ds' (relay_next c1))"
proof -
  have ct: "content (rc_inner c1) = drop (read_need (rc_read_state c1)) bs"
    using assms(3-5) unfolding raw_def by (metis append_eq_conv_conj length_take min.absorb2)
  have cl: "clean (rc_inner c1)" using assms(1) by (simp add: fill_ok_def)
  show ?thesis
  proof (cases "rc_read_state c1")
    case ReadResponse
    then obtain fs where fs: "length fs \<le> 65535"
      "bs = [RELAY_VERSION1, RELAY_STATUS_OK] @ u16_to_be (word_of_nat (length fs)) @ fs @ concat (map dgram ds)" using assms(6) by auto
    have b: "rc_read_buf c1 = [RELAY_VERSION1, RELAY_STATUS_OK] @ u16_to_be (word_of_nat (length fs))"
      "content (rc_inner c1) = fs @ concat (map dgram ds)"
      using assms(4) ct ReadResponse fs(2) by (simp_all add: relay_consts u16_to_be_def)
    have n: "unat (u16_from_be (rc_read_buf c1 ! 2) (rc_read_buf c1 ! 3)) = length fs"
      unfolding b(1) using fs(1) by (simp add: u16_to_be_def unat_dgram_len)
    show ?thesis using ReadResponse n b(2) cl assms
      by (intro disjI1 exI [of _ ds]) (auto simp: relay_next_def Let_def enter_data_phase_def relay_at_def fill_ok_def raw_def)
  next
    case (ReadResponseFeatures n)
    then have "content (rc_inner c1) = concat (map dgram ds)" using assms(6) ct by auto
    then show ?thesis using ReadResponseFeatures cl assms
      by (intro disjI1 exI [of _ ds]) (simp add: relay_next_def Let_def enter_data_phase_def relay_at_def fill_ok_def raw_def)
  next
    case ReadLength
    then obtain d ds' where d: "ds = d # ds'" using assms(5,6) by (cases ds) (auto simp: relay_consts)
    have l: "length d \<le> 65535" using assms(7) d by simp
    have b: "rc_read_buf c1 = u16_to_be (word_of_nat (length d))" "content (rc_inner c1) = d @ concat (map dgram ds')"
      using assms(4,6) ct ReadLength d by (simp_all add: relay_consts dgram_simps)
    have n: "unat (u16_from_be (rc_read_buf c1 ! 0) (rc_read_buf c1 ! Suc 0)) = length d"
      unfolding b(1) by (rule u16_len_roundtrip [OF l])
    show ?thesis
    proof (cases "d = []")
      case True
      then show ?thesis using ReadLength n b(2) cl assms d
        by (intro disjI1 exI [of _ ds']) (simp add: relay_next_def Let_def relay_at_def fill_ok_def raw_def nonempty_def)
    next
      case False
      then show ?thesis using ReadLength n b(2) cl assms d
        by (intro disjI1 exI [of _ ds]) (simp add: relay_next_def Let_def relay_at_def fill_ok_def raw_def)
    qed
  next
    case (ReadPayload n)
    then obtain d ds' where d: "ds = d # ds'" "length d = n" "d \<noteq> []" "bs = d @ concat (map dgram ds')" using assms(6) by auto
    then have "rc_read_buf c1 = d" "content (rc_inner c1) = concat (map dgram ds')" using assms(4) ct ReadPayload by auto
    then show ?thesis using ReadPayload cl assms d
      by (intro disjI2 exI [of _ d] exI [of _ ds']) (simp add: relay_next_def Let_def relay_at_def fill_ok_def raw_def)
  qed (use assms in auto)
qed

lemma relay_poll_read_spec:
  assumes "relay_at cur ds c" "0 < cap" "relay_poll_read cap c = (r, c')"
  shows "relay_answer cap cur ds r c'"
  using assms(1,3)
proof (induction c arbitrary: cur ds rule: wf_induct_rule [OF wf_measures [of "[relay_weight, \<lambda>c. state_rank (rc_read_state c)]"]])
  case (1 c)
  note at = 1(2) [unfolded relay_at_def] and ih = 1(1)
  show ?case
  proof (cases "rc_plain_pos c < length (rc_plain c)")
    case True
    let ?n = "min cap (length (rc_plain c) - rc_plain_pos c)"
    have cur: "cur \<noteq> []" "length cur = length (rc_plain c) - rc_plain_pos c" using at True by auto
    have t: "take ?n (drop (rc_plain_pos c) (rc_plain c)) = take cap cur" using at by (auto simp: min_def)
    have "relay_at (drop cap cur) ds c'" "r = Ready (Inr (take cap cur))"
      using 1(3) at True t by (auto simp: relay_poll_read.simps [of cap c] Let_def relay_at_def fill_ok_def raw_def min_def add.commute split: if_splits)
    then show ?thesis using cur(1) by (simp add: relay_answer_def)
  next
    case False
    then have pos: "rc_plain_pos c = length (rc_plain c)" "cur = []" using at by auto
    show ?thesis
    proof (cases "rc_read_state c = ReadEof")
      case True
      then have "r = Ready (Inr [])" "c' = c" "ds = []" using 1(3) at pos by (auto simp: relay_poll_read.simps [of cap c])
      then show ?thesis using 1(2) pos by (simp add: relay_answer_def nonempty_def)
    next
      case ne: False
      have nr: "rc_read_state c \<noteq> ReadRaw" using at by auto
      obtain x c1 where x: "relay_poll_fill c = (x, c1)" by (cases "relay_poll_fill c")
      note f = relay_fill_spec [OF conjunct1 [OF conjunct2 [OF at]] x]
      have sc: "rc_read_state c1 = rc_read_state c" "rc_udp c1" "rc_plain c1 = rc_plain c" "rc_plain_pos c1 = rc_plain_pos c"
        using f at by (auto simp: same_control_def)
      consider "x = Pending" | "x = Ready (Inr True)" "rc_read_buf c1 = take (read_need (rc_read_state c)) (raw c)" "read_need (rc_read_state c) \<le> length (raw c)"
        | "x = Ready (Inr False)" "rc_read_buf c1 = raw c" "length (raw c) < read_need (rc_read_state c)" using f by blast
      then show ?thesis
      proof cases
        case 1
        then have "r = Pending" "c' = c1" using \<open>relay_poll_read cap c = (r, c')\<close> pos ne nr x by (auto simp: relay_poll_read.simps [of cap c])
        then show ?thesis using pos f at sc by (auto simp: relay_answer_def relay_at_def)
      next
        case 2
        have hd: "rc_read_buf c1 ! 0 = RELAY_VERSION1 \<and> rc_read_buf c1 ! 1 = RELAY_STATUS_OK" if "rc_read_state c = ReadResponse"
          using at that 2(2) by (auto simp: relay_consts u16_to_be_def)
        note rd = relay_poll_read_round [OF pos(1) x [unfolded 2(1)] ne nr hd]
        have q: "relay_poll_read cap (relay_next c1) = (r, c')" using rd(1) [of cap] \<open>relay_poll_read cap c = (r, c')\<close> by simp
        have "(\<exists>ds'. relay_at [] ds' (relay_next c1) \<and> nonempty ds' = nonempty ds) \<or>
            (\<exists>d ds'. ds = d # ds' \<and> d \<noteq> [] \<and> relay_at d ds' (relay_next c1))"
          using f at sc pos ne 2 by (intro relay_next_at [where bs = "raw c"]) auto
        then show ?thesis
        proof (elim disjE exE conjE)
          fix ds'
          assume "relay_at [] ds' (relay_next c1)" "nonempty ds' = nonempty ds"
          then show ?thesis using ih [OF rd(2) _ q] relay_answer_step pos(2) by blast
        next
          fix d ds'
          assume d: "ds = d # ds'" "d \<noteq> []" "relay_at d ds' (relay_next c1)"
          from ih [OF rd(2) d(3) q] d(1,2) pos(2) show ?thesis by (auto simp: relay_answer_def nonempty_def)
        qed
      next
        case 3
        have "rc_read_state c = ReadLength" using at 3 ne
          by (cases "rc_read_state c") (auto simp: relay_consts u16_to_be_def)
        then have "ds = []" "raw c = []" using at 3 concat_dgrams_short [of ds] by (auto simp: relay_consts)
        then have "r = Ready (Inr [])" "c' = c1\<lparr>rc_read_state := ReadEof\<rparr>"
          using \<open>relay_poll_read cap c = (r, c')\<close> pos ne nr x 3 sc \<open>rc_read_state c = ReadLength\<close>
          by (auto simp: relay_poll_read.simps [of cap c])
        moreover have "raw c1 = []" "content (rc_inner c1) = []" using f \<open>raw c = []\<close> by (auto simp: raw_def)
        ultimately show ?thesis using f at sc pos \<open>ds = []\<close> 3 \<open>raw c = []\<close>
          by (auto simp: relay_answer_def relay_at_def fill_ok_def raw_def nonempty_def)
      qed
    qed
  qed
qed

section \<open>Writing\<close>

text \<open>What the wrapper has sent or holds for sending.\<close>

definition committed :: "relay_conn \<Rightarrow> bytes" where
  "committed c = w_out (px_inner (rc_inner c)) @ drop (rc_out_pos c) (rc_out c)"

lemma relay_flush_out_spec:
  assumes "relay_flush_out c = (r, c')"
  shows "committed c' = committed c \<and> rc_pending_header c' = rc_pending_header c \<and> rc_udp c' = rc_udp c \<and>
    (\<forall>u. r = Ready (Inr u) \<longrightarrow> rc_out c' = [] \<and> rc_out_pos c' = 0)"
  using assms
proof (induction c rule: relay_flush_out.induct)
  case (1 c)
  show ?case
  proof (cases "rc_out_pos c < length (rc_out c)")
    case True
    obtain x i where x: "conn_poll_write (drop (rc_out_pos c) (rc_out c)) (rc_inner c) = (x, i)"
      by (cases "conn_poll_write (drop (rc_out_pos c) (rc_out c)) (rc_inner c)")
    note o = conn_poll_write_out [OF x]
    show ?thesis
    proof (cases "\<exists>n. x = Ready (Inr n) \<and> n \<noteq> 0")
      case True
      then obtain n where n: "x = Ready (Inr n)" "n \<noteq> 0" by blast
      let ?c = "c\<lparr>rc_inner := i, rc_out_pos := rc_out_pos c + n\<rparr>"
      have "committed ?c = committed c" using o(1) n
        by (simp add: committed_def) (metis add.commute append_take_drop_id drop_drop)
      moreover have "relay_flush_out ?c = (r, c')" using 1(2) \<open>_ < length _\<close> x n by (simp add: relay_flush_out.simps [of c])
      ultimately show ?thesis using 1(1) [OF \<open>_ < length _\<close> x [symmetric] n(1) refl n(2)] by simp
    next
      case False
      then show ?thesis using 1(2) \<open>_ < length _\<close> x o
        by (auto simp: relay_flush_out.simps [of c] committed_def split: poll.splits sum.splits)
    qed
  next
    case False
    then show ?thesis using 1(2) by (auto simp: relay_flush_out.simps [of c] committed_def)
  qed
qed

lemma queue_pending_header_spec:
  assumes "rc_out_pos c \<le> length (rc_out c)"
  shows "committed (queue_pending_header c) = committed c @ rc_pending_header c \<and> rc_pending_header (queue_pending_header c) = [] \<and>
    rc_udp (queue_pending_header c) = rc_udp c"
  using assms by (simp add: queue_pending_header_def committed_def)

lemma relay_flush_out_pos: "relay_flush_out c = (r, c') \<Longrightarrow> rc_out_pos c \<le> length (rc_out c) \<Longrightarrow> rc_out_pos c' \<le> length (rc_out c')"
proof (induction c rule: relay_flush_out.induct)
  case (1 c)
  obtain x i where x: "conn_poll_write (drop (rc_out_pos c) (rc_out c)) (rc_inner c) = (x, i)"
    by (cases "conn_poll_write (drop (rc_out_pos c) (rc_out c)) (rc_inner c)")
  note n = conn_poll_write_out(2) [OF x]
  show ?case
  proof (cases "rc_out_pos c < length (rc_out c)")
    case True
    then show ?thesis using 1(2,3) x n 1(1) [OF True x [symmetric]]
      by (fastforce simp: relay_flush_out.simps [of c] split: poll.splits sum.splits if_splits)
  qed (use 1(2) in \<open>auto simp: relay_flush_out.simps [of c]\<close>)
qed

text \<open>A datagram that was accepted is framed behind everything before it, the response header first.\<close>

lemma relay_write_datagram:
  assumes "relay_poll_write d c = (r, c')" "rc_udp c" "d \<noteq> []" "rc_out_pos c \<le> length (rc_out c)"
  shows "rc_udp c' \<and> rc_out_pos c' \<le> length (rc_out c') \<and>
    (case r of Ready (Inr n) \<Rightarrow> n = length d \<and> length d \<le> 65535 \<and> rc_pending_header c' = [] \<and>
         committed c' = committed c @ rc_pending_header c @ dgram d
     | _ \<Rightarrow> rc_pending_header c' = rc_pending_header c \<and> committed c' = committed c)"
proof (cases "length d > RELAY_MAX_DATAGRAM")
  case True
  then show ?thesis using assms by (auto simp: relay_poll_write_def)
next
  case False
  obtain x c1 where x: "relay_flush_out c = (x, c1)" by (cases "relay_flush_out c")
  note f = relay_flush_out_spec [OF x] relay_flush_out_pos [OF x assms(4)]
  show ?thesis
  proof (cases "\<exists>u. x = Ready (Inr u)")
    case True
    then have e: "rc_out c1 = []" "rc_out_pos c1 = 0" using f by auto
    let ?c = "(queue_pending_header c1)\<lparr>rc_out := rc_out (queue_pending_header c1) @ dgram d\<rparr>"
    have q: "rc_out_pos (queue_pending_header c1) = 0" "rc_udp (queue_pending_header c1)" "rc_pending_header (queue_pending_header c1) = []"
      "w_out (px_inner (rc_inner (queue_pending_header c1))) @ rc_out (queue_pending_header c1) = committed c @ rc_pending_header c"
      using f e assms(2) by (auto simp: queue_pending_header_def committed_def)
    obtain y c2 where y: "relay_flush_out ?c = (y, c2)" by (cases "relay_flush_out ?c")
    have "c' = c2" "r = Ready (Inr (length d))"
      using assms x True False f q(2) y by (auto simp: relay_poll_write_def Let_def dgram_def)
    moreover have "committed c2 = committed c @ rc_pending_header c @ dgram d"
      using relay_flush_out_spec [OF y] q by (simp add: committed_def)
    ultimately show ?thesis using relay_flush_out_spec [OF y] relay_flush_out_pos [OF y] q False by (simp add: relay_consts)
  next
    case other: False
    then have "c' = c1" "r = Pending \<or> (\<exists>e. r = Ready (Inl e))"
      using assms x False by (auto simp: relay_poll_write_def split: poll.splits sum.splits)
    then show ?thesis using f assms(2) by auto
  qed
qed

lemma relay_flush_spec:
  assumes "relay_poll_flush c = (r, c')" "rc_out_pos c \<le> length (rc_out c)"
  shows "committed c' = committed c @ rc_pending_header c \<and> rc_pending_header c' = [] \<and> rc_udp c' = rc_udp c \<and>
    rc_out_pos c' \<le> length (rc_out c') \<and> (r = Ready (Inr ()) \<longrightarrow> w_out (px_inner (rc_inner c')) = committed c')"
proof -
  let ?q = "queue_pending_header c"
  obtain x c1 where x: "relay_flush_out ?q = (x, c1)" by (cases "relay_flush_out ?q")
  have p: "rc_out_pos ?q \<le> length (rc_out ?q)" using assms(2) by (simp add: queue_pending_header_def)
  note f = relay_flush_out_spec [OF x] relay_flush_out_pos [OF x p] queue_pending_header_spec [OF assms(2)]
  show ?thesis using assms(1) x f
    by (auto simp: relay_poll_flush_def conn_poll_flush_def wire_flush_def committed_def split: poll.splits sum.splits)
qed

section \<open>Datagrams from end to end\<close>

text \<open>Any sequence of polls of the sending side, with the datagrams it accepted.\<close>

inductive relay_sends :: "relay_conn \<Rightarrow> bytes list \<Rightarrow> relay_conn \<Rightarrow> bool" for c where
  send_start: "relay_sends c [] c"
| send_ok: "relay_sends c ds c1 \<Longrightarrow> d \<noteq> [] \<Longrightarrow> relay_poll_write d c1 = (Ready (Inr n), c2) \<Longrightarrow> relay_sends c (ds @ [d]) c2"
| send_pending: "relay_sends c ds c1 \<Longrightarrow> d \<noteq> [] \<Longrightarrow> relay_poll_write d c1 = (Pending, c2) \<Longrightarrow> relay_sends c ds c2"
| send_flush: "relay_sends c ds c1 \<Longrightarrow> relay_poll_flush c1 = (r, c2) \<Longrightarrow> relay_sends c ds c2"

text \<open>Any sequence of polls of the receiving side with room for \<open>cap\<close> bytes, with what they delivered.\<close>

inductive relay_receives :: "nat \<Rightarrow> relay_conn \<Rightarrow> bytes list \<Rightarrow> relay_conn \<Rightarrow> bool" for cap c where
  receive_start: "relay_receives cap c [] c"
| receive_ok: "relay_receives cap c bss c1 \<Longrightarrow> relay_poll_read cap c1 = (Ready (Inr bs), c2) \<Longrightarrow> bs \<noteq> [] \<Longrightarrow>
    relay_receives cap c (bss @ [bs]) c2"
| receive_pending: "relay_receives cap c bss c1 \<Longrightarrow> relay_poll_read cap c1 = (Pending, c2) \<Longrightarrow> relay_receives cap c bss c2"

lemma relay_sends_spec:
  assumes "relay_sends (relay_server s True RELAY_STATUS_OK) ds c" "w_out (px_inner s) = []"
  shows "rc_udp c \<and> rc_out_pos c \<le> length (rc_out c) \<and> list_all (\<lambda>d. d \<noteq> [] \<and> length d \<le> 65535) ds \<and>
    committed c @ rc_pending_header c = [RELAY_VERSION1, RELAY_STATUS_OK, 0, 0] @ concat (map dgram ds) \<and>
    (ds \<noteq> [] \<longrightarrow> rc_pending_header c = [])"
  using assms
proof (induction rule: relay_sends.induct)
  case send_start
  then show ?case by (simp add: relay_server_def committed_def)
next
  case (send_ok ds c1 d n c2)
  then show ?case using relay_write_datagram [OF send_ok(3)] by auto
next
  case (send_pending ds c1 d c2)
  then show ?case using relay_write_datagram [OF send_pending(3)] by auto
next
  case (send_flush ds c1 r c2)
  then show ?case using relay_flush_spec [OF send_flush(2)] by auto
qed

lemma relay_receives_spec:
  assumes "relay_receives cap c bss c'" "relay_at [] ds c" "list_all (\<lambda>d. length d \<le> cap) ds" "0 < cap"
  shows "\<exists>ds'. relay_at [] ds' c' \<and> nonempty ds = bss @ nonempty ds' \<and> list_all (\<lambda>d. length d \<le> cap) (nonempty ds)"
  using assms(1)
proof (induction rule: relay_receives.induct)
  case receive_start
  show ?case using assms(2,3) by (auto simp: nonempty_def list_all_iff)
next
  case (receive_ok bss c1 bs c2)
  then obtain ds' where d: "relay_at [] ds' c1" "nonempty ds = bss @ nonempty ds'" "list_all (\<lambda>d. length d \<le> cap) (nonempty ds)" by blast
  from relay_poll_read_spec [OF d(1) assms(4) receive_ok(2)] receive_ok(3) d
  show ?case by (auto simp: relay_answer_def)
next
  case (receive_pending bss c1 c2)
  then obtain ds' where d: "relay_at [] ds' c1" "nonempty ds = bss @ nonempty ds'" "list_all (\<lambda>d. length d \<le> cap) (nonempty ds)" by blast
  from relay_poll_read_spec [OF d(1) assms(4) receive_pending(2)] d show ?case by (auto simp: relay_answer_def)
qed

lemma relay_client_at:
  assumes "clean i" "content i = [RELAY_VERSION1, RELAY_STATUS_OK, 0, 0] @ concat (map dgram ds)" "list_all (\<lambda>d. length d \<le> 65535) ds"
  shows "relay_at [] ds (relay_client i True)"
  using assms by (auto simp: relay_at_def relay_client_def fill_ok_def raw_def u16_to_be_def intro!: exI [of _ "[]"])

section \<open>Properties of the stream wrapper\<close>


definition demo_link :: "bytes \<Rightarrow> proxy_conn" where
  "demo_link bs = layered \<lparr>w_in = [Data bs], w_out = [], w_acc = [], w_fin = False\<rparr> None None"

lemma demo_link_facts: "bs \<noteq> [] \<Longrightarrow> clean (demo_link bs) \<and> content (demo_link bs) = bs" "w_out (px_inner (demo_link bs)) = []"
  by (simp_all add: demo_link_def clean_def conn_ok_def layered_def content_def buffered_def conn_new_def)

text \<open>A server that has written one datagram, and a client that reads it.\<close>

definition demo_sender :: relay_conn where
  "demo_sender = snd (relay_poll_write [1, 2] (relay_server (demo_link []) True RELAY_STATUS_OK))"

definition demo_receiver :: relay_conn where
  "demo_receiver = relay_client (demo_link [1, 0, 0, 0, 0, 2, 1, 2]) True"

lemma demo_write:
  "relay_poll_write [1, 2] (relay_server (demo_link []) True RELAY_STATUS_OK) =
     (Ready (Inr 2), relay_server (demo_link []) True RELAY_STATUS_OK
        \<lparr>rc_pending_header := [], rc_inner := (demo_link [])\<lparr>px_inner := (px_inner (demo_link []))\<lparr>w_out := [1, 0, 0, 0, 0, 2, 1, 2]\<rparr>\<rparr>\<rparr>)"
  by (simp add: relay_poll_write_def relay_server_def relay_flush_out.simps relay_consts queue_pending_header_def Let_def
      demo_link_def layered_def conn_new_def conn_poll_write_def wire_write_def u16_to_be_def)

lemma demo_sends: "relay_sends (relay_server (demo_link []) True RELAY_STATUS_OK) ([] @ [[1, 2]]) demo_sender"
proof (rule relay_sends.send_ok [OF relay_sends.send_start])
  show "relay_poll_write [1, 2] (relay_server (demo_link []) True RELAY_STATUS_OK) = (Ready (Inr 2), demo_sender)"
    unfolding demo_sender_def by (simp add: prod_eq_iff demo_write)
qed simp

lemma demo_flush: "relay_poll_flush demo_sender = (Ready (Inr ()), snd (relay_poll_flush demo_sender))"
  "w_out (px_inner (rc_inner (snd (relay_poll_flush demo_sender)))) = [1, 0, 0, 0, 0, 2, 1, 2]"
proof -
  have e: "demo_sender = relay_server (demo_link []) True RELAY_STATUS_OK
      \<lparr>rc_pending_header := [], rc_inner := (demo_link [])\<lparr>px_inner := (px_inner (demo_link []))\<lparr>w_out := [1, 0, 0, 0, 0, 2, 1, 2]\<rparr>\<rparr>\<rparr>"
    unfolding demo_sender_def demo_write by simp
  show "relay_poll_flush demo_sender = (Ready (Inr ()), snd (relay_poll_flush demo_sender))"
    "w_out (px_inner (rc_inner (snd (relay_poll_flush demo_sender)))) = [1, 0, 0, 0, 0, 2, 1, 2]"
    unfolding e by (simp_all add: relay_poll_flush_def queue_pending_header_def relay_flush_out.simps
        relay_server_def conn_poll_flush_def wire_flush_def)
qed

lemma demo_receives: "relay_receives 8 demo_receiver ([] @ [[1, 2]]) (snd (relay_poll_read 8 demo_receiver))"
proof (rule relay_receives.receive_ok [OF relay_receives.receive_start])
  show "relay_poll_read 8 demo_receiver = (Ready (Inr [1, 2]), snd (relay_poll_read 8 demo_receiver))"
    by (simp add: prod_eq_iff) code_simp
qed simp


text \<open>A peer that closes after the length of a datagram and before its first byte is taken for one that
  closed between datagrams: the read reports a regular end of stream and not a truncated datagram.\<close>

theorem relay_missing_payload_unnoticed:
  assumes "clean i" "content i = u16_to_be (word_of_nat n)" "0 < n" "n \<le> 65535" "0 < cap"
    "relay_poll_read cap (relay_server i True RELAY_STATUS_OK) = (r, c)"
  shows "r = Pending \<or> r = Ready (Inr [])"
proof -
  let ?c = "relay_server i True RELAY_STATUS_OK"
  have st: "fill_ok ?c" "rc_read_state ?c = ReadLength" "raw ?c = u16_to_be (word_of_nat n)" "rc_plain ?c = []" "rc_plain_pos ?c = 0"
    using assms(1,2) by (simp_all add: relay_server_def fill_ok_def raw_def)
  obtain x c1 where x: "relay_poll_fill ?c = (x, c1)" by (cases "relay_poll_fill ?c")
  note f = relay_fill_spec [OF st(1) x]
  have sc: "rc_read_state c1 = ReadLength" "rc_plain c1 = []" "rc_plain_pos c1 = 0" using f st by (auto simp: same_control_def)
  have nx: "unat (u16_from_be (u16_to_be (word_of_nat n :: u16) ! 0) (u16_to_be (word_of_nat n) ! Suc 0)) = n"
    using u16_len_roundtrip [of "replicate n 0"] assms(4) by simp
  consider "x = Pending" | "x = Ready (Inr True)" "rc_read_buf c1 = u16_to_be (word_of_nat n)"
    using f st(2,3) by (auto simp: relay_consts u16_to_be_def)
  then show ?thesis
  proof cases
    case 1
    then show ?thesis using assms(6) x st by (simp add: relay_poll_read.simps [of cap ?c])
  next
    case 2
    let ?d = "relay_next c1"
    have d: "?d = c1\<lparr>rc_read_buf := [], rc_read_state := ReadPayload n\<rparr>"
      using sc(1) 2(2) nx assms(3) by (simp add: relay_next_def)
    have q: "relay_poll_read cap ?d = (r, c)"
      using relay_poll_read_round(1) [OF _ x [unfolded 2(1)], of cap] assms(6) st by simp
    have ok: "fill_ok ?d" "raw ?d = []" using f 2(2) st(3) unfolding d by (auto simp: fill_ok_def raw_def)
    obtain y c2 where y: "relay_poll_fill ?d = (y, c2)" by (cases "relay_poll_fill ?d")
    note g = relay_fill_spec [OF ok(1) y]
    have "rc_read_state c2 = ReadPayload n" using g d by (simp add: same_control_def)
    moreover have "y = Pending \<or> y = Ready (Inr False) \<and> rc_read_buf c2 = []" using g ok(2) d assms(3) by auto
    ultimately show ?thesis using q y d sc by (auto simp: relay_poll_read.simps [of cap "c1\<lparr>rc_read_buf := [], rc_read_state := ReadPayload n\<rparr>"])
  qed
qed

theorem relay_missing_payload_unnoticed_witness:
  "fst (relay_poll_read 8 (relay_server (demo_link (u16_to_be (word_of_nat 3))) True RELAY_STATUS_OK)) \<in> {Pending, Ready (Inr [])}"
  using relay_missing_payload_unnoticed [of "demo_link (u16_to_be (word_of_nat 3))" 3 8, OF _ _ _ _ _ surjective_pairing]
  by (simp add: demo_link_def clean_def conn_ok_def layered_def content_def buffered_def u16_to_be_def conn_new_def)

end
