(* ===== verification/RelayServer.thy ===== *)
theory RelayServer
  imports Relay Socks5Server
begin

unbundle bit_operations_syntax

text \<open>
  The two ends of a relay connection (\<^verbatim>\<open>RelayConnector\<close> and \<^verbatim>\<open>RelayHandler\<close> of \<^verbatim>\<open>src/src/relay.rs\<close>). The
  handler keeps a group of fixed targets; the failure markers of its nodes are threaded through.
\<close>

section \<open>The connector\<close>

definition relay_split_host_port :: "string \<Rightarrow> (string \<times> string) option" where
  "relay_split_host_port addr =
     (case strip_prefix_char CHR ''['' addr of
        Some rest \<Rightarrow>
          (case split_once CHR '']'' rest of
             None \<Rightarrow> None
           | Some (host, rest) \<Rightarrow> (case strip_prefix_char CHR '':'' rest of None \<Rightarrow> None | Some port \<Rightarrow> Some (host, port)))
      | None \<Rightarrow> rsplit_once CHR '':'' addr)"

definition relay_feature_bytes :: "u8 \<Rightarrow> bytes \<Rightarrow> bytes" where
  "relay_feature_bytes t data = t # u16_to_be (word_of_nat (length data)) @ data"

definition relay_user_data :: "string \<Rightarrow> string \<Rightarrow> bytes" where
  "relay_user_data u p = usize_as_u8 (length u) # as_bytes u @ usize_as_u8 (length p) # as_bytes p"

definition relay_addr_data :: "string \<Rightarrow> u16 \<Rightarrow> bytes" where
  "relay_addr_data host port =
     (case parse_v4 host of
        Some (a, b, c, d) \<Rightarrow> [ADDR_IPV4, a, b, c, d]
      | None \<Rightarrow>
          (case parse_v6 host of
             Some gs \<Rightarrow> ADDR_IPV6 # v6_octets gs
           | None \<Rightarrow> ADDR_DOMAIN # usize_as_u8 (length host) # as_bytes host))
     @ u16_to_be port"

definition relay_request :: "credentials \<Rightarrow> bool \<Rightarrow> string \<Rightarrow> handler_error + bytes" where
  "relay_request user udp address =
     (let features =
        (case user of
           Some (u, p) \<Rightarrow> relay_feature_bytes FEATURE_USER_AUTH (relay_user_data u (or_empty p))
         | None \<Rightarrow> [])
        @ (if address \<noteq> []
           then (case relay_split_host_port address of
                   Some (host, port_str) \<Rightarrow>
                     (case parse_u16 port_str of
                        Some port \<Rightarrow> relay_feature_bytes FEATURE_ADDR (relay_addr_data host (word_of_nat port))
                      | None \<Rightarrow> [])
                 | None \<Rightarrow> [])
           else [])
      in if length features > 65535 then Inl (HandlerProxy ''relay: feature block too large'')
         else Inr ([RELAY_VERSION1, if udp then RELAY_FLAG_UDP else 0] @ u16_to_be (word_of_nat (length features)) @ features))"

text \<open>\<^verbatim>\<open>connect\<close>; the wrapper around the connection is made where it succeeds.\<close>

definition relay_connect :: "credentials \<Rightarrow> string \<Rightarrow> string \<Rightarrow> proxy_conn \<Rightarrow> (handler_error + relay_conn) \<times> proxy_conn" where
  "relay_connect user network address c =
     (let udp = (network \<in> set [''udp'', ''udp4'', ''udp6''])
      in case io_bind (io_try (relay_request user udp address)) (io_write HandlerIo) c of
           (Inl e, c) \<Rightarrow> (Inl e, c)
         | (Inr _, c) \<Rightarrow> (Inr (relay_client c udp), c))"

section \<open>The handler\<close>

text \<open>\<^verbatim>\<open>RelayHandler::new\<close>; \<open>marker\<close> numbers the fresh failure markers of the nodes.\<close>

definition relay_group :: "nat \<Rightarrow> string \<Rightarrow> node_group" where
  "relay_group marker raddr =
     (let addrs = filter (\<lambda>a. a \<noteq> []) (split_char CHR '','' raddr)
      in foldl (\<lambda>g (i, a). group_add_node ((node_default (marker + i))\<lparr>nd_id := i + 1, nd_addr := a\<rparr>) g)
           (group_new []) (enumerate 0 addrs))"

definition parse_relay_addr :: "bytes \<Rightarrow> string \<times> u16" where
  "parse_relay_addr data =
     (if data = [] then ([], 0)
      else if data ! 0 = ADDR_IPV4 \<and> length data \<ge> 7
      then (show_v4 (data ! 1) (data ! 2) (data ! 3) (data ! 4), u16_from_be (data ! 5) (data ! 6))
      else if data ! 0 = ADDR_IPV6 \<and> length data \<ge> 19
      then (show_v6 (v6_of_octets (take 16 (drop 1 data))), u16_from_be (data ! 17) (data ! 18))
      else if data ! 0 = ADDR_DOMAIN \<and> length data \<ge> 2
      then let dlen = unat (data ! 1)
           in if length data \<ge> 2 + dlen + 2
              then (from_utf8_lossy (take dlen (drop 2 data)), u16_from_be (data ! (2 + dlen)) (data ! (3 + dlen)))
              else ([], 0)
      else ([], 0))"

type_synonym relay_info = "string \<times> string \<times> string"

definition relay_feature :: "u8 \<Rightarrow> bytes \<Rightarrow> relay_info \<Rightarrow> relay_info" where
  "relay_feature ftype fdata info =
     (case info of (user, pass, raddr) \<Rightarrow>
        if ftype = FEATURE_USER_AUTH
        then (if fdata \<noteq> []
              then let ulen = unat (fdata ! 0)
                   in if 1 + ulen < length fdata
                      then let user = from_utf8_lossy (take ulen (drop 1 fdata)); plen = unat (fdata ! (1 + ulen))
                           in if 2 + ulen + plen \<le> length fdata
                              then (user, from_utf8_lossy (take plen (drop (2 + ulen) fdata)), raddr)
                              else (user, pass, raddr)
                      else info
              else info)
        else if ftype = FEATURE_ADDR \<and> fdata \<noteq> []
        then (case parse_relay_addr fdata of (host, port) \<Rightarrow> (user, pass, host @ '':'' @ show_nat (unat port)))
        else info)"

function relay_features :: "bytes \<Rightarrow> nat \<Rightarrow> relay_info \<Rightarrow> relay_info" where
  "relay_features buf pos info =
     (if pos < length buf
      then if pos + 1 + 2 > length buf then info
           else let flen = unat (u16_from_be (buf ! (pos + 1)) (buf ! (pos + 2)))
                in if pos + 3 + flen > length buf then info
                   else relay_features buf (pos + 3 + flen) (relay_feature (buf ! pos) (take flen (drop (pos + 3) buf)) info)
      else info)"
  by pat_completeness auto
termination
  by (relation "measure (\<lambda>(buf, pos, _). length buf - pos)") auto

declare relay_features.simps [simp del]

definition send_relay_reply :: "u8 \<Rightarrow> (handler_error, unit) io" where
  "send_relay_reply status = io_write HandlerIo [RELAY_VERSION1, status, 0x00, 0x00]"

definition relay_refuse :: "u8 \<Rightarrow> handler_error \<Rightarrow> (handler_error, 'a) io" where
  "relay_refuse status e = io_bind (send_relay_reply status) (\<lambda>_. io_err e)"

text \<open>The decision on a request: its features, and whether there are no fixed targets.\<close>

definition relay_decide :: "('r, 'n) handler_options \<Rightarrow> bool \<Rightarrow> bool \<Rightarrow> bytes \<Rightarrow> (handler_error, bool \<times> string) io" where
  "relay_decide ho no_targets udp features =
     (case relay_features features 0 ([], [], []) of (user, pass, raddr) \<Rightarrow>
        if (case ho_authenticator ho of Some auth \<Rightarrow> \<not> auth user pass | None \<Rightarrow> False)
        then relay_refuse RELAY_STATUS_UNAUTHORIZED AuthFailed
        else if raddr = [] \<and> no_targets
        then relay_refuse RELAY_STATUS_BAD_REQUEST (HandlerProxy ''relay: no target address'')
        else if \<not> allowed ho (if udp then ''udp'' else ''tcp'') raddr
        then relay_refuse RELAY_STATUS_FORBIDDEN Forbidden
        else io_ok (udp, raddr))"

text \<open>Reading and deciding: whether the request is for UDP, and the address the client asked for.\<close>

definition relay_admit :: "('r, 'n) handler_options \<Rightarrow> bool \<Rightarrow> (handler_error, bool \<times> string) io" where
  "relay_admit ho no_targets =
     io_bind (io_read HandlerIo RELAY_HEADER_LEN) (\<lambda>header.
     if header ! 0 \<noteq> RELAY_VERSION1 then io_err (HandlerProxy ''relay: bad version'')
     else
       let udp = (header ! 1 AND RELAY_FLAG_UDP \<noteq> 0);
           features_len = unat (u16_from_be (header ! 2) (header ! 3))
       in io_bind (if features_len > 0 then io_read HandlerIo features_len else io_ok [])
            (relay_decide ho no_targets udp))"

text \<open>The whole: the error, or the wrapped client and the dialled connection that are spliced.\<close>

definition relay_handle ::
    "('r, 'n, 't) host \<Rightarrow> sel_env \<Rightarrow> ('r, 'n) handler_options \<Rightarrow> node_group \<Rightarrow> proxy_conn \<Rightarrow> world
     \<Rightarrow> (handler_error + relay_conn \<times> proxy_conn) \<times> proxy_conn \<times> world \<times> node_group \<times> markers" where
  "relay_handle H e ho g c w =
     (case relay_admit ho (ng_nodes g = []) c of
        (Inl err, c) \<Rightarrow> (Inl err, c, w, g, env_markers e)
      | (Inr (udp, raddr), c) \<Rightarrow>
          let (sel, g, _) = (if ng_nodes g \<noteq> [] then group_next e g else (Inl NoneAvailable, g, []));
              node = (case sel of Inr n \<Rightarrow> n | Inl _ \<Rightarrow> node_default (env_fresh e));
              target = (case sel of Inr n \<Rightarrow> nd_addr n | Inl _ \<Rightarrow> raddr)
          in case chain_dial (ht_net H) (the_chain ho) target w of
               (Inr cc, w) \<Rightarrow>
                 (Inr (relay_server c udp RELAY_STATUS_OK, cc), c, w, g, reset_dead node (env_markers e))
             | (Inl err, w) \<Rightarrow>
                 (case relay_refuse RELAY_STATUS_SERVICE_UNAVAILABLE (HandlerChain err) c of
                    (r, c) \<Rightarrow> (r, c, w, g, mark_dead (env_now e) node (env_markers e))))"

section \<open>Features\<close>

lemma relay_features_step:
  assumes "drop pos buf = relay_feature_bytes t data @ rest" "length data \<le> 65535"
  shows "relay_features buf pos info = relay_features buf (pos + 3 + length data) (relay_feature t data info)"
    "drop (pos + 3 + length data) buf = rest"
proof -
  have l: "pos + 3 + length data + length rest = length buf"
    using arg_cong [OF assms(1), of length] by (cases "pos \<le> length buf") (simp_all add: relay_feature_bytes_def u16_to_be_def)
  have n: "buf ! (pos + i) = (relay_feature_bytes t data @ rest) ! i" for i
    using nth_drop [of pos buf i] l assms(1) by simp
  have b: "buf ! pos = t" "unat (u16_from_be (buf ! (pos + 1)) (buf ! (pos + 2))) = length data"
    using n [of 0] n [of 1] n [of 2] assms(2) by (simp_all add: relay_feature_bytes_def u16_to_be_def unat_dgram_len)
  have d: "drop (pos + 3) buf = data @ rest"
    using arg_cong [OF assms(1), of "drop 3"] by (simp add: relay_feature_bytes_def u16_to_be_def add.commute)
  show "relay_features buf pos info = relay_features buf (pos + 3 + length data) (relay_feature t data info)"
    using l b d by (simp add: relay_features.simps [of buf pos info] Let_def)
  show "drop (pos + 3 + length data) buf = rest"
    using arg_cong [OF d, of "drop (length data)"] by (simp add: add.commute)
qed

lemma relay_features_end: "length buf \<le> pos \<Longrightarrow> relay_features buf pos info = info"
  by (simp add: relay_features.simps)

lemma relay_feature_user:
  assumes "length u \<le> 255" "length p \<le> 255" "utf8_valid u" "utf8_valid p"
  shows "relay_feature FEATURE_USER_AUTH (relay_user_data u p) (u0, p0, r) = (u, p, r)"
  using assms by (simp add: relay_feature_def relay_user_data_def unat_usize_as_u8 nth_append del: utf8_valid.simps)

lemma relay_feature_addr:
  assumes "host_fits h"
  shows "relay_feature FEATURE_ADDR (relay_addr_data h p) (u, pw, r) = (u, pw, canon_host h @ '':'' @ show_nat (unat p))"
proof -
  have e: "relay_addr_data h p = encode_address h p"
    by (simp add: relay_addr_data_def encode_address_def relay_consts atyp_consts split: option.splits)
  have "parse_relay_addr (encode_address h p) = (canon_host h, p)"
  proof (cases rule: encode_address_cases [of h p])
    case (v4 a b c d)
    then show ?thesis by (simp add: parse_relay_addr_def relay_consts atyp_consts u16_to_be_def)
  next
    case (v6 gs)
    then show ?thesis by (simp add: parse_relay_addr_def relay_consts atyp_consts u16_to_be_def nth_append)
  next
    case name
    then show ?thesis using assms
      by (simp add: parse_relay_addr_def relay_consts atyp_consts u16_to_be_def nth_append host_fits_def unat_usize_as_u8 del: utf8_valid.simps)
  qed
  moreover have "encode_address h p \<noteq> []" by (simp add: encode_address_def u16_to_be_def)
  ultimately show ?thesis unfolding e by (simp add: relay_feature_def relay_consts)
qed

section \<open>What an admitted request was\<close>

definition relay_message :: "bool \<Rightarrow> bytes \<Rightarrow> bytes \<Rightarrow> bool" where
  "relay_message udp features bs \<longleftrightarrow>
     (\<exists>flags. bs = [RELAY_VERSION1, flags] @ u16_to_be (word_of_nat (length features)) @ features \<and>
        length features \<le> 65535 \<and> udp = (flags AND RELAY_FLAG_UDP \<noteq> 0))"

text \<open>The client may have what its features ask for.\<close>

definition relay_granted :: "('r, 'n) handler_options \<Rightarrow> bool \<Rightarrow> bytes \<Rightarrow> string \<Rightarrow> bool" where
  "relay_granted ho udp features raddr \<longleftrightarrow>
     (\<exists>user pass. relay_features features 0 ([], [], []) = (user, pass, raddr) \<and>
        (case ho_authenticator ho of Some A \<Rightarrow> A user pass | None \<Rightarrow> True) \<and>
        allowed ho (if udp then ''udp'' else ''tcp'') raddr)"

lemma relay_refuse_Inr: "relay_refuse st e c \<noteq> (Inr x, c')"
  by (simp add: relay_refuse_def took)

lemma relay_decide_Inr:
  "relay_decide ho b udp features c = (Inr (u, raddr), c') \<longleftrightarrow>
   c' = c \<and> u = udp \<and> relay_granted ho udp features raddr \<and> \<not> (raddr = [] \<and> b)"
proof -
  obtain user pass r where f: "relay_features features 0 ([], [], []) = (user, pass, r)"
    by (cases "relay_features features 0 ([], [], [])")
  show ?thesis unfolding relay_decide_def relay_granted_def f prod.case
    by (cases "ho_authenticator ho") (auto simp: relay_refuse_Inr took)
qed

lemma length_4E: "length xs = 4 \<Longrightarrow> (\<And>a b c d. xs = [a, b, c, d] \<Longrightarrow> P) \<Longrightarrow> P"
  by (auto simp: numeral_eq_Suc length_Suc_conv)

lemma relay_admit_took:
  assumes "relay_admit ho b c = (Inr (udp, raddr), c')" "conn_ok c"
  shows "\<exists>bs features. content c = bs @ content c' \<and> relay_message udp features bs \<and> relay_granted ho udp features raddr \<and>
    \<not> (raddr = [] \<and> b)"
proof -
  let ?read = "\<lambda>header. if unat (u16_from_be (header ! 2) (header ! 3)) > 0
        then io_read HandlerIo (unat (u16_from_be (header ! 2) (header ! 3))) else io_ok []"
  obtain header c1 where h1: "io_read HandlerIo RELAY_HEADER_LEN c = (Inr header, c1)" and
    r: "(if header ! 0 \<noteq> RELAY_VERSION1 then io_err (HandlerProxy ''relay: bad version'')
       else io_bind (?read header) (relay_decide ho b (header ! 1 AND RELAY_FLAG_UDP \<noteq> 0))) c1 = (Inr (udp, raddr), c')"
    using assms(1) unfolding relay_admit_def io_bind_Inr Let_def by blast
  have h: "io_read HandlerIo RELAY_HEADER_LEN c = (Inr header, c1)" "header ! 0 = RELAY_VERSION1"
    using h1 r by (auto simp: took split: if_splits)
  obtain features c2 where f: "?read header c1 = (Inr features, c2)" and
    d: "relay_decide ho b (header ! 1 AND RELAY_FLAG_UDP \<noteq> 0) features c2 = (Inr (udp, raddr), c')"
    using r h(2) by (simp only: io_bind_Inr simp_thms if_False) blast
  note a = io_read_Inr [OF h(1) assms(2)] and d' = d [unfolded relay_decide_Inr]
  obtain v flags x y where hd: "header = [v, flags, x, y]" using a(3) by (auto simp: relay_consts elim: length_4E)
  have g: "content c1 = features @ content c2 \<and> length features = unat (u16_from_be x y)"
    using f hd io_read_Inr [OF _ a(1)] by (auto simp: took split: if_splits)
  have "word_of_nat (length features) = u16_from_be x y" using g by simp
  moreover have "unat (u16_from_be x y) < 2 ^ 16" using unsigned_less [of "u16_from_be x y"] by simp
  then have "length features \<le> 65535" using g by simp
  ultimately have "relay_message udp features (header @ features)"
    unfolding relay_message_def using hd h(2) d' by (intro exI [of _ flags]) simp
  then show ?thesis using a(2) g d'
    by - (rule exI [of _ "header @ features"], rule exI [of _ features], auto)
qed

lemma runs_relay_admit:
  assumes "conn_at l (bs @ rest) out c" "relay_message udp features bs"
    "\<And>c'. conn_at l rest out c' \<Longrightarrow> runs (relay_decide ho b udp features) c' Q"
  shows "runs (relay_admit ho b) c Q"
proof -
  obtain flags where f: "bs = [RELAY_VERSION1, flags] @ u16_to_be (word_of_nat (length features)) @ features"
    "length features \<le> 65535" "udp = (flags AND RELAY_FLAG_UDP \<noteq> 0)" using assms(2) by (auto simp: relay_message_def)
  let ?h = "[RELAY_VERSION1, flags] @ u16_to_be (word_of_nat (length features))"
  have h: "?h ! 0 = RELAY_VERSION1" "?h ! 1 = flags" "unat (u16_from_be (?h ! 2) (?h ! 3)) = length features" "length ?h = RELAY_HEADER_LEN"
    using f(2) by (simp_all add: u16_to_be_def unat_dgram_len relay_consts)
  have k: "runs (io_bind (if length features > 0 then io_read HandlerIo (length features) else io_ok []) (relay_decide ho b udp)) c1 Q"
    if at: "conn_at l (features @ rest) out c1" for c1
  proof -
    have "runs (if length features > 0 then io_read HandlerIo (length features) else io_ok []) c1
        (\<lambda>r c'. r = Inr features \<and> conn_at l rest out c')"
      using at by (auto intro: runs_ok runs_read [OF at refl])
    then show ?thesis by (intro runs_bind) (erule runs_mono, use assms(3) in auto)
  qed
  show ?thesis unfolding relay_admit_def
  proof (rule runs_bind, rule runs_read [where xs = ?h and ys = "features @ rest"])
    show "conn_at l (?h @ features @ rest) out c" using assms(1) f(1) by simp
    show "length ?h = RELAY_HEADER_LEN" by (rule h(4))
  qed (use k f(3) in \<open>simp only: sum.case h Let_def simp_thms if_False\<close>)
qed

section \<open>The connector's request\<close>

definition relay_feature_block :: "credentials \<Rightarrow> string \<Rightarrow> u16 \<Rightarrow> bytes" where
  "relay_feature_block user h p =
     (case user of Some (u, pw) \<Rightarrow> relay_feature_bytes FEATURE_USER_AUTH (relay_user_data u (or_empty pw)) | None \<Rightarrow> [])
     @ relay_feature_bytes FEATURE_ADDR (relay_addr_data h p)"

definition credentials_fit :: "credentials \<Rightarrow> bool" where
  "credentials_fit user =
     (case user of
        None \<Rightarrow> True
      | Some (u, pw) \<Rightarrow> length u \<le> 255 \<and> length (or_empty pw) \<le> 255 \<and> utf8_valid u \<and> utf8_valid (or_empty pw))"

lemma relay_addr_data_length: "host_fits h \<Longrightarrow> length (relay_addr_data h p) \<le> 259"
  by (auto simp: relay_addr_data_def host_fits_def u16_to_be_def dest: parse_v6_length split: option.splits)

lemma relay_block_features:
  assumes "credentials_fit user" "host_fits h"
  shows "relay_features (relay_feature_block user h p) 0 ([], [], []) =
      (case user of None \<Rightarrow> [] | Some (u, _) \<Rightarrow> u, case user of None \<Rightarrow> [] | Some (_, pw) \<Rightarrow> or_empty pw,
       canon_host h @ '':'' @ show_nat (unat p))"
    "length (relay_feature_block user h p) \<le> 65535"
proof -
  let ?b = "relay_feature_block user h p" and ?a = "relay_addr_data h p"
  have al: "length ?a \<le> 65535" using relay_addr_data_length [OF assms(2), of p] by simp
  have last: "relay_features buf pos (u, w, r) = (u, w, canon_host h @ '':'' @ show_nat (unat p))"
    if "drop pos buf = relay_feature_bytes FEATURE_ADDR ?a" for buf pos u w r
  proof -
    from that have s: "drop pos buf = relay_feature_bytes FEATURE_ADDR ?a @ []" by simp
    have "length buf \<le> pos + 3 + length ?a" using relay_features_step(2) [OF s al] by simp
    then show ?thesis unfolding relay_features_step(1) [OF s al] relay_feature_addr [OF assms(2)] by (rule relay_features_end)
  qed
  show "relay_features ?b 0 ([], [], []) =
      (case user of None \<Rightarrow> [] | Some (u, _) \<Rightarrow> u, case user of None \<Rightarrow> [] | Some (_, pw) \<Rightarrow> or_empty pw,
       canon_host h @ '':'' @ show_nat (unat p))"
  proof (cases user)
    case None
    then show ?thesis by (simp add: relay_feature_block_def last)
  next
    case (Some c)
    then obtain u pw where c: "user = Some (u, pw)" by (cases c) auto
    let ?d = "relay_user_data u (or_empty pw)"
    have fit: "length u \<le> 255" "length (or_empty pw) \<le> 255" "utf8_valid u" "utf8_valid (or_empty pw)"
      using assms(1) c by (simp_all add: credentials_fit_def)
    have s: "drop 0 ?b = relay_feature_bytes FEATURE_USER_AUTH ?d @ relay_feature_bytes FEATURE_ADDR ?a"
      using c by (simp add: relay_feature_block_def)
    have dl: "length ?d \<le> 65535" using fit(1,2) by (simp add: relay_user_data_def)
    show ?thesis using last [OF relay_features_step(2) [OF s dl]] c
      unfolding relay_features_step(1) [OF s dl] relay_feature_user [OF fit] by simp
  qed
  show "length ?b \<le> 65535" using assms(1) relay_addr_data_length [OF assms(2), of p]
    by (auto simp: relay_feature_block_def relay_feature_bytes_def relay_user_data_def u16_to_be_def credentials_fit_def split: option.splits)
qed

lemma relay_request_message:
  assumes "credentials_fit user" "host_fits h" "relay_split_host_port address = Some (h, ps)" "parse_u16 ps = Some n"
  shows "\<exists>bs. relay_request user udp address = Inr bs \<and> relay_message udp (relay_feature_block user h (word_of_nat n)) bs"
proof -
  let ?b = "relay_feature_block user h (word_of_nat n)"
  have "address \<noteq> []" using assms(3) by (auto simp: relay_split_host_port_def rsplit_once_def rfind_char_def)
  then have "relay_request user udp address =
      Inr ([RELAY_VERSION1, if udp then RELAY_FLAG_UDP else 0] @ u16_to_be (word_of_nat (length ?b)) @ ?b)"
    using assms(3,4) relay_block_features(2) [OF assms(1,2), of "word_of_nat n"]
    by (simp add: relay_request_def relay_feature_block_def Let_def)
  then show ?thesis using relay_block_features(2) [OF assms(1,2), of "word_of_nat n"]
    by (auto simp: relay_message_def relay_consts)
qed

lemma relay_block_port:
  assumes "credentials_fit user" "host_fits h" "parse_u16 ps = Some n"
  shows "relay_features (relay_feature_block user h (word_of_nat n)) 0 ([], [], []) =
      (case user of None \<Rightarrow> [] | Some (u, _) \<Rightarrow> u, case user of None \<Rightarrow> [] | Some (_, pw) \<Rightarrow> or_empty pw,
       canon_host h @ '':'' @ show_nat n)"
proof -
  have "unat (word_of_nat n :: u16) = n" using parse_uint_bound [OF assms(3)] by (simp add: unat_of_nat take_bit_eq_mod)
  then show ?thesis using relay_block_features(1) [OF assms(1,2), of "word_of_nat n"] by simp
qed

text \<open>The authenticator, where there is one, accepts what the connector sends for the node's user.\<close>

definition relay_entitled :: "('r, 'n) handler_options \<Rightarrow> credentials \<Rightarrow> bool" where
  "relay_entitled ho user =
     (case ho_authenticator ho of
        None \<Rightarrow> True
      | Some A \<Rightarrow> (case user of Some (u, pw) \<Rightarrow> A u (or_empty pw) | None \<Rightarrow> A [] []))"

lemma relay_admit_hop:
  assumes "credentials_fit user" "host_fits h" "relay_split_host_port address = Some (h, ps)" "parse_u16 ps = Some n"
    "raddr = canon_host h @ '':'' @ show_nat n" "relay_entitled ho user" "allowed ho (if udp then ''udp'' else ''tcp'') raddr"
    "relay_request user udp address = Inr bs" "conn_at l (bs @ rest) [] c"
  shows "\<exists>c'. relay_admit ho b c = (Inr (udp, raddr), c') \<and> conn_at l rest [] c'"
proof -
  let ?b = "relay_feature_block user h (word_of_nat n)"
  have m: "relay_message udp ?b bs" using relay_request_message [OF assms(1-4), of udp] assms(8) by simp
  have g: "relay_granted ho udp ?b raddr"
    unfolding relay_granted_def relay_block_port [OF assms(1,2,4)] using assms(5-7)
    by (auto simp: relay_entitled_def split: option.splits)
  have "runs (relay_decide ho b udp ?b) c' (\<lambda>r c'. r = Inr (udp, raddr) \<and> conn_at l rest [] c')" if "conn_at l rest [] c'" for c'
    using relay_decide_Inr [of ho b udp ?b c' udp raddr c'] g that assms(5) by (simp add: runs_def)
  then have "runs (relay_admit ho b) c (\<lambda>r c'. r = Inr (udp, raddr) \<and> conn_at l rest [] c')"
    by (rule runs_relay_admit [OF assms(9) m])
  then show ?thesis by (auto simp: runs_def prod_eq_iff)
qed

section \<open>Properties of the relay\<close>

text \<open>A request for a name at the server with one user.\<close>

definition demo_relay :: bytes where
  "demo_relay = [RELAY_VERSION1, 0] @ u16_to_be 28 @ relay_feature_block (Some (''ann'', Some ''pw'')) ''example.org'' 443"

lemma demo_relay_facts:
  "credentials_fit (Some (''ann'', Some ''pw''))" "relay_split_host_port ''example.org:443'' = Some (''example.org'', ''443'')"
  "parse_u16 ''443'' = Some 443" "relay_entitled demo_options (Some (''ann'', Some ''pw''))"
  "chain_dial (ht_net demo_host) (the_chain demo_options) ''example.org:443'' demo_world =
     (Inr (from_tcp (demo_tcp [])), logged (TcpConnect ''example.org:443'') demo_world)"
  "ng_nodes (group_new []) = []" "canon_host ''example.org'' @ '':'' @ show_nat 443 = ''example.org:443''"
proof -
  show "credentials_fit (Some (''ann'', Some ''pw''))" by (simp add: credentials_fit_def or_empty_def byte_in_def)
  show "relay_split_host_port ''example.org:443'' = Some (''example.org'', ''443'')"
    by (simp add: relay_split_host_port_def rsplit_once_def rfind_char_def del: rfind_char_None)
  show "parse_u16 ''443'' = Some 443" by (simp add: parse_uint_def digit_val_def)
  show "relay_entitled demo_options (Some (''ann'', Some ''pw''))" by (simp add: relay_entitled_def demo_options_def or_empty_def)
  show "chain_dial (ht_net demo_host) (the_chain demo_options) ''example.org:443'' demo_world =
     (Inr (from_tcp (demo_tcp [])), logged (TcpConnect ''example.org:443'') demo_world)" by (rule demo_chain_dial)
  show "ng_nodes (group_new []) = []" by (simp add: group_new_def)
  show "canon_host ''example.org'' @ '':'' @ show_nat 443 = ''example.org:443''"
    by (simp add: demo_target show_nat.simps digit_char_def)
qed


lemma demo_relay_request: "relay_request (Some (''ann'', Some ''pw'')) False ''example.org:443'' = Inr demo_relay"
proof -
  have "parse_v4 ''example.org'' = None" "parse_v6 ''example.org'' = None"
    using not_address [of "CHR ''x''" "''example.org''"] by (simp_all add: addr_char_def to_digit_def)
  then show ?thesis using demo_relay_facts(2,3)
    by (simp add: relay_request_def demo_relay_def relay_feature_block_def Let_def relay_feature_bytes_def u16_to_be_def
        relay_user_data_def or_empty_def relay_addr_data_def)
qed


text \<open>C15. Nothing is dialled for a relay client that is not entitled to it: when the handler dials or goes over
  to copying, the client's bytes were a relay request whose features hold credentials the
  authenticator accepts, if there is one, and an address the access rules allow.\<close>

theorem relay_auth_gate:
  assumes "relay_handle H e ho g c w = (r, c', w', g', ms)" "conn_ok c" "w' \<noteq> w \<or> (\<exists>x. r = Inr x)"
  shows "\<exists>bs rest udp features raddr. content c = bs @ rest \<and> relay_message udp features bs \<and>
    relay_granted ho udp features raddr \<and> (ng_nodes g = [] \<longrightarrow> raddr \<noteq> [])"
proof -
  obtain x c1 where x: "relay_admit ho (ng_nodes g = []) c = (x, c1)" by (cases "relay_admit ho (ng_nodes g = []) c")
  then obtain udp raddr where "x = Inr (udp, raddr)"
    using assms(1,3) by (cases x) (auto simp: relay_handle_def)
  with relay_admit_took [OF x [unfolded this] assms(2)] show ?thesis by blast
qed

lemma demo_relay_admitted:
  "\<exists>c'. relay_admit demo_options b (demo_conn (demo_relay @ [9])) = (Inr (False, ''example.org:443''), c') \<and> conn_at None [9] [] c'"
  by (rule relay_admit_hop [OF demo_relay_facts(1) demo_target(2) demo_relay_facts(2,3) demo_relay_facts(7) [symmetric] demo_relay_facts(4) _
        demo_relay_request demo_conn_at])
    (simp only: demo_allowed if_False)

theorem relay_auth_gate_witness:
  "\<exists>bs rest udp features raddr. demo_relay @ [9] = bs @ rest \<and> relay_message udp features bs \<and>
    relay_granted demo_options udp features raddr \<and> raddr \<noteq> []"
proof -
  let ?c = "demo_conn (demo_relay @ [9])"
  obtain x c' w' g' ms where "relay_handle demo_host sel_demo_env demo_options (group_new []) ?c demo_world = (Inr x, c', w', g', ms)"
    using demo_relay_admitted [of True] demo_relay_facts(5,6) by (auto simp: relay_handle_def)
  from relay_auth_gate [OF this] show ?thesis
    using demo_conn_at [of "demo_relay @ [9]"] demo_relay_facts(6) by (simp add: conn_at_def)
qed

text \<open>C16. The two ends of this program agree: a handler with no fixed target reads the connector's request,
  checks the credentials it carries against its authenticator and the address against its rules,
  dials exactly the requested address, and leaves what follows the request for the data phase.\<close>

theorem relay_hop_agrees:
  assumes "credentials_fit user" "host_fits h" "relay_split_host_port address = Some (h, ps)" "parse_u16 ps = Some n"
    "raddr = canon_host h @ '':'' @ show_nat n" "relay_entitled ho user"
    "allowed ho (if udp then ''udp'' else ''tcp'') raddr" "ng_nodes g = []"
    "chain_dial (ht_net H) (the_chain ho) raddr w = (Inr cc, w')"
    "relay_request user udp address = Inr bs" "conn_at l (bs @ rest) [] c"
  shows "\<exists>c'. conn_at l rest [] c' \<and> relay_handle H e ho g c w =
    (Inr (relay_server c' udp RELAY_STATUS_OK, cc), c', w', g, reset_dead (node_default (env_fresh e)) (env_markers e))"
  using relay_admit_hop [OF assms(1-7,10,11), of True] assms(8,9) by (auto simp: relay_handle_def)

theorem relay_hop_agrees_witness:
  "\<exists>c'. conn_at None [9] [] c' \<and>
     relay_handle demo_host sel_demo_env demo_options (group_new []) (demo_conn (demo_relay @ [9])) demo_world =
       (Inr (relay_server c' False RELAY_STATUS_OK, from_tcp (demo_tcp [])), c',
        logged (TcpConnect ''example.org:443'') demo_world, group_new [],
        reset_dead (node_default (env_fresh sel_demo_env)) (env_markers sel_demo_env))"
  by (rule relay_hop_agrees [OF demo_relay_facts(1) demo_target(2) demo_relay_facts(2,3) refl demo_relay_facts(4) _
        demo_relay_facts(6) _ demo_relay_request demo_conn_at])
    (simp_all only: demo_relay_facts demo_allowed if_False)

lemma ipv6_not_allowed:
  assumes "length gs = 8"
  shows "\<not> allowed ho action (show_v6 gs @ '':'' @ show_nat n)"
proof -
  let ?a = "show_v6 gs @ '':'' @ show_nat n"
  have np: "CHR '':'' \<notin> set (show_nat n)" "CHR '']'' \<notin> set (show_nat n)" by (rule show_nat_not_mem; simp)+
  have "\<not> host_port_form ?a host port" for host port
  proof
    assume f: "host_port_form ?a host port"
    have "CHR '']'' \<notin> set ?a" using show_ip_clean(2) [of "V6 gs"] np by simp
    moreover have "CHR '']'' \<in> set (''['' @ host @ '']:'' @ port)" by simp
    ultimately have "?a \<noteq> ''['' @ host @ '']:'' @ port" by metis
    then have "?a = host @ CHR '':'' # port" "CHR '':'' \<notin> set host" "CHR '':'' \<notin> set port"
      using f by (auto simp: host_port_form_def)
    then have "show_v6 gs = host" using rsplit_unique [of "show_v6 gs" "CHR '':''" "show_nat n" host port] np by simp
    with show_v6_colon [OF assms] \<open>CHR '':'' \<notin> set host\<close> show False by simp
  qed
  then have "\<exists>e. split_host_port ?a = Inl e" using split_host_port_iff [of ?a] by (cases "split_host_port ?a") auto
  then show ?thesis by (auto simp: allowed_def Can_def)
qed

text \<open>C38. A relay server never connects to an IPv6 address its own connector asks for: it writes the address
  without brackets, which the access check cannot take apart, and so it answers
  \<^verbatim>\<open>FORBIDDEN\<close> and dials nothing, whatever the rules, even when none are configured.\<close>

theorem relay_ipv6_refused:
  assumes "credentials_fit user" "host_fits h" "relay_split_host_port address = Some (h, ps)" "parse_u16 ps = Some n"
    "parse_v4 h = None" "parse_v6 h = Some gs" "relay_entitled ho user"
    "relay_request user udp address = Inr bs" "conn_at l (bs @ rest) [] c"
  shows "\<exists>c'. conn_at l rest [RELAY_VERSION1, RELAY_STATUS_FORBIDDEN, 0, 0] c' \<and>
    relay_handle H e ho g c w = (Inl Forbidden, c', w, g, env_markers e)"
proof -
  let ?b = "relay_feature_block user h (word_of_nat n)" and ?raddr = "canon_host h @ '':'' @ show_nat n"
  let ?Q = "\<lambda>r c'. r = Inl Forbidden \<and> conn_at l rest [RELAY_VERSION1, RELAY_STATUS_FORBIDDEN, 0, 0] c'"
  have m: "relay_message udp ?b bs" using relay_request_message [OF assms(1-4), of udp] assms(8) by simp
  have h: "canon_host h = show_v6 gs" using assms(5,6) by (simp add: canon_host_def)
  have na: "\<not> allowed ho a ?raddr" for a
    unfolding h by (rule ipv6_not_allowed [OF parse_v6_length [OF assms(6)]])
  have "runs (relay_decide ho (ng_nodes g = []) udp ?b) c' ?Q" if at: "conn_at l rest [] c'" for c'
  proof -
    have "relay_decide ho (ng_nodes g = []) udp ?b = relay_refuse RELAY_STATUS_FORBIDDEN Forbidden"
      unfolding relay_decide_def relay_block_port [OF assms(1,2,4)] using assms(7) na
      by (auto simp: relay_entitled_def split: option.splits)
    then show ?thesis unfolding relay_refuse_def send_relay_reply_def
      by simp (rule runs_bind, rule runs_write [OF at], simp add: runs_def io_err_def)
  qed
  then have "runs (relay_admit ho (ng_nodes g = [])) c ?Q" by (rule runs_relay_admit [OF assms(9) m])
  then obtain c' where "relay_admit ho (ng_nodes g = []) c = (Inl Forbidden, c')" "?Q (Inl Forbidden :: handler_error + bool \<times> string) c'"
    by (auto simp: runs_def prod_eq_iff)
  then show ?thesis by (auto simp: relay_handle_def)
qed

lemma demo_loopback:
  "show_v6 [0, 0, 0, 0, 0, 0, 0, 1] = ''::1''" "host_fits ''::1''" "relay_split_host_port ''[::1]:443'' = Some (''::1'', ''443'')"
proof -
  show "show_v6 [0, 0, 0, 0, 0, 0, 0, 1] = ''::1''" by (simp add: show_v6_def show_hex.simps hex_char_def)
  show "host_fits ''::1''" by (simp add: host_fits_def byte_in_def)
  show "relay_split_host_port ''[::1]:443'' = Some (''::1'', ''443'')"
    by (simp add: relay_split_host_port_def split_once_def)
qed

definition demo_relay6 :: bytes where
  "demo_relay6 = [RELAY_VERSION1, 0] @ u16_to_be 32 @ relay_feature_block (Some (''ann'', Some ''pw'')) ''::1'' 443"

theorem relay_ipv6_refused_witness:
  "\<exists>c'. conn_at None [] [RELAY_VERSION1, RELAY_STATUS_FORBIDDEN, 0, 0] c' \<and>
     relay_handle demo_host sel_demo_env demo_options (group_new []) (demo_conn demo_relay6) demo_world =
       (Inl Forbidden, c', demo_world, group_new [], env_markers sel_demo_env)"
proof -
  have a: "parse_v4 ''::1'' = None" "parse_v6 ''::1'' = Some [0, 0, 0, 0, 0, 0, 0, 1]"
    using parse_v4_show_v6 [of "[0, 0, 0, 0, 0, 0, 0, 1]"] parse_v6_show [of "[0, 0, 0, 0, 0, 0, 0, 1]"] by (simp_all add: demo_loopback(1))
  have "relay_request (Some (''ann'', Some ''pw'')) False ''[::1]:443'' = Inr demo_relay6"
    using a demo_loopback(3) demo_relay_facts(3)
    by (simp add: relay_request_def demo_relay6_def relay_feature_block_def Let_def relay_feature_bytes_def u16_to_be_def
        relay_user_data_def or_empty_def relay_addr_data_def v6_octets_def)
  from relay_ipv6_refused [OF demo_relay_facts(1) demo_loopback(2,3) demo_relay_facts(3) a demo_relay_facts(4) this, of None "[]"]
  show ?thesis using demo_conn_at [of demo_relay6] by simp
qed

end
