(* ===== verification/Sni.thy ===== *)
theory Sni
  imports DnsExchange
begin

unbundle bit_operations_syntax

text \<open>
  The rewriting of TLS ClientHello records and HTTP heads (\<^verbatim>\<open>src/src/sni.rs\<close>): a client hides the real
  destination in a private extension behind a decoy name, a server restores it. The codec of the
  crate \<^verbatim>\<open>base64\<close> is a parameter.
\<close>

section \<open>Names in private\<close>

definition TLS_HANDSHAKE :: u8 where "TLS_HANDSHAKE = 0x16"
definition EXT_GOST_HOST :: u16 where "EXT_GOST_HOST = 0xFFFE"
definition EXT_SERVER_NAME :: u16 where "EXT_SERVER_NAME = 0x0000"

text \<open>\<^verbatim>\<open>URL_SAFE_NO_PAD\<close>: encoding, and decoding where it succeeds.\<close>

record base64_engine =
  b64_encode :: "bytes \<Rightarrow> string"
  b64_decode :: "bytes \<Rightarrow> bytes option"

text \<open>\<^verbatim>\<open>String::from_utf8\<close> and \<^verbatim>\<open>[T]::get\<close>.\<close>

definition from_utf8 :: "bytes \<Rightarrow> string option" where
  "from_utf8 bs = (if utf8_valid (of_bytes bs) then Some (of_bytes bs) else None)"

definition byte_get :: "bytes \<Rightarrow> nat \<Rightarrow> u8 option" where
  "byte_get bs i = (if i < length bs then Some (bs ! i) else None)"

primrec crc_bits :: "nat \<Rightarrow> u32 \<Rightarrow> u32" where
  "crc_bits 0 crc = crc"
| "crc_bits (Suc n) crc = crc_bits n (drop_bit 1 crc XOR (0xEDB88320 AND - (crc AND 1)))"

definition crc32_ieee :: "bytes \<Rightarrow> u32" where
  "crc32_ieee data = NOT (foldl (\<lambda>crc byte. crc_bits 8 (crc XOR ucast byte)) 0xFFFFFFFF data)"

definition encode_server_name :: "base64_engine \<Rightarrow> string \<Rightarrow> string" where
  "encode_server_name B name =
     b64_encode B (u32_to_be (crc32_ieee (as_bytes name)) @ as_bytes (b64_encode B (as_bytes name)))"

definition decode_server_name :: "base64_engine \<Rightarrow> string \<Rightarrow> string option" where
  "decode_server_name B s =
     (case b64_decode B (as_bytes s) of
        None \<Rightarrow> None
      | Some outer \<Rightarrow>
          if length outer < 4 then None
          else case b64_decode B (drop 4 outer) of
                 None \<Rightarrow> None
               | Some inner \<Rightarrow>
                   if crc32_ieee inner \<noteq> u32_from_le (outer ! 3) (outer ! 2) (outer ! 1) (outer ! 0) then None
                   else from_utf8 inner)"

section \<open>The extensions of a ClientHello\<close>

type_synonym extension = "u16 \<times> bytes"

text \<open>A 16-bit length at \<open>i\<close>, where both bytes are there.\<close>

definition len16_get :: "bytes \<Rightarrow> nat \<Rightarrow> nat option" where
  "len16_get bs i =
     (case (byte_get bs i, byte_get bs (i + 1)) of
        (Some a, Some b) \<Rightarrow> Some (unat (u16_from_be a b))
      | _ \<Rightarrow> None)"

definition extensions_span :: "bytes \<Rightarrow> (nat \<times> nat) option" where
  "extensions_span hello =
     (let i = 4 + 2 + 32
      in case byte_get hello i of
           None \<Rightarrow> None
         | Some session_len \<Rightarrow>
             let i = i + (1 + unat session_len)
             in case len16_get hello i of
                  None \<Rightarrow> None
                | Some suites_len \<Rightarrow>
                    let i = i + (2 + suites_len)
                    in case byte_get hello i of
                         None \<Rightarrow> None
                       | Some comp_len \<Rightarrow>
                           let i = i + (1 + unat comp_len)
                           in case len16_get hello i of
                                None \<Rightarrow> None
                              | Some exts_len \<Rightarrow>
                                  let start = i + 2; end = start + exts_len
                                  in if end > length hello then None else Some (start, end))"

function parse_extensions_from :: "bytes \<Rightarrow> nat \<Rightarrow> extension list \<Rightarrow> extension list option" where
  "parse_extensions_from block i out =
     (if i + 4 \<le> length block
      then let ext_type = u16_from_be (block ! i) (block ! (i + 1));
               len = unat (u16_from_be (block ! (i + 2)) (block ! (i + 3)))
           in if i + 4 + len > length block then None
              else parse_extensions_from block (i + 4 + len) (out @ [(ext_type, take len (drop (i + 4) block))])
      else Some out)"
  by pat_completeness auto
termination
  by (relation "measure (\<lambda>(block, i, _). length block - i)") auto

declare parse_extensions_from.simps [simp del]

definition parse_extensions :: "bytes \<Rightarrow> extension list option" where
  "parse_extensions block = parse_extensions_from block 0 []"

definition sni_body :: "string \<Rightarrow> bytes" where
  "sni_body name = u16_to_be (usize_as_u16 (length name + 3)) @ [0x00] @ u16_to_be (usize_as_u16 (length name)) @ as_bytes name"

definition sni_name :: "bytes \<Rightarrow> string option" where
  "sni_name body =
     (if length body < 5 then None
      else let len = unat (u16_from_be (body ! 3) (body ! 4))
           in if 5 + len \<le> length body then from_utf8 (take len (drop 5 body)) else None)"

section \<open>Rewriting a record\<close>

text \<open>As the server: take the private extensions out that decode.\<close>

fun strip_private :: "base64_engine \<Rightarrow> string \<Rightarrow> extension list \<Rightarrow> extension list \<times> string" where
  "strip_private B host [] = ([], host)"
| "strip_private B host ((ext_type, body) # exts) =
     (case (if ext_type = EXT_GOST_HOST then decode_server_name B (from_utf8_lossy body) else None) of
        Some decoded \<Rightarrow> strip_private B decoded exts
      | None \<Rightarrow> (case strip_private B host exts of (kept, h) \<Rightarrow> ((ext_type, body) # kept, h)))"

text \<open>The first server name: the name it has, and the name put in its place.\<close>

fun replace_sni :: "string \<Rightarrow> extension list \<Rightarrow> extension list \<times> string \<times> string option" where
  "replace_sni host [] = ([], host, None)"
| "replace_sni host ((ext_type, body) # exts) =
     (if ext_type \<noteq> EXT_SERVER_NAME
      then (case replace_sni host exts of (exts, h, name) \<Rightarrow> ((ext_type, body) # exts, h, name))
      else let name = or_empty (sni_name body);
               host = (if host = [] then name else host)
           in ((ext_type, if host \<noteq> [] then sni_body host else body) # exts, host, Some name))"

definition rewrite_extensions :: "base64_engine \<Rightarrow> string \<Rightarrow> bool \<Rightarrow> extension list \<Rightarrow> extension list \<times> string" where
  "rewrite_extensions B host is_client exts =
     (let (exts, host) = (if \<not> is_client then strip_private B host exts else (exts, host));
          (exts, host, name) = replace_sni host exts
      in (exts @ (case name of
                    Some n \<Rightarrow> if is_client then [(EXT_GOST_HOST, as_bytes (encode_server_name B n))] else []
                  | None \<Rightarrow> []),
          host))"

definition encode_extensions :: "extension list \<Rightarrow> bytes" where
  "encode_extensions exts = concat (map (\<lambda>(t, body). u16_to_be t @ u16_to_be (usize_as_u16 (length body)) @ body) exts)"

definition set_handshake_len :: "bytes \<Rightarrow> bytes" where
  "set_handshake_len hello = take 1 hello @ drop 1 (u32_to_be (word_of_nat (length hello - 4))) @ drop 4 hello"

definition rewrite_client_hello :: "base64_engine \<Rightarrow> bytes \<Rightarrow> string \<Rightarrow> bool \<Rightarrow> (bytes \<times> string) option" where
  "rewrite_client_hello B record host is_client =
     (if length record < 5 \<or> record ! 0 \<noteq> 0x16 then None
      else let body_len = unat (u16_from_be (record ! 3) (record ! 4))
           in if 5 + body_len > length record then None
              else let hello = take body_len (drop 5 record)
                   in case extensions_span hello of
                        None \<Rightarrow> None
                      | Some (start, end) \<Rightarrow>
                          (case parse_extensions (take (end - start) (drop start hello)) of
                             None \<Rightarrow> None
                           | Some exts \<Rightarrow>
                               let (exts, host) = rewrite_extensions B host is_client exts;
                                   block = encode_extensions exts;
                                   new_hello = set_handshake_len
                                     (take (start - 2) hello @ u16_to_be (usize_as_u16 (length block)) @ block @ drop end hello)
                               in Some (take 3 record @ u16_to_be (usize_as_u16 (length new_hello)) @ new_hello, host)))"

section \<open>Reading the server name\<close>

function extract_sni_from :: "bytes \<Rightarrow> nat \<Rightarrow> nat \<Rightarrow> string option" where
  "extract_sni_from payload ext_end pos =
     (if pos + 4 \<le> ext_end \<and> pos + 4 \<le> length payload
      then let ext_type = u16_from_be (payload ! pos) (payload ! (pos + 1));
               ext_len = unat (u16_from_be (payload ! (pos + 2)) (payload ! (pos + 3)));
               pos = pos + 4
           in if ext_type = 0x0000
              then if pos + 2 > length payload then None
                   else let pos = pos + 2
                        in if pos \<ge> length payload then None
                           else let name_type = payload ! pos; pos = pos + 1
                                in if name_type = 0x00
                                   then if pos + 2 > length payload then None
                                        else let name_len = unat (u16_from_be (payload ! pos) (payload ! (pos + 1))); pos = pos + 2
                                             in if pos + name_len > length payload then None
                                                else Some (from_utf8_lossy (take name_len (drop pos payload)))
                                   else extract_sni_from payload ext_end (pos + ext_len)
              else extract_sni_from payload ext_end (pos + ext_len)
      else None)"
  by pat_completeness auto
termination
  by (relation "measure (\<lambda>(_, ext_end, pos). ext_end - pos)") auto

declare extract_sni_from.simps [simp del]

definition extract_sni :: "bytes \<Rightarrow> string option" where
  "extract_sni data =
     (if length data < 5 \<or> data ! 0 \<noteq> TLS_HANDSHAKE then None
      else let record_len = unat (u16_from_be (data ! 3) (data ! 4))
           in if length data < 5 + record_len then None
              else let payload = drop 5 data
                   in if payload = [] \<or> payload ! 0 \<noteq> 0x01 then None
                      else if length payload < 38 then None
                      else let pos = 4 + 2 + 32
                           in if pos \<ge> length payload then None
                              else let pos = pos + (1 + unat (payload ! pos))
                                   in if pos + 2 > length payload then None
                                      else let pos = pos + (2 + unat (u16_from_be (payload ! pos) (payload ! (pos + 1))))
                                           in if pos \<ge> length payload then None
                                              else let pos = pos + (1 + unat (payload ! pos))
                                                   in if pos + 2 > length payload then None
                                                      else let extensions_len = unat (u16_from_be (payload ! pos) (payload ! (pos + 1)));
                                                               pos = pos + 2
                                                           in extract_sni_from payload (pos + extensions_len) pos)"

section \<open>ClientHello records\<close>

text \<open>
  A ClientHello as its parts (\<^verbatim>\<open>ch_fixed\<close> is the version and the random), and its bytes with all lengths as
  TLS writes them. \<open>ch_tail\<close> is what follows the extensions, nothing in practice.
\<close>

record client_hello =
  ch_type :: u8
  ch_fixed :: bytes
  ch_session :: bytes
  ch_suites :: bytes
  ch_comp :: bytes
  ch_exts :: "extension list"
  ch_tail :: bytes

definition hello_head :: "client_hello \<Rightarrow> bytes" where
  "hello_head h = ch_fixed h @ [usize_as_u8 (length (ch_session h))] @ ch_session h
     @ u16_to_be (usize_as_u16 (length (ch_suites h))) @ ch_suites h @ [usize_as_u8 (length (ch_comp h))] @ ch_comp h"

definition hello_body :: "client_hello \<Rightarrow> bytes" where
  "hello_body h = hello_head h @ u16_to_be (usize_as_u16 (length (encode_extensions (ch_exts h))))
     @ encode_extensions (ch_exts h) @ ch_tail h"

definition hello_bytes :: "client_hello \<Rightarrow> bytes" where
  "hello_bytes h = ch_type h # drop 1 (u32_to_be (word_of_nat (length (hello_body h)))) @ hello_body h"

definition tls_record :: "u8 \<times> u8 \<Rightarrow> client_hello \<Rightarrow> bytes" where
  "tls_record v h = [TLS_HANDSHAKE, fst v, snd v] @ u16_to_be (usize_as_u16 (length (hello_bytes h))) @ hello_bytes h"

definition hello_ok :: "client_hello \<Rightarrow> bool" where
  "hello_ok h \<longleftrightarrow> length (ch_fixed h) = 34 \<and> length (ch_session h) < 256 \<and> length (ch_suites h) < 2 ^ 16 \<and>
     length (ch_comp h) < 256 \<and> list_all (\<lambda>(_, body). length body < 2 ^ 16) (ch_exts h) \<and> length (hello_bytes h) < 2 ^ 16"

lemma byte_get_at: "bs = xs @ y # ys \<Longrightarrow> i = length xs \<Longrightarrow> byte_get bs i = Some y"
  by (simp add: byte_get_def)

lemma len16_get_at:
  assumes "bs = xs @ u16_to_be (usize_as_u16 n) @ ys" "i = length xs" "n < 2 ^ 16"
  shows "len16_get bs i = Some n"
  using assms by (simp add: len16_get_def byte_get_def nth_append u16_to_be_def unat_usize_as_u16)

lemma length_hello_bytes: "length (hello_bytes h) = 4 + length (hello_body h)"
  by (simp add: hello_bytes_def u32_to_be_def)

lemma hello_ok_sizes:
  assumes "hello_ok h"
  shows "length (encode_extensions (ch_exts h)) < 2 ^ 16" "length (ch_session h) < 256" "length (ch_comp h) < 256"
    "length (ch_suites h) < 2 ^ 16" "length (ch_fixed h) = 34" "length (hello_bytes h) < 2 ^ 16"
  using assms length_hello_bytes [of h] by (simp_all add: hello_ok_def hello_body_def)

lemma extensions_span_hello:
  assumes "hello_ok h"
  shows "extensions_span (hello_bytes h) =
    Some (4 + length (hello_head h) + 2, 4 + length (hello_head h) + 2 + length (encode_extensions (ch_exts h)))"
proof -
  note z = hello_ok_sizes [OF assms]
  let ?l = "ch_type h # drop 1 (u32_to_be (word_of_nat (length (hello_body h))))"
  let ?s = "ch_session h" and ?u = "ch_suites h" and ?c = "ch_comp h"
  have l: "length ?l = 4" by (simp add: u32_to_be_def)
  have 1: "byte_get (hello_bytes h) 38 = Some (usize_as_u8 (length ?s))"
    by (rule byte_get_at [where xs = "?l @ ch_fixed h"]) (use l z(5) in \<open>simp_all add: hello_bytes_def hello_body_def hello_head_def\<close>)
  have 2: "len16_get (hello_bytes h) (39 + length ?s) = Some (length ?u)"
    by (rule len16_get_at [where xs = "?l @ ch_fixed h @ [usize_as_u8 (length ?s)] @ ?s"])
      (use l z(4,5) in \<open>simp_all add: hello_bytes_def hello_body_def hello_head_def\<close>)
  have 3: "byte_get (hello_bytes h) (41 + length ?s + length ?u) = Some (usize_as_u8 (length ?c))"
    by (rule byte_get_at [where xs = "?l @ ch_fixed h @ [usize_as_u8 (length ?s)] @ ?s @ u16_to_be (usize_as_u16 (length ?u)) @ ?u"])
      (use l z(5) in \<open>simp_all add: hello_bytes_def hello_body_def hello_head_def\<close>)
  have 4: "len16_get (hello_bytes h) (42 + length ?s + length ?u + length ?c) = Some (length (encode_extensions (ch_exts h)))"
    by (rule len16_get_at [where xs = "?l @ hello_head h"])
      (use l z(1,5) in \<open>simp_all add: hello_bytes_def hello_body_def hello_head_def\<close>)
  show ?thesis using 1 2 3 4 z length_hello_bytes [of h]
    by (simp add: extensions_span_def Let_def unat_usize_as_u8 hello_body_def hello_head_def add.commute add.left_commute)
qed

abbreviation ext_fits :: "extension \<Rightarrow> bool" where
  "ext_fits \<equiv> \<lambda>(_, body). length body < 2 ^ 16"

lemma encode_extensions_simps [simp]:
  "encode_extensions [] = []"
  "encode_extensions ((t, body) # exts) = u16_to_be t @ u16_to_be (usize_as_u16 (length body)) @ body @ encode_extensions exts"
  "encode_extensions (xs @ ys) = encode_extensions xs @ encode_extensions ys"
  by (simp_all add: encode_extensions_def)

lemma parse_extensions_encode:
  "list_all ext_fits exts \<Longrightarrow> parse_extensions_from (pre @ encode_extensions exts) (length pre) out = Some (out @ exts)"
proof (induction exts arbitrary: pre out)
  case Nil
  then show ?case by (simp add: parse_extensions_from.simps)
next
  case (Cons e exts)
  obtain t body where e: "e = (t, body)" by (cases e)
  let ?x = "u16_to_be t @ u16_to_be (usize_as_u16 (length body)) @ body"
  have l: "length (pre @ ?x) = length pre + 4 + length body" by simp
  have "parse_extensions_from ((pre @ ?x) @ encode_extensions exts) (length pre + 4 + length body) (out @ [(t, body)]) =
      Some ((out @ [(t, body)]) @ exts)"
    unfolding l [symmetric] using Cons by (intro Cons.IH) simp
  then show ?case using Cons.prems e
    by (simp add: parse_extensions_from.simps [of "pre @ _" "length pre"] Let_def nth_append u16_to_be_def unat_usize_as_u16)
qed

text \<open>Rewriting a record is rewriting its extensions; what follows the record is dropped.\<close>

lemma rewrite_record:
  assumes "hello_ok h" "rewrite_extensions B host cl (ch_exts h) = (exts, host')"
  shows "rewrite_client_hello B (tls_record v h @ rest) host cl = Some (tls_record v (h\<lparr>ch_exts := exts\<rparr>), host')"
proof -
  let ?block = "encode_extensions (ch_exts h)" and ?head = "hello_head h"
  define l where "l = ch_type h # drop 1 (u32_to_be (word_of_nat (length (hello_body h))))"
  have l: "length l = 4" by (simp add: u32_to_be_def l_def)
  have hb: "hello_bytes h = (l @ ?head) @ u16_to_be (usize_as_u16 (length ?block)) @ ?block @ ch_tail h"
    by (simp add: hello_bytes_def hello_body_def l_def)
  have p: "parse_extensions ?block = Some (ch_exts h)"
    using parse_extensions_encode [of "ch_exts h" "[]" "[]"] assms(1) by (simp add: parse_extensions_def hello_ok_def)
  have d: "drop (6 + length ?head) (hello_bytes h) = ?block @ ch_tail h" "take (6 + length ?head - 2) (hello_bytes h) = l @ ?head"
    "drop (6 + length ?head + length ?block) (hello_bytes h) = ch_tail h"
    unfolding hb using l by simp_all
  have n: "set_handshake_len ((l @ ?head) @ u16_to_be (usize_as_u16 (length (encode_extensions exts))) @ encode_extensions exts @ ch_tail h) =
      hello_bytes (h\<lparr>ch_exts := exts\<rparr>)"
    by (simp add: set_handshake_len_def hello_bytes_def hello_body_def hello_head_def u32_to_be_def u32_to_le_def l_def)
  show ?thesis
    using assms(2) p d n extensions_span_hello [OF assms(1)] hello_ok_sizes(6) [OF assms(1)]
    by (simp add: rewrite_client_hello_def tls_record_def TLS_HANDSHAKE_def Let_def nth_append u16_to_be_def unat_usize_as_u16)
qed

section \<open>Hiding and recovering a name\<close>

text \<open>What the code relies on in the codec: it decodes what it encodes, and encodes to ASCII.\<close>

definition b64_ok :: "base64_engine \<Rightarrow> bool" where
  "b64_ok B \<longleftrightarrow> (\<forall>bs. b64_decode B (as_bytes (b64_encode B bs)) = Some bs) \<and> (\<forall>bs. ascii (b64_encode B bs))"

lemma decode_encode_server_name:
  assumes "b64_ok B" "utf8_valid name"
  shows "decode_server_name B (encode_server_name B name) = Some name"
  using assms by (simp add: decode_server_name_def encode_server_name_def b64_ok_def from_utf8_def u32_to_be_def u32_to_le_def
      del: utf8_valid.simps)

lemma encode_server_name_utf8: "b64_ok B \<Longrightarrow> utf8_valid (encode_server_name B name)"
  by (rule ascii_utf8) (simp add: encode_server_name_def b64_ok_def)

lemma strip_private_none: "EXT_GOST_HOST \<notin> fst ` set exts \<Longrightarrow> strip_private B host (exts @ es) =
    (case strip_private B host es of (kept, h) \<Rightarrow> (exts @ kept, h))"
  by (induction exts) (auto split: prod.splits)

lemma replace_sni_split:
  assumes "EXT_SERVER_NAME \<notin> fst ` set pre"
  shows "replace_sni host (pre @ (EXT_SERVER_NAME, body) # post) =
    (let name = or_empty (sni_name body); host = (if host = [] then name else host)
     in (pre @ (EXT_SERVER_NAME, if host \<noteq> [] then sni_body host else body) # post, host, Some name))"
  using assms by (induction pre) (auto simp: Let_def)

lemma sni_name_body:
  assumes "utf8_valid name" "length name < 2 ^ 16"
  shows "sni_name (sni_body name) = Some name"
  using assms by (simp add: sni_name_def sni_body_def u16_to_be_def nth_append unat_usize_as_u16 from_utf8_def del: utf8_valid.simps)

text \<open>A hello that names \<open>dest\<close>: its first server name extension, and no private one.\<close>

definition names :: "client_hello \<Rightarrow> extension list \<Rightarrow> string \<Rightarrow> extension list \<Rightarrow> bool" where
  "names h pre dest post \<longleftrightarrow> ch_exts h = pre @ (EXT_SERVER_NAME, sni_body dest) # post \<and>
     EXT_SERVER_NAME \<notin> fst ` set pre \<and> EXT_GOST_HOST \<notin> fst ` set (pre @ post) \<and>
     dest \<noteq> [] \<and> utf8_valid dest \<and> length dest < 2 ^ 16"

definition hidden_hello :: "base64_engine \<Rightarrow> client_hello \<Rightarrow> extension list \<Rightarrow> string \<Rightarrow> string \<Rightarrow> extension list \<Rightarrow> client_hello" where
  "hidden_hello B h pre dest decoy post =
     h\<lparr>ch_exts := pre @ (EXT_SERVER_NAME, sni_body decoy) # post @ [(EXT_GOST_HOST, as_bytes (encode_server_name B dest))]\<rparr>"

lemma client_rewrites:
  assumes "hello_ok h" "names h pre dest post" "decoy \<noteq> []"
  shows "rewrite_client_hello B (tls_record v h @ rest) decoy True = Some (tls_record v (hidden_hello B h pre dest decoy post), decoy)"
proof -
  have "rewrite_extensions B decoy True (ch_exts h) =
      (pre @ (EXT_SERVER_NAME, sni_body decoy) # post @ [(EXT_GOST_HOST, as_bytes (encode_server_name B dest))], decoy)"
    using assms(2,3) by (simp add: rewrite_extensions_def names_def replace_sni_split sni_name_body Let_def or_empty_def del: utf8_valid.simps)
  from rewrite_record [OF assms(1) this] show ?thesis by (simp add: hidden_hello_def)
qed

lemma server_restores:
  assumes "b64_ok B" "names h pre dest post" "hello_ok (hidden_hello B h pre dest decoy post)"
  shows "rewrite_client_hello B (tls_record v (hidden_hello B h pre dest decoy post) @ rest) [] False = Some (tls_record v h, dest)"
proof -
  let ?h = "hidden_hello B h pre dest decoy post" and ?e = "(EXT_GOST_HOST, as_bytes (encode_server_name B dest))"
  have n: "ch_exts h = pre @ (EXT_SERVER_NAME, sni_body dest) # post" "EXT_SERVER_NAME \<notin> fst ` set pre"
    "EXT_GOST_HOST \<notin> fst ` set (pre @ (EXT_SERVER_NAME, sni_body decoy) # post)" "dest \<noteq> []" "utf8_valid dest"
    using assms(2) by (auto simp: names_def EXT_SERVER_NAME_def EXT_GOST_HOST_def)
  have "from_utf8_lossy (as_bytes (encode_server_name B dest)) = encode_server_name B dest"
    by (rule from_utf8_lossy_as_bytes [OF encode_server_name_utf8 [OF assms(1)]])
  then have "strip_private B [] ((pre @ (EXT_SERVER_NAME, sni_body decoy) # post) @ [?e]) =
      (pre @ (EXT_SERVER_NAME, sni_body decoy) # post, dest)"
    unfolding strip_private_none [OF n(3)] using decode_encode_server_name [OF assms(1) n(5)] by simp
  then have "rewrite_extensions B [] False (ch_exts ?h) = (ch_exts h, dest)"
    using n(1,2,4) by (simp add: rewrite_extensions_def hidden_hello_def replace_sni_split Let_def)
  from rewrite_record [OF assms(3) this] show ?thesis by (simp add: hidden_hello_def)
qed

lemma extract_sni_exts:
  assumes "list_all ext_fits pre" "EXT_SERVER_NAME \<notin> fst ` set pre" "utf8_valid name" "length name + 5 < 2 ^ 16"
  shows "extract_sni_from (xs @ encode_extensions (pre @ (EXT_SERVER_NAME, sni_body name) # post) @ ys)
    (length xs + length (encode_extensions (pre @ (EXT_SERVER_NAME, sni_body name) # post))) (length xs) = Some name"
  using assms(1,2)
proof (induction pre arbitrary: xs)
  case Nil
  have "from_utf8_lossy (as_bytes name) = name" "u16_from_be 0 0 = 0"
    by (rule from_utf8_lossy_as_bytes [OF assms(3)]) (simp add: u16_from_be_def u16_from_le_def)
  then show ?case using assms(4)
    by (subst extract_sni_from.simps) (simp add: Let_def nth_append EXT_SERVER_NAME_def u16_to_be_def sni_body_def unat_usize_as_u16)
next
  case (Cons e pre)
  obtain t body where e: "e = (t, body)" by (cases e)
  define E where "E = encode_extensions (pre @ (EXT_SERVER_NAME, sni_body name) # post)"
  let ?x = "u16_to_be t @ u16_to_be (usize_as_u16 (length body)) @ body"
  have E: "encode_extensions ((e # pre) @ (EXT_SERVER_NAME, sni_body name) # post) = ?x @ E" by (simp add: E_def e)
  have l: "length (xs @ ?x) = length xs + 4 + length body" "length (?x @ E) = 4 + length body + length E" by simp_all
  have "extract_sni_from ((xs @ ?x) @ E @ ys) (length (xs @ ?x) + length E) (length (xs @ ?x)) = Some name"
    unfolding E_def by (rule Cons.IH) (use Cons.prems in simp_all)
  moreover have "t \<noteq> 0" "length body < 65536" using Cons.prems e by (auto simp: EXT_SERVER_NAME_def)
  ultimately show ?case unfolding l E
    by (subst extract_sni_from.simps) (simp add: Let_def nth_append u16_to_be_def unat_usize_as_u16 add.assoc)
qed

lemma extract_sni_record:
  assumes "hello_ok h" "ch_type h = 0x01" "ch_exts h = pre @ (EXT_SERVER_NAME, sni_body name) # post"
    "EXT_SERVER_NAME \<notin> fst ` set pre" "utf8_valid name" "length name + 5 < 2 ^ 16"
  shows "extract_sni (tls_record v h @ rest) = Some name"
proof -
  let ?d = "tls_record v h @ rest" and ?p = "hello_bytes h @ rest"
  note z = hello_ok_sizes [OF assms(1)]
  define l where "l = ch_type h # drop 1 (u32_to_be (word_of_nat (length (hello_body h))))"
  let ?s = "ch_session h" and ?u = "ch_suites h" and ?c = "ch_comp h" and ?e = "encode_extensions (ch_exts h)"
  have l: "length l = 4" by (simp add: u32_to_be_def l_def)
  have p: "?p = l @ ch_fixed h @ [usize_as_u8 (length ?s)] @ ?s @ u16_to_be (usize_as_u16 (length ?u)) @ ?u
      @ [usize_as_u8 (length ?c)] @ ?c @ u16_to_be (usize_as_u16 (length ?e)) @ ?e @ ch_tail h @ rest"
    by (simp add: hello_bytes_def hello_body_def hello_head_def l_def)
  have 1: "?p ! 38 = usize_as_u8 (length ?s)" unfolding p using l z(5) by (simp add: nth_append)
  have 2: "u16_from_be (?p ! (39 + length ?s)) (?p ! (40 + length ?s)) = usize_as_u16 (length ?u)"
    unfolding p using l z(5) by (simp add: nth_append u16_to_be_def)
  have 3: "?p ! (41 + length ?s + length ?u) = usize_as_u8 (length ?c)"
    unfolding p using l z(5) by (simp add: nth_append)
  have 4: "u16_from_be (?p ! (42 + length ?s + length ?u + length ?c)) (?p ! (43 + length ?s + length ?u + length ?c)) = usize_as_u16 (length ?e)"
    unfolding p using l z(5) by (simp add: nth_append u16_to_be_def)
  let ?pos = "44 + length ?s + length ?u + length ?c"
  let ?x = "l @ ch_fixed h @ [usize_as_u8 (length ?s)] @ ?s @ u16_to_be (usize_as_u16 (length ?u)) @ ?u
      @ [usize_as_u8 (length ?c)] @ ?c @ u16_to_be (usize_as_u16 (length ?e))"
  have x: "length ?x = ?pos" using l z(5) by simp
  have "list_all ext_fits pre" using assms(1,3) by (simp add: hello_ok_def)
  from extract_sni_exts [OF this assms(4-6), of ?x post "ch_tail h @ rest", folded assms(3)]
  have 5: "extract_sni_from ?p (?pos + length ?e) ?pos = Some name" unfolding p x by (simp only: append_assoc)
  have d: "drop 5 ?d = ?p" "?d ! 0 = TLS_HANDSHAKE" "unat (u16_from_be (?d ! 3) (?d ! 4)) = length (hello_bytes h)"
    "length ?d = 5 + length ?p"
    using z(6) by (simp_all add: tls_record_def u16_to_be_def unat_usize_as_u16)
  have h: "?p ! 0 = 0x01" "?p \<noteq> []" using assms(2) by (simp_all add: hello_bytes_def)
  have lp: "?pos + length ?e \<le> length ?p" unfolding p using l z(5) by simp
  show ?thesis unfolding extract_sni_def d using 1 2 3 4 5 h lp z d(4)
    by (simp add: Let_def unat_usize_as_u8 unat_usize_as_u16 ac_simps)
qed
section \<open>A codec\<close>

text \<open>A codec that can be inverted, for the witnesses: two hexadecimal digits for a byte.\<close>

definition hex_encode :: "bytes \<Rightarrow> string" where
  "hex_encode bs = concat (map (\<lambda>b. [hex_char (unat b div 16), hex_char (unat b mod 16)]) bs)"

fun hex_decode :: "string \<Rightarrow> bytes option" where
  "hex_decode [] = Some []"
| "hex_decode [c] = None"
| "hex_decode (a # b # s) =
     (case (to_digit 16 a, to_digit 16 b, hex_decode s) of
        (Some x, Some y, Some bs) \<Rightarrow> Some (word_of_nat (16 * x + y) # bs)
      | _ \<Rightarrow> None)"

definition demo_b64 :: base64_engine where
  "demo_b64 = \<lparr>b64_encode = hex_encode, b64_decode = \<lambda>bs. hex_decode (of_bytes bs)\<rparr>"

lemma hex_decode_encode: "hex_decode (hex_encode bs) = Some bs"
proof (induction bs)
  case (Cons b bs)
  have "unat b < 256" using unsigned_less [of b, where ?'a = nat] by simp
  then show ?case using Cons by (simp add: hex_encode_def hex_char_val)
qed (simp add: hex_encode_def)

lemma length_hex_encode: "length (hex_encode bs) = 2 * length bs"
  by (induction bs) (simp_all add: hex_encode_def)

lemma demo_b64_ok: "b64_ok demo_b64"
proof -
  have "(of_char (hex_char d) :: nat) \<le> 127" if "d < 16" for d
  proof -
    have "d \<in> set [0..<16]" using that by simp
    then show ?thesis by (auto simp: hex_char_def upt_rec)
  qed
  moreover have "unat b div 16 < 16" for b :: u8
    using unsigned_less [of b, where ?'a = nat] by simp
  ultimately have "ascii (hex_encode bs)" for bs
    by (induction bs) (simp_all add: hex_encode_def ascii_def byte_in_def)
  then show ?thesis by (simp add: b64_ok_def demo_b64_def hex_decode_encode)
qed

end
