(* ===== verification/SniProxy.thy ===== *)
theory SniProxy
  imports Sni Socks5Server
begin

text \<open>
  The two ends of an SNI connection (\<^verbatim>\<open>src/src/sni.rs\<close>): \<^verbatim>\<open>SniClientConn\<close>, which rewrites the first write,
  and \<^verbatim>\<open>SniHandler\<close>, which routes by the name it finds. The HTTP handler is a parameter.
\<close>

section \<open>The client\<close>

text \<open>\<^verbatim>\<open>split\<close> and \<^verbatim>\<open>split_once\<close> with a string pattern.\<close>

function split_crlf :: "string \<Rightarrow> string list" where
  "split_crlf s = (case str_find crlf s of None \<Rightarrow> [s] | Some i \<Rightarrow> take i s # split_crlf (drop (i + 2) s))"
  by pat_completeness auto
termination
proof (relation "measure length", goal_cases)
  case (2 s i)
  then have "s \<noteq> []" by (auto simp: crlf_def)
  then show ?case by simp
qed simp

declare split_crlf.simps [simp del]

definition split_once_str :: "string \<Rightarrow> string \<Rightarrow> (string \<times> string) option" where
  "split_once_str p s = map_option (\<lambda>i. (take i s, drop (i + length p) s)) (str_find p s)"

text \<open>The loop over the header lines: the text put out, and whether a \<^verbatim>\<open>Host\<close> was found.\<close>

fun obfuscate_lines :: "base64_engine \<Rightarrow> string \<Rightarrow> bool \<Rightarrow> string list \<Rightarrow> string \<times> bool" where
  "obfuscate_lines B decoy found [] = ([], found)"
| "obfuscate_lines B decoy found (line # lines) =
     (let is_host = (case split_once CHR '':'' line of Some (name, _) \<Rightarrow> to_ascii_lowercase name = ''host'' | None \<Rightarrow> False)
      in if is_host \<and> \<not> found
         then let host = (case split_once CHR '':'' line of Some (_, v) \<Rightarrow> trim v | None \<Rightarrow> []);
                  (out, f) = obfuscate_lines B decoy True lines
              in (''Host: '' @ decoy @ crlf @ ''Gost-Target: '' @ encode_server_name B host @ crlf @ out, f)
         else let (out, f) = obfuscate_lines B decoy found lines in (line @ crlf @ out, f))"

definition obfuscate_http :: "base64_engine \<Rightarrow> bytes \<Rightarrow> string \<Rightarrow> bytes option" where
  "obfuscate_http B request decoy =
     (case from_utf8 request of
        None \<Rightarrow> None
      | Some txt \<Rightarrow>
          (case split_once_str (crlf @ crlf) txt of
             None \<Rightarrow> None
           | Some (head, rest) \<Rightarrow>
               (case obfuscate_lines B decoy False (split_crlf head) of
                  (out, found) \<Rightarrow> if \<not> found then None else Some (as_bytes (out @ crlf @ rest)))))"

record sni_conn =
  sc_inner :: proxy_conn
  sc_host :: string
  sc_obfuscated :: bool
  sc_out :: bytes
  sc_out_pos :: nat

definition sni_client :: "proxy_conn \<Rightarrow> string \<Rightarrow> sni_conn" where
  "sni_client c host = \<lparr>sc_inner = c, sc_host = host, sc_obfuscated = False, sc_out = [], sc_out_pos = 0\<rparr>"

function sni_flush_out :: "sni_conn \<Rightarrow> (io_error + unit) poll \<times> sni_conn" where
  "sni_flush_out c =
     (if sc_out_pos c < length (sc_out c)
      then (case conn_poll_write (drop (sc_out_pos c) (sc_out c)) (sc_inner c) of
              (Ready (Inr n), i) \<Rightarrow>
                if n = 0 then (Ready (Inl (IoError WriteZero ''sni: write returned zero'')), c\<lparr>sc_inner := i\<rparr>)
                else sni_flush_out (c\<lparr>sc_inner := i, sc_out_pos := sc_out_pos c + n\<rparr>)
            | (Ready (Inl e), i) \<Rightarrow> (Ready (Inl e), c\<lparr>sc_inner := i\<rparr>)
            | (Pending, i) \<Rightarrow> (Pending, c\<lparr>sc_inner := i\<rparr>))
      else (Ready (Inr ()), c\<lparr>sc_out := [], sc_out_pos := 0\<rparr>))"
  by pat_completeness auto
termination
  by (relation "measure (\<lambda>c. length (sc_out c) - sc_out_pos c)") auto

declare sni_flush_out.simps [simp del]

definition sni_poll_read :: "nat \<Rightarrow> sni_conn \<Rightarrow> (io_error + bytes) poll \<times> sni_conn" where
  "sni_poll_read cap c = (case conn_poll_read cap (sc_inner c) of (r, i) \<Rightarrow> (r, c\<lparr>sc_inner := i\<rparr>))"

definition sni_pass :: "bytes \<Rightarrow> sni_conn \<Rightarrow> (io_error + nat) poll \<times> sni_conn" where
  "sni_pass buf c = (case conn_poll_write buf (sc_inner c) of (r, i) \<Rightarrow> (r, c\<lparr>sc_inner := i\<rparr>))"

definition sni_poll_write :: "base64_engine \<Rightarrow> bytes \<Rightarrow> sni_conn \<Rightarrow> (io_error + nat) poll \<times> sni_conn" where
  "sni_poll_write B buf c =
     (case sni_flush_out c of
        (Pending, c) \<Rightarrow> (Pending, c)
      | (Ready _, c) \<Rightarrow>
          if sc_obfuscated c \<or> sc_host c = [] \<or> buf = [] then sni_pass buf c
          else let host = sc_host c;
                   rewritten = (if buf ! 0 = TLS_HANDSHAKE then map_option fst (rewrite_client_hello B buf host True)
                                else obfuscate_http B buf host);
                   c = c\<lparr>sc_obfuscated := True\<rparr>
               in case rewritten of
                    None \<Rightarrow> sni_pass buf c
                  | Some bs \<Rightarrow>
                      (case sni_flush_out (c\<lparr>sc_out := bs, sc_out_pos := 0\<rparr>) of
                         (Ready (Inl e), c) \<Rightarrow> (Ready (Inl e), c)
                       | (_, c) \<Rightarrow> (Ready (Inr (length buf)), c)))"

definition sni_poll_flush :: "sni_conn \<Rightarrow> (io_error + unit) poll \<times> sni_conn" where
  "sni_poll_flush c =
     (case sni_flush_out c of
        (Ready (Inr _), c) \<Rightarrow> (case conn_poll_flush (sc_inner c) of (r, i) \<Rightarrow> (r, c\<lparr>sc_inner := i\<rparr>))
      | other \<Rightarrow> other)"

definition sni_poll_shutdown :: "sni_conn \<Rightarrow> (io_error + unit) poll \<times> sni_conn" where
  "sni_poll_shutdown c =
     (case sni_flush_out c of
        (Ready (Inr _), c) \<Rightarrow> (case conn_poll_shutdown (sc_inner c) of (r, i) \<Rightarrow> (r, c\<lparr>sc_inner := i\<rparr>))
      | other \<Rightarrow> other)"

section \<open>The handler\<close>

definition TLS_RECORD_HEADER_LEN :: nat where "TLS_RECORD_HEADER_LEN = 5"
definition MAX_CLIENT_HELLO :: nat where "MAX_CLIENT_HELLO = 4096"

text \<open>The record to forward, if it was rewritten, and the destination.\<close>

definition sni_route :: "base64_engine \<Rightarrow> bytes \<Rightarrow> bytes option \<times> string" where
  "sni_route B buf =
     (case rewrite_client_hello B buf [] False of
        Some (record, host) \<Rightarrow> (Some record, host)
      | None \<Rightarrow> (None, or_empty (extract_sni buf)))"

definition sni_target :: "('r, 'n) handler_options \<Rightarrow> string \<Rightarrow> string" where
  "sni_target ho host = host @ '':'' @ (case rsplit_once CHR '':'' (ho_host ho) of Some (_, p) \<Rightarrow> p | None \<Rightarrow> ''443'')"

text \<open>From the dialled connection on: the first record goes out, the rest is copied.\<close>

definition sni_forward :: "bytes \<Rightarrow> bytes option \<Rightarrow> chain_error + proxy_conn \<Rightarrow> service hio" where
  "sni_forward buf rewritten r =
     (case r of
        Inl e \<Rightarrow> hio_err (HandlerChain e)
      | Inr cc \<Rightarrow>
          hio_bind (hio_io (io_read HandlerIo (length buf))) (\<lambda>initial.
          case conn_write_all (case rewritten of Some record \<Rightarrow> record | None \<Rightarrow> initial) cc of
            (Inl e, _) \<Rightarrow> hio_err (HandlerIo e)
          | (Inr _, cc) \<Rightarrow> hio_ok (Splice cc)))"

definition sni_connect :: "('r, 'n, 't) host \<Rightarrow> base64_engine \<Rightarrow> ('r, 'n) handler_options \<Rightarrow> bytes \<Rightarrow> service hio" where
  "sni_connect H B ho buf =
     (let (rewritten, host) = sni_route B buf
      in if host = [] then hio_err (HandlerProxy ''SNI: no server name found'')
         else let target = sni_target ho host
              in if \<not> allowed ho ''tcp'' target then hio_err Forbidden
                 else if bypassed (ht_libs H) ho target then hio_ok Finished
                 else hio_bind (hio_net (chain_dial (ht_net H) (the_chain ho) target)) (sni_forward buf rewritten))"

definition sni_tls :: "('r, 'n, 't) host \<Rightarrow> base64_engine \<Rightarrow> ('r, 'n) handler_options \<Rightarrow> service hio" where
  "sni_tls H B ho =
     hio_bind (hio_io (io_peek HandlerIo TLS_RECORD_HEADER_LEN)) (\<lambda>record_head.
     if length record_head < TLS_RECORD_HEADER_LEN
     then hio_err (HandlerIo (IoError UnexpectedEof ''truncated TLS record header''))
     else let want = TLS_RECORD_HEADER_LEN + unat (u16_from_be (record_head ! 3) (record_head ! 4))
          in if want > MAX_CLIENT_HELLO then hio_err (HandlerProxy ''SNI: ClientHello too large'')
             else hio_bind (hio_io (io_peek HandlerIo want)) (sni_connect H B ho))"

definition sni_handle ::
    "('r, 'n, 't) host \<Rightarrow> base64_engine \<Rightarrow> (('r, 'n) handler_options \<Rightarrow> service hio) \<Rightarrow> ('r, 'n) handler_options \<Rightarrow> service hio" where
  "sni_handle H B http ho =
     hio_bind (hio_io (io_peek HandlerIo 1)) (\<lambda>peek_buf.
     if peek_buf = [] then hio_err (HandlerIo (IoError UnexpectedEof ''empty connection''))
     else if peek_buf ! 0 = TLS_HANDSHAKE then sni_tls H B ho
     else http ho)"

section \<open>What the client sends\<close>

definition sni_committed :: "sni_conn \<Rightarrow> bytes" where
  "sni_committed c = w_out (px_inner (sc_inner c)) @ drop (sc_out_pos c) (sc_out c)"

lemma sni_flush_out_spec: "sni_flush_out c = (r, c') \<Longrightarrow> sni_committed c' = sni_committed c"
proof (induction c rule: sni_flush_out.induct)
  case (1 c)
  show ?case
  proof (cases "sc_out_pos c < length (sc_out c)")
    case True
    obtain x i where x: "conn_poll_write (drop (sc_out_pos c) (sc_out c)) (sc_inner c) = (x, i)"
      by (cases "conn_poll_write (drop (sc_out_pos c) (sc_out c)) (sc_inner c)")
    note o = conn_poll_write_out [OF x]
    show ?thesis
    proof (cases "\<exists>n. x = Ready (Inr n) \<and> n \<noteq> 0")
      case True
      then obtain n where n: "x = Ready (Inr n)" "n \<noteq> 0" by blast
      let ?c = "c\<lparr>sc_inner := i, sc_out_pos := sc_out_pos c + n\<rparr>"
      have "sni_committed ?c = sni_committed c" using o(1) n
        by (simp add: sni_committed_def) (metis add.commute append_take_drop_id drop_drop)
      moreover have "sni_flush_out ?c = (r, c')" using 1(2) \<open>_ < length _\<close> x n by (simp add: sni_flush_out.simps [of c])
      ultimately show ?thesis using 1(1) [OF \<open>_ < length _\<close> x [symmetric] n(1) refl n(2)] by simp
    next
      case False
      then show ?thesis using 1(2) \<open>_ < length _\<close> x o
        by (auto simp: sni_flush_out.simps [of c] sni_committed_def split: poll.splits sum.splits)
    qed
  next
    case False
    then show ?thesis using 1(2) by (auto simp: sni_flush_out.simps [of c] sni_committed_def)
  qed
qed

text \<open>The first write, where it is a record: the hidden record is sent or held, and all is reported as written.\<close>

lemma sni_first_write:
  assumes "hello_ok h" "names h pre dest post" "decoy \<noteq> []"
    "sni_poll_write B (tls_record v h @ rest) (sni_client c decoy) = (Ready (Inr n), c')"
  shows "n = length (tls_record v h @ rest)"
    "sni_committed c' = w_out (px_inner c) @ tls_record v (hidden_hello B h pre dest decoy post)"
proof -
  let ?buf = "tls_record v h @ rest" and ?r = "tls_record v (hidden_hello B h pre dest decoy post)"
  let ?c = "\<lparr>sc_inner = c, sc_host = decoy, sc_obfuscated = True, sc_out = ?r, sc_out_pos = 0\<rparr>"
  have b: "?buf ! 0 = TLS_HANDSHAKE" "tls_record v h \<noteq> []" by (simp_all add: tls_record_def)
  obtain x c1 where x: "sni_flush_out ?c = (x, c1)" by (cases "sni_flush_out ?c")
  have "sni_poll_write B ?buf (sni_client c decoy) =
      (case (x, c1) of (Ready (Inl e), c) \<Rightarrow> (Ready (Inl e), c) | (_, c) \<Rightarrow> (Ready (Inr (length ?buf)), c))"
    using b assms(3) client_rewrites [OF assms(1-3), of B v rest] x
    by (simp add: sni_poll_write_def sni_client_def sni_flush_out.simps [of "\<lparr>sc_inner = c, sc_host = decoy, sc_obfuscated = False, sc_out = [], sc_out_pos = 0\<rparr>"] Let_def)
  then have "n = length ?buf \<and> c' = c1" using assms(4) by (auto split: poll.splits sum.splits)
  then show "n = length ?buf" "sni_committed c' = w_out (px_inner c) @ ?r"
    using sni_flush_out_spec [OF x] by (simp_all add: sni_committed_def)
qed

section \<open>What the handler does\<close>

lemma hruns_peek:
  assumes "conn_at l ys out c" "n \<le> length ys" "\<And>c'. conn_at l ys out c' \<Longrightarrow> hruns (f (take n ys)) c' w Q"
  shows "hruns (hio_bind (hio_io (io_peek HandlerIo n)) f) c w Q"
  by (intro hruns_bind hruns_io runs_peek [OF assms(1,2)]) (use assms(3) in simp)

lemma hruns_forward:
  assumes "conn_at l (buf @ rest) out c" "conn_at k ys sent cc"
    "\<And>c' cc'. conn_at l rest out c' \<Longrightarrow> conn_at k ys (sent @ record) cc' \<Longrightarrow> Q (Inr (Splice cc')) c' w"
  shows "hruns (sni_forward buf (Some record) (Inr cc)) c w Q"
proof -
  have "runs (io_write id record) cc (\<lambda>r cc'. r = Inr () \<and> conn_at k ys (sent @ record) cc')"
    by (rule runs_write [OF assms(2)]) simp
  then obtain cc' where cc': "conn_write_all record cc = (Inr (), cc')" "conn_at k ys (sent @ record) cc'"
    by (auto simp: runs_def io_write_def split: prod.splits sum.splits)
  show ?thesis unfolding sni_forward_def sum.case
    by (intro hruns_bind hruns_io runs_read [OF assms(1) refl]) (use cc' assms(3) in \<open>simp add: hruns_ok\<close>)
qed

text \<open>A record that names a destination the client may have.\<close>

lemma sni_handle_routes:
  assumes "conn_at l (buf @ rest) out c" "length buf = 5 + unat (u16_from_be (buf ! 3) (buf ! 4))" "length buf \<le> 4096"
    "buf ! 0 = TLS_HANDSHAKE" "sni_route B buf = (Some record, host)" "host \<noteq> []"
    "allowed ho ''tcp'' (sni_target ho host)" "\<not> bypassed (ht_libs H) ho (sni_target ho host)"
    "chain_dial (ht_net H) (the_chain ho) (sni_target ho host) w = (Inr cc, w')" "conn_at k ys sent cc"
  shows "\<exists>c' cc'. sni_handle H B http ho c w = (Inr (Splice cc'), c', w') \<and> conn_at l rest out c' \<and> conn_at k ys (sent @ record) cc'"
proof -
  let ?Q = "\<lambda>r c' v. \<exists>cc'. r = Inr (Splice cc') \<and> conn_at l rest out c' \<and> conn_at k ys (sent @ record) cc' \<and> v = w'"
  have len: "5 \<le> length buf" using assms(2) by simp
  have connect: "hruns (sni_connect H B ho buf) c2 w ?Q" if c2: "conn_at l (buf @ rest) out c2" for c2
    unfolding sni_connect_def assms(5) prod.case Let_def using assms(6-9)
    by simp (intro hruns_bind hruns_net, simp, rule hruns_forward [OF c2 assms(10)], simp)
  have tls: "hruns (sni_tls H B ho) c1 w ?Q" if c1: "conn_at l (buf @ rest) out c1" for c1
    unfolding sni_tls_def
  proof (rule hruns_peek [OF c1], goal_cases)
    case 1
    then show ?case using len by (simp add: TLS_RECORD_HEADER_LEN_def)
  next
    case (2 c2)
    have t: "take 5 (buf @ rest) = take 5 buf" "take (length buf) (buf @ rest) = buf" using len by simp_all
    have "hruns (hio_bind (hio_io (io_peek HandlerIo (length buf))) (sni_connect H B ho)) c2 w ?Q"
      by (rule hruns_peek [OF 2]) (simp, simp only: t, rule connect)
    then show ?case using len assms(2,3) by (simp add: t TLS_RECORD_HEADER_LEN_def MAX_CLIENT_HELLO_def Let_def)
  qed
  have "hruns (sni_handle H B http ho) c w ?Q" unfolding sni_handle_def
  proof (rule hruns_peek [OF assms(1)], goal_cases)
    case 1
    then show ?case using len by simp
  next
    case (2 c1)
    have "take 1 (buf @ rest) = [TLS_HANDSHAKE]" using len assms(4) by (cases buf) auto
    then show ?case using tls [OF 2] by simp
  qed
  then show ?thesis by (auto simp: hruns_def prod_eq_iff split: prod.splits)
qed

lemma hio_peek_cases:
  assumes "hio_bind (hio_io (io_peek HandlerIo n)) f c w = (r, c', w')" "conn_ok c"
  obtains e where "r = Inl e" "w' = w"
  | c1 where "conn_ok c1" "content c1 = content c" "f (take n (content c)) c1 w = (r, c', w')"
proof -
  obtain x c1 where x: "peek n c = (x, c1)" by (cases "peek n c")
  note p = peek_spec [OF assms(2) x]
  show ?thesis
  proof (cases x)
    case (Inl e)
    then show ?thesis using assms(1) x that(1) by (auto simp: hio_bind_def hio_io_def io_peek_def)
  next
    case (Inr bs)
    then show ?thesis using assms(1) x p that(2) by (auto simp: hio_bind_def hio_io_def io_peek_def)
  qed
qed

lemma sni_forward_world: "sni_forward buf rewritten x c w = (r, c', w') \<Longrightarrow> w' = w"
  by (auto simp: sni_forward_def hio_err_def hio_ok_def hio_bind_def hio_io_def split: sum.splits prod.splits)

lemma sni_connect_gate:
  assumes "sni_connect H B ho buf c w = (r, c', w')" "w' \<noteq> w \<or> (\<exists>cc. r = Inr (Splice cc))"
  obtains rewritten host where "sni_route B buf = (rewritten, host)" "host \<noteq> []" "allowed ho ''tcp'' (sni_target ho host)"
    "\<not> bypassed (ht_libs H) ho (sni_target ho host)" "w' = snd (chain_dial (ht_net H) (the_chain ho) (sni_target ho host) w)"
proof -
  obtain rewritten host where s: "sni_route B buf = (rewritten, host)" by (cases "sni_route B buf")
  obtain x v where d: "chain_dial (ht_net H) (the_chain ho) (sni_target ho host) w = (x, v)"
    by (cases "chain_dial (ht_net H) (the_chain ho) (sni_target ho host) w")
  show ?thesis using assms s d that [OF s]
    by (auto simp: sni_connect_def Let_def hio_err_def hio_ok_def hio_bind_def hio_net_def split: if_splits dest: sni_forward_world)
qed

section \<open>Properties\<close>

text \<open>A small ClientHello.\<close>

definition demo_hello :: client_hello where
  "demo_hello =
     \<lparr>ch_type = 0x01, ch_fixed = replicate 34 3, ch_session = [], ch_suites = [0, 0x2F], ch_comp = [0],
      ch_exts = [(EXT_SERVER_NAME, sni_body ''example.org'')], ch_tail = []\<rparr>"

abbreviation demo_hidden :: client_hello where
  "demo_hidden \<equiv> hidden_hello demo_b64 demo_hello [] ''example.org'' ''decoy.org'' []"

lemma demo_hello_facts:
  "hello_ok demo_hello" "names demo_hello [] ''example.org'' []" "hello_ok demo_hidden"
  "length (tls_record v demo_hidden) \<le> 4096" "utf8_valid ''decoy.org''"
  by (simp_all add: hello_ok_def demo_hello_def hidden_hello_def names_def tls_record_def hello_bytes_def hello_body_def
      hello_head_def sni_body_def encode_server_name_def demo_b64_def length_hex_encode u32_to_be_def u32_to_le_def byte_in_def)

lemma demo_first_write:
  "\<exists>c. sni_poll_write demo_b64 (tls_record v demo_hello @ rest) (sni_client (demo_conn []) ''decoy.org'') =
     (Ready (Inr (length (tls_record v demo_hello) + length rest)), c)"
proof -
  have b: "(tls_record v demo_hello @ rest) ! 0 = TLS_HANDSHAKE" "tls_record v demo_hello \<noteq> []" "tls_record v demo_hidden \<noteq> []"
    by (simp_all add: tls_record_def)
  then show ?thesis using client_rewrites [OF demo_hello_facts(1,2), of "''decoy.org''" demo_b64 v rest]
    by (simp add: sni_poll_write_def sni_client_def sni_flush_out.simps Let_def demo_conn_def conn_new_def conn_poll_write_def wire_write_def)
qed

text \<open>C17. The two ends together: the name of a ClientHello is hidden and restored. When the client side is given
  a record that names a destination, what it puts on the wire names the decoy; the handler at the
  other end dials the real destination, whose connection gets exactly the record the client wrote,
  byte for byte, and everything after it is left to be copied.\<close>

theorem sni_end_to_end:
  assumes "b64_ok B" "hello_ok h" "ch_type h = 0x01" "names h pre dest post" "decoy \<noteq> []" "utf8_valid decoy"
    "hello_ok (hidden_hello B h pre dest decoy post)" "length (tls_record v (hidden_hello B h pre dest decoy post)) \<le> 4096"
    "sni_poll_write B (tls_record v h) (sni_client c\<^sub>0 decoy) = (Ready (Inr n), c\<^sub>1)" "w_out (px_inner c\<^sub>0) = []"
    "conn_at l (sni_committed c\<^sub>1 @ rest) out c" "target = sni_target ho dest" "allowed ho ''tcp'' target" "\<not> bypassed (ht_libs H) ho target"
    "chain_dial (ht_net H) (the_chain ho) target w = (Inr cc, w')" "conn_at k ys sent cc"
  shows "n = length (tls_record v h) \<and> extract_sni (sni_committed c\<^sub>1) = Some decoy \<and>
    (\<exists>c' cc'. sni_handle H B http ho c w = (Inr (Splice cc'), c', w') \<and> conn_at l rest out c' \<and> conn_at k ys (sent @ tls_record v h) cc')"
proof -
  let ?h = "hidden_hello B h pre dest decoy post"
  have f: "n = length (tls_record v h)" "sni_committed c\<^sub>1 = tls_record v ?h"
    using sni_first_write [OF assms(2,4,5), of B v "[]"] assms(9,10) by simp_all
  have d: "dest \<noteq> []" "EXT_SERVER_NAME \<notin> fst ` set pre" using assms(4) by (simp_all add: names_def)
  have "length decoy + 5 < 2 ^ 16" using assms(7) by (simp add: hello_ok_def hidden_hello_def sni_body_def)
  then have e: "extract_sni (tls_record v ?h @ []) = Some decoy"
    by (intro extract_sni_record [OF assms(7) _ _ d(2) assms(6)]) (use assms(3) in \<open>simp_all add: hidden_hello_def\<close>)
  have r: "sni_route B (tls_record v ?h) = (Some (tls_record v h), dest)"
    using server_restores [OF assms(1,4,7), of v "[]"] by (simp add: sni_route_def)
  have z: "length (tls_record v ?h) = 5 + unat (u16_from_be (tls_record v ?h ! 3) (tls_record v ?h ! 4))" "tls_record v ?h ! 0 = TLS_HANDSHAKE"
    using hello_ok_sizes(6) [OF assms(7)] by (simp_all add: tls_record_def u16_to_be_def unat_usize_as_u16)
  from sni_handle_routes [OF assms(11) [unfolded f(2)] z(1) assms(8) z(2) r d(1)] assms(12-16) f e
  show ?thesis by simp
qed

theorem sni_end_to_end_witness:
  "\<exists>c\<^sub>1 c' cc'. sni_poll_write demo_b64 (tls_record (3, 1) demo_hello) (sni_client (demo_conn []) ''decoy.org'') =
       (Ready (Inr (length (tls_record (3, 1) demo_hello))), c\<^sub>1) \<and> extract_sni (sni_committed c\<^sub>1) = Some ''decoy.org'' \<and>
     sni_handle demo_host demo_b64 (\<lambda>_. hio_ok Finished) demo_options (demo_conn (sni_committed c\<^sub>1 @ [9])) demo_world =
       (Inr (Splice cc'), c', logged (TcpConnect ''example.org:443'') demo_world) \<and>
     conn_at None [9] [] c' \<and> conn_at None [] (tls_record (3, 1) demo_hello) cc'"
proof -
  obtain c\<^sub>1 where w: "sni_poll_write demo_b64 (tls_record (3, 1) demo_hello) (sni_client (demo_conn []) ''decoy.org'') =
      (Ready (Inr (length (tls_record (3, 1) demo_hello))), c\<^sub>1)" using demo_first_write [of "(3, 1)" "[]"] by auto
  have t: "''example.org:443'' = sni_target demo_options ''example.org''" "ch_type demo_hello = 0x01"
    by (simp_all add: sni_target_def demo_options_def rsplit_once_def rfind_char_def demo_hello_def)
  have o: "w_out (px_inner (demo_conn [])) = []" by (simp add: demo_conn_def conn_new_def)
  from sni_end_to_end [OF demo_b64_ok demo_hello_facts(1) t(2) demo_hello_facts(2) _ demo_hello_facts(5,3,4) w o demo_conn_at
      t(1) demo_allowed demo_chain_dial demo_tcp_at, of "\<lambda>_. hio_ok Finished" "[9]"] w
  show ?thesis by auto
qed



text \<open>C37. Bytes that share the first write with a ClientHello are lost: the client side reports the whole write as
  done, but what it sends or holds is the rewritten record alone, whatever followed it.\<close>

theorem sni_client_loses_rest:
  assumes "hello_ok h" "names h pre dest post" "decoy \<noteq> []"
    "sni_poll_write B (tls_record v h @ rest) (sni_client c decoy) = (Ready (Inr n), c')"
  shows "n = length (tls_record v h) + length rest \<and>
    sni_committed c' = w_out (px_inner c) @ tls_record v (hidden_hello B h pre dest decoy post)"
  using sni_first_write [OF assms] by simp

theorem sni_client_loses_rest_witness:
  "\<exists>c'. sni_poll_write demo_b64 (tls_record (3, 1) demo_hello @ [7, 8, 9]) (sni_client (demo_conn []) ''decoy.org'') =
       (Ready (Inr (length (tls_record (3, 1) demo_hello) + 3)), c') \<and> sni_committed c' = tls_record (3, 1) demo_hidden"
proof -
  obtain c' where w: "sni_poll_write demo_b64 (tls_record (3, 1) demo_hello @ [7, 8, 9]) (sni_client (demo_conn []) ''decoy.org'') =
      (Ready (Inr (length (tls_record (3, 1) demo_hello) + 3)), c')" using demo_first_write [of "(3, 1)" "[7, 8, 9]"] by auto
  have "w_out (px_inner (demo_conn [])) = []" by (simp add: demo_conn_def conn_new_def)
  with sni_client_loses_rest [OF demo_hello_facts(1,2) _ w] w show ?thesis by auto
qed

end
