(* ===== verification/HttpProxy.thy ===== *)
theory HttpProxy
  imports Sni Socks5Server
begin

text \<open>
  The HTTP proxy handler (\<^verbatim>\<open>src/src/http_proxy.rs\<close> and \<^verbatim>\<open>basic_proxy_auth\<close> of \<^verbatim>\<open>src/src/handler.rs\<close>): reading a request
  through a buffered reader, the decision on it, the answers to clients that are refused, with the
  decoys of probe resistance, and forwarding.
\<close>

section \<open>The outside\<close>

text \<open>
  Besides the host: the two base64 codecs, the URL parser, the clock, files, connections without a
  time limit (to an address, and to a host and a port), and the debugging text of an error.
\<close>

record http_libs =
  hl_standard :: base64_engine
  hl_url_safe :: base64_engine
  hl_url :: "string \<Rightarrow> string + url"
  hl_now_unix :: "nat \<Rightarrow> nat"
  hl_read_file :: "nat \<Rightarrow> string \<Rightarrow> io_error + bytes"
  hl_connect :: "nat \<Rightarrow> string \<Rightarrow> io_error + tcp_stream"
  hl_connect_pair :: "nat \<Rightarrow> string \<Rightarrow> u16 \<Rightarrow> io_error + tcp_stream"
  hl_debug :: "chain_error \<Rightarrow> string"

definition DEFAULT_PROXY_AGENT :: string where "DEFAULT_PROXY_AGENT = ''rt/2.1.0''"

section \<open>Text\<close>

text \<open>
  \<^verbatim>\<open>to_lowercase()\<close> as far as a search for lower-case ASCII text can see it: besides the capital letters, only
  the Kelvin sign becomes an ASCII letter on its own (U+0130 becomes an \<^verbatim>\<open>i\<close> with a combining dot, after
  which none of the searched texts goes on).
\<close>

fun http_lower :: "string \<Rightarrow> string" where
  "http_lower [] = []"
| "http_lower (c # s) =
     (if prefix [CHR 0xE2, CHR 0x84, CHR 0xAA] (c # s) then CHR ''k'' # http_lower (drop 2 s)
      else to_ascii_lower_char c # http_lower s)"

definition lower_starts :: "string \<Rightarrow> string \<Rightarrow> bool" where
  "lower_starts p s = prefix p (http_lower s)"

definition basic_proxy_auth :: "base64_engine \<Rightarrow> string \<Rightarrow> string \<times> string \<times> bool" where
  "basic_proxy_auth B auth =
     (if auth = [] \<or> \<not> prefix ''Basic '' auth then ([], [], False)
      else case b64_decode B (as_bytes (drop 6 auth)) of
             Some decoded \<Rightarrow>
               (case split_once CHR '':'' (from_utf8_lossy decoded) of
                  Some (u, p) \<Rightarrow> (u, p, True)
                | None \<Rightarrow> ([], [], False))
           | None \<Rightarrow> ([], [], False))"

definition origin_form :: "http_libs \<Rightarrow> string \<Rightarrow> string" where
  "origin_form L target =
     (case hl_url L target of
        Inr url \<Rightarrow>
          if ur_host url \<noteq> None
          then (if ur_path url = [] then ''/'' else ur_path url)
               @ (case ur_query url of Some q \<Rightarrow> ''?'' @ q | None \<Rightarrow> [])
          else target
      | Inl _ \<Rightarrow> target)"

definition rebuild_request :: "http_libs \<Rightarrow> string \<Rightarrow> string \<Rightarrow> string list \<Rightarrow> string" where
  "rebuild_request L method target headers =
     method @ '' '' @ origin_form L target @ '' HTTP/1.1'' @ crlf
     @ concat (map (\<lambda>h. if \<not> lower_starts ''proxy-'' h then h @ crlf else []) headers) @ crlf"

datatype probe_resist = ProbeCode nat | ProbeWeb string | ProbeHost string | ProbeFile string

definition probe_resist_parse :: "string \<Rightarrow> probe_resist option" where
  "probe_resist_parse spec =
     (case split_once CHR '':'' spec of
        None \<Rightarrow> None
      | Some (mode, v) \<Rightarrow>
          if v = [] then None
          else if mode = ''code'' then map_option ProbeCode (parse_u16 v)
          else if mode = ''web'' then Some (ProbeWeb v)
          else if mode = ''host'' then Some (ProbeHost v)
          else if mode = ''file'' then Some (ProbeFile v)
          else None)"

subsection \<open>Dates\<close>

definition pad2 :: "int \<Rightarrow> string" where
  "pad2 n = (if length (show_int n) < 2 then ''0'' @ show_int n else show_int n)"

definition civil_from_days :: "int \<Rightarrow> int \<times> int \<times> int" where
  "civil_from_days days =
     (let z = days + 719468;
          era = z div 146097;
          doe = z mod 146097;
          yoe = (doe - doe div 1460 + doe div 36524 - doe div 146096) div 365;
          y = yoe + era * 400;
          doy = doe - (365 * yoe + yoe div 4 - yoe div 100);
          mp = (5 * doy + 2) div 153;
          d = doy - (153 * mp + 2) div 5 + 1;
          m = (if mp < 10 then mp + 3 else mp - 9);
          y = (if m \<le> 2 then y + 1 else y)
      in (y, m, d))"

definition http_date :: "nat \<Rightarrow> string" where
  "http_date unix_secs =
     (let days = int (unix_secs div 86400);
          secs_of_day = int (unix_secs mod 86400);
          weekday = nat ((days + 4) mod 7);
          (y, m, d) = civil_from_days days
      in [''Sun'', ''Mon'', ''Tue'', ''Wed'', ''Thu'', ''Fri'', ''Sat''] ! weekday @ '', '' @ pad2 d @ '' ''
         @ [''Jan'', ''Feb'', ''Mar'', ''Apr'', ''May'', ''Jun'', ''Jul'', ''Aug'', ''Sep'', ''Oct'', ''Nov'', ''Dec''] ! nat (m - 1)
         @ '' '' @ show_int y @ '' '' @ pad2 (secs_of_day div 3600) @ '':'' @ pad2 (secs_of_day mod 3600 div 60)
         @ '':'' @ pad2 (secs_of_day mod 60) @ '' GMT'')"

definition status_text :: "nat \<Rightarrow> string" where
  "status_text code =
     (if code = 200 then ''OK'' else if code = 400 then ''Bad Request'' else if code = 403 then ''Forbidden''
      else if code = 404 then ''Not Found'' else if code = 503 then ''Service Unavailable'' else ''OK'')"

definition camouflage_headers :: "nat \<Rightarrow> nat \<Rightarrow> nat \<Rightarrow> string option \<Rightarrow> string" where
  "camouflage_headers now code body_len content_type =
     ''HTTP/1.1 '' @ show_nat code @ '' '' @ status_text code @ crlf @ ''Server: nginx/1.14.1'' @ crlf
     @ ''Date: '' @ http_date now @ crlf
     @ (case content_type of Some ct \<Rightarrow> ''Content-Type: '' @ ct @ crlf | None \<Rightarrow> [])
     @ ''Content-Length: '' @ show_nat body_len @ crlf
     @ (if code = 200 then ''Connection: keep-alive'' @ crlf else []) @ crlf"

section \<open>Reading a request\<close>

text \<open>\<^verbatim>\<open>BufReader::read_line\<close>: the bytes of the line so far, what the reader holds, and the connection below.\<close>

definition BUF_READER_SIZE :: nat where "BUF_READER_SIZE = 8 * 1024"

lemma conn_await_read_weight_bytes:
  "conn_await_read cap c = (Inr bs, c') \<Longrightarrow> conn_weight c' + length bs \<le> conn_weight c"
proof (induction cap c rule: conn_await_read.induct)
  case (1 cap c)
  obtain x c1 where x: "conn_poll_read cap c = (x, c1)" by (cases "conn_poll_read cap c")
  show ?case
  proof (cases x)
    case Pending
    then show ?thesis using 1 x conn_read_weight [OF x] by (fastforce simp: conn_await_read.simps [of cap c])
  next
    case (Ready y)
    then show ?thesis using 1(2) x conn_read_weight_bytes [of cap c bs c1] by (auto simp: conn_await_read.simps [of cap c])
  qed
qed

function br_line :: "bytes \<Rightarrow> bytes \<Rightarrow> proxy_conn \<Rightarrow> (io_error + bytes \<times> bytes) \<times> proxy_conn" where
  "br_line acc buf c =
     (case find_pred (\<lambda>b. b = 0x0A) buf of
        Some i \<Rightarrow> (Inr (acc @ take (Suc i) buf, drop (Suc i) buf), c)
      | None \<Rightarrow>
          (case conn_await_read BUF_READER_SIZE c of
             (Inl e, c') \<Rightarrow> (Inl e, c')
           | (Inr chunk, c') \<Rightarrow> if chunk = [] then (Inr (acc @ buf, []), c') else br_line (acc @ buf) chunk c'))"
  by pat_completeness auto
termination
  by (relation "measure (\<lambda>(_, _, c). conn_weight c)") (auto intro: conn_await_read_weight [OF sym])

declare br_line.simps [simp del]

definition read_line :: "bytes \<Rightarrow> (handler_error, string \<times> bytes) io" where
  "read_line buf c =
     (case br_line [] buf c of
        (Inl e, c') \<Rightarrow> (Inl (HandlerIo e), c')
      | (Inr (line, buf'), c') \<Rightarrow>
          (case utf8_line (of_bytes line) of
             Inl e \<Rightarrow> (Inl (HandlerIo e), c')
           | Inr l \<Rightarrow> (Inr (l, buf'), c')))"

lemma br_line_weight:
  "br_line acc buf c = (Inr (line, buf'), c') \<Longrightarrow>
     conn_weight c' + length buf' + length line \<le> conn_weight c + length buf + length acc"
proof (induction acc buf c rule: br_line.induct)
  case (1 acc buf c)
  show ?case
  proof (cases "find_pred (\<lambda>b. b = 0x0A) buf")
    case None
    obtain x c1 where x: "conn_await_read BUF_READER_SIZE c = (x, c1)" by (cases "conn_await_read BUF_READER_SIZE c")
    then obtain chunk where chunk: "x = Inr chunk" using 1(2) None by (cases x) (auto simp: br_line.simps [of acc buf c])
    note w = conn_await_read_weight_bytes [OF x [unfolded chunk]]
    show ?thesis
    proof (cases "chunk = []")
      case True
      then show ?thesis using 1(2) None x chunk w by (simp add: br_line.simps [of acc buf c]) (auto)
    next
      case False
      then have "br_line (acc @ buf) chunk c1 = (Inr (line, buf'), c')" using 1(2) None x chunk by (simp add: br_line.simps [of acc buf c])
      from 1(1) [OF None x [symmetric] chunk False this] w show ?thesis by simp
    qed
  next
    case (Some i)
    then have "i < length buf" by (auto elim: find_pred_SomeE)
    then show ?thesis using 1(2) Some by (auto simp: br_line.simps [of acc buf c])
  qed
qed

lemma read_line_weight:
  assumes "read_line buf c = (Inr (l, buf'), c')"
  shows "conn_weight c' + length buf' + length l \<le> conn_weight c + length buf"
proof -
  obtain line where "br_line [] buf c = (Inr (line, buf'), c')" "l = of_bytes line"
    using assms by (auto simp: read_line_def utf8_line_def split: prod.splits sum.splits if_splits)
  then show ?thesis using br_line_weight [of "[]" buf c line buf' c'] by (simp add: of_bytes_def)
qed

record http_head =
  hh_headers :: "string list"
  hh_proxy_auth :: string
  hh_host :: string
  hh_gost_target :: string

definition http_header_line :: "string \<Rightarrow> http_head \<Rightarrow> http_head" where
  "http_header_line trimmed h =
     (let push = (\<lambda>h. h\<lparr>hh_headers := hh_headers h @ [trimmed]\<rparr>)
      in if lower_starts ''proxy-authorization:'' trimmed then push (h\<lparr>hh_proxy_auth := trim (drop 20 trimmed)\<rparr>)
         else if lower_starts ''host:'' trimmed then push (h\<lparr>hh_host := trim (drop 5 trimmed)\<rparr>)
         else if lower_starts ''gost-target:'' trimmed then h\<lparr>hh_gost_target := trim (drop 12 trimmed)\<rparr>
         else push h)"

function http_header_loop :: "http_head \<Rightarrow> bytes \<Rightarrow> (handler_error, http_head \<times> bytes) io" where
  "http_header_loop h buf c =
     (case read_line buf c of
        (Inl e, c') \<Rightarrow> (Inl e, c')
      | (Inr (line, buf'), c') \<Rightarrow>
          if trim line = [] then (Inr (h, buf'), c')
          else http_header_loop (http_header_line (trim line) h) buf' c')"
  by pat_completeness auto
termination
proof (relation "measure (\<lambda>(_, buf, c). conn_weight c + length buf)", goal_cases)
  case (2 h buf c r c' x line buf')
  then have "read_line buf c = (Inr (line, buf'), c')" "line \<noteq> []" by (auto simp: trim_Nil)
  then have "conn_weight c' + length buf' + length line \<le> conn_weight c + length buf" "0 < length line"
    by (auto dest: read_line_weight)
  then have "conn_weight c' + length buf' < conn_weight c + length buf" by linarith
  then show ?case using 2 by simp
qed simp

declare http_header_loop.simps [simp del]

text \<open>The private target of an SNI client takes the place of the host.\<close>

fun replace_host :: "string \<Rightarrow> string list \<Rightarrow> string list" where
  "replace_host r [] = []"
| "replace_host r (h # hs) = (if lower_starts ''host:'' h then (''Host: '' @ r) # hs else h # replace_host r hs)"

definition apply_gost_target :: "http_libs \<Rightarrow> http_head \<Rightarrow> http_head" where
  "apply_gost_target L h =
     (if hh_gost_target h \<noteq> []
      then (case decode_server_name (hl_url_safe L) (hh_gost_target h) of
              Some r \<Rightarrow> h\<lparr>hh_headers := replace_host r (hh_headers h), hh_host := r\<rparr>
            | None \<Rightarrow> h)
      else h)"

record http_request =
  rq_method :: string
  rq_target :: string
  rq_head :: http_head
  rq_pipelined :: bytes

text \<open>The whole request; nothing when the connection ends before its first byte.\<close>

definition http_read_request :: "http_libs \<Rightarrow> (handler_error, http_request option) io" where
  "http_read_request L =
     io_bind (read_line []) (\<lambda>(request_line, buf).
     if request_line = [] then io_ok None
     else let parts = split_ws [] request_line
          in if length parts < 3 then io_err (HandlerProxy ''malformed request'')
             else io_bind (http_header_loop \<lparr>hh_headers = [], hh_proxy_auth = [], hh_host = [], hh_gost_target = []\<rparr> buf) (\<lambda>(h, buf).
               io_ok (Some \<lparr>rq_method = parts ! 0, rq_target = parts ! 1, rq_head = apply_gost_target L h, rq_pipelined = buf\<rparr>)))"

definition http_host :: "http_libs \<Rightarrow> http_request \<Rightarrow> string" where
  "http_host L rq =
     (if rq_method rq = ''CONNECT'' then rq_target rq
      else case hl_url L (rq_target rq) of
             Inr url \<Rightarrow>
               (case ur_host url of Some h \<Rightarrow> h | None \<Rightarrow> hh_host (rq_head rq)) @ '':''
               @ show_nat (case ur_port url of Some p \<Rightarrow> unat p | None \<Rightarrow> 80)
           | Inl _ \<Rightarrow>
               let h = (if hh_host (rq_head rq) = [] then rq_target rq else hh_host (rq_head rq))
               in if CHR '':'' \<in> set h then h else h @ '':80'')"

section \<open>Refusals\<close>

definition proxy_agent :: "('r, 'n) handler_options \<Rightarrow> string" where
  "proxy_agent ho = (if ho_proxy_agent ho = [] then DEFAULT_PROXY_AGENT else ho_proxy_agent ho)"

definition http_authenticate :: "('r, 'n) handler_options \<Rightarrow> string \<Rightarrow> string \<Rightarrow> bool" where
  "http_authenticate ho u p = (case ho_authenticator ho of Some auth \<Rightarrow> auth u p | None \<Rightarrow> True)"

definition http_write :: "string \<Rightarrow> unit hio" where
  "http_write s = hio_io (io_write HandlerIo (as_bytes s))"

definition http_answer :: "string \<Rightarrow> ('r, 'n) handler_options \<Rightarrow> string" where
  "http_answer status ho = ''HTTP/1.1 '' @ status @ crlf @ ''Proxy-Agent: '' @ proxy_agent ho @ crlf @ crlf"

text \<open>\<^verbatim>\<open>read_to_end\<close>.\<close>

function read_to_end :: "bytes \<Rightarrow> proxy_conn \<Rightarrow> (io_error + bytes) \<times> proxy_conn" where
  "read_to_end acc c =
     (case conn_await_read 32 c of
        (Inl e, c') \<Rightarrow> (Inl e, c')
      | (Inr chunk, c') \<Rightarrow> if chunk = [] then (Inr acc, c') else read_to_end (acc @ chunk) c')"
  by pat_completeness auto
termination
  by (relation "measure (\<lambda>(_, c). conn_weight c)") (auto intro: conn_await_read_weight [OF sym])

declare read_to_end.simps [simp del]

definition fetch_decoy :: "http_libs \<Rightarrow> string \<Rightarrow> world \<Rightarrow> (handler_error + bytes) \<times> world" where
  "fetch_decoy L url w =
     (let url = (if prefix ''http'' url then url else ''http://'' @ url)
      in case hl_url L url of
           Inl e \<Rightarrow> (Inl (HandlerProxy (''invalid probe_resist url: '' @ e)), w)
         | Inr parsed \<Rightarrow>
             if ur_scheme parsed \<noteq> ''http'' then (Inl (HandlerProxy ''probe_resist web: only http:// decoys are supported''), w)
             else case ur_host parsed of
               None \<Rightarrow> (Inl (HandlerProxy ''probe_resist url has no host''), w)
             | Some host \<Rightarrow>
                 let port = (case ur_port parsed of Some p \<Rightarrow> p | None \<Rightarrow> 80);
                     path = ur_path parsed @ (case ur_query parsed of Some q \<Rightarrow> ''?'' @ q | None \<Rightarrow> []);
                     w' = logged (TcpConnect (host @ '':'' @ show_nat (unat port))) w;
                     req = ''GET '' @ (if path = [] then ''/'' else path) @ '' HTTP/1.1'' @ crlf @ ''Host: '' @ host @ crlf
                       @ ''User-Agent: '' @ DEFAULT_USER_AGENT @ crlf @ ''Connection: close'' @ crlf @ crlf
                 in case hl_connect_pair L (wd_tick w) host port of
                      Inl e \<Rightarrow> (Inl (HandlerIo e), w')
                    | Inr s \<Rightarrow>
                        (case conn_write_all (as_bytes req) (from_tcp s) of
                           (Inl e, _) \<Rightarrow> (Inl (HandlerIo e), w')
                         | (Inr _, decoy) \<Rightarrow>
                             (case read_to_end [] decoy of
                                (Inl e, _) \<Rightarrow> (Inl (HandlerIo e), w')
                              | (Inr body, _) \<Rightarrow> (Inr body, w'))))"

definition camouflage :: "http_libs \<Rightarrow> nat \<Rightarrow> nat \<Rightarrow> string option \<Rightarrow> unit hio" where
  "camouflage L code body_len content_type c w =
     http_write (camouflage_headers (hl_now_unix L (wd_tick w)) code body_len content_type) c (tick w)"

definition knock_matches :: "('r, 'n) handler_options \<Rightarrow> string \<Rightarrow> bool" where
  "knock_matches ho host \<longleftrightarrow>
     ho_knocking_host ho \<noteq> [] \<and>
     to_ascii_lowercase (hd (split_char CHR '':'' host)) = to_ascii_lowercase (ho_knocking_host ho)"

definition http_challenge :: "bool \<Rightarrow> string" where
  "http_challenge keep_alive =
     ''HTTP/1.1 407 Proxy Authentication Required'' @ crlf @ ''Proxy-Authenticate: Basic realm=\"gost\"'' @ crlf
     @ (if keep_alive then ''Connection: close'' @ crlf @ ''Proxy-Connection: close'' @ crlf else [])
     @ ''Content-Length: 0'' @ crlf @ crlf"

definition http_deny :: "http_libs \<Rightarrow> ('r, 'n) handler_options \<Rightarrow> string \<Rightarrow> bool \<Rightarrow> string \<Rightarrow> service hio" where
  "http_deny L ho host keep_alive request_head =
     (let resist = (if knock_matches ho host then None else probe_resist_parse (ho_probe_resist ho));
          finish = (\<lambda>m. hio_bind m (\<lambda>_. hio_ok Finished))
      in case resist of
           None \<Rightarrow> finish (http_write (http_challenge keep_alive))
         | Some (ProbeCode code) \<Rightarrow> finish (camouflage L code 0 None)
         | Some (ProbeFile path) \<Rightarrow>
             hio_bind (hio_net (\<lambda>w. (hl_read_file L (wd_tick w) path, tick w))) (\<lambda>r.
             case r of
               Inr body \<Rightarrow>
                 finish (hio_bind (camouflage L 200 (length body) (Some ''text/html'')) (\<lambda>_. hio_io (io_write HandlerIo body)))
             | Inl _ \<Rightarrow> finish (camouflage L 503 0 None))
         | Some (ProbeWeb url) \<Rightarrow>
             hio_bind (hio_net (fetch_decoy L url)) (\<lambda>r.
             case r of
               Inr response \<Rightarrow> finish (hio_io (io_write HandlerIo response))
             | Inl _ \<Rightarrow> finish (camouflage L 503 0 None))
         | Some (ProbeHost addr) \<Rightarrow>
             hio_bind (hio_net (\<lambda>w. (hl_connect L (wd_tick w) addr, logged (TcpConnect addr) w))) (\<lambda>r.
             case r of
               Inr s \<Rightarrow>
                 (case conn_write_all (as_bytes request_head) (from_tcp s) of
                    (Inl e, _) \<Rightarrow> hio_err (HandlerIo e)
                  | (Inr _, decoy) \<Rightarrow> hio_ok (Splice decoy))
             | Inl _ \<Rightarrow> finish (camouflage L 503 0 None)))"

section \<open>Serving a request\<close>

definition http_dial :: "('r, 'n, 't) host \<Rightarrow> ('r, 'n) handler_options \<Rightarrow> string \<Rightarrow> world \<Rightarrow> (chain_error + proxy_conn) \<times> world" where
  "http_dial H ho host = dial_tries (chain_dial (ht_net H) (the_chain ho) host) (if ho_retries ho > 0 then ho_retries ho else 1) EmptyChain"

definition forward_head :: "http_libs \<Rightarrow> http_request \<Rightarrow> string" where
  "forward_head L rq =
     rq_method rq @ '' '' @ origin_form L (rq_target rq) @ '' HTTP/1.1'' @ crlf
     @ concat (map (\<lambda>h. if \<not> lower_starts ''proxy-authorization'' h \<and> \<not> lower_starts ''proxy-connection'' h then h @ crlf else [])
         (hh_headers (rq_head rq))) @ crlf"

definition http_send :: "bytes \<Rightarrow> proxy_conn \<Rightarrow> service hio" where
  "http_send bs cc =
     (case conn_write_all bs cc of (Inl e, _) \<Rightarrow> hio_err (HandlerIo e) | (Inr _, cc) \<Rightarrow> hio_ok (Splice cc))"

definition http_relay :: "http_libs \<Rightarrow> ('r, 'n) handler_options \<Rightarrow> http_request \<Rightarrow> proxy_conn \<Rightarrow> service hio" where
  "http_relay L ho rq cc =
     (if rq_method rq = ''CONNECT''
      then hio_bind (http_write (http_answer ''200 Connection established'' ho)) (\<lambda>_.
             if rq_pipelined rq \<noteq> [] then http_send (rq_pipelined rq) cc else hio_ok (Splice cc))
      else hio_bind (http_send (as_bytes (forward_head L rq)) cc) (\<lambda>s.
             case s of
               Splice cc \<Rightarrow> if rq_pipelined rq \<noteq> [] then http_send (rq_pipelined rq) cc else hio_ok (Splice cc)
             | s \<Rightarrow> hio_ok s))"

definition http_keep_alive :: "http_request \<Rightarrow> bool" where
  "http_keep_alive rq =
     list_ex (\<lambda>h. lower_starts ''proxy-connection:'' h \<and> str_find ''keep-alive'' (http_lower h) \<noteq> None) (hh_headers (rq_head rq))"

definition http_serve :: "http_libs \<Rightarrow> ('r, 'n, 't) host \<Rightarrow> ('r, 'n) handler_options \<Rightarrow> http_request \<Rightarrow> service hio" where
  "http_serve L H ho rq =
     (let host = http_host L rq
      in if \<not> allowed ho ''tcp'' host then hio_bind (http_write (http_answer ''403 Forbidden'' ho)) (\<lambda>_. hio_ok Finished)
         else if bypassed (ht_libs H) ho host then hio_bind (http_write (http_answer ''403 Forbidden'' ho)) (\<lambda>_. hio_ok Finished)
         else let (u, p, _) = basic_proxy_auth (hl_standard L) (hh_proxy_auth (rq_head rq))
              in if \<not> http_authenticate ho u p
                 then http_deny L ho host (http_keep_alive rq)
                        (rebuild_request L (rq_method rq) (rq_target rq) (hh_headers (rq_head rq)))
                 else hio_bind (hio_net (http_dial H ho host)) (\<lambda>r.
                   case r of
                     Inr cc \<Rightarrow> http_relay L ho rq cc
                   | Inl e \<Rightarrow>
                       hio_bind (http_write (http_answer ''503 Service Unavailable'' ho)) (\<lambda>_.
                       hio_err (HandlerProxy (''failed to connect to '' @ host @ '': Some('' @ hl_debug L e @ '')'')))))"

definition http_handle :: "http_libs \<Rightarrow> ('r, 'n, 't) host \<Rightarrow> ('r, 'n) handler_options \<Rightarrow> service hio" where
  "http_handle L H ho =
     hio_bind (hio_io (http_read_request L)) (\<lambda>r.
     case r of None \<Rightarrow> hio_ok Finished | Some rq \<Rightarrow> http_serve L H ho rq)"

end
