(* ===== verification/HttpServer.thy ===== *)
theory HttpServer
  imports HttpProxy
begin

text \<open>
  What the HTTP proxy handler does: which bytes of the client it takes, for whom it dials, what the
  origin gets, and that the HTTP connector of a chain is served by it.
\<close>

section \<open>The buffered reader\<close>

text \<open>A reader that holds \<open>buf\<close> over a connection, \<open>ys\<close> being all that will come.\<close>

definition reader_at :: "socket_addr option \<Rightarrow> bytes \<Rightarrow> bytes \<Rightarrow> bytes \<Rightarrow> proxy_conn \<Rightarrow> bool" where
  "reader_at l ys out buf c \<longleftrightarrow> (\<exists>zs. ys = buf @ zs \<and> conn_at l zs out c)"

lemma conn_await_read_at:
  assumes "conn_at l zs out c" "conn_await_read cap c = (r, c')" "0 < cap" "zs \<noteq> []"
  obtains chunk where "r = Inr chunk" "chunk \<noteq> []" "zs = chunk @ drop (length chunk) zs" "conn_at l (drop (length chunk) zs) out c'"
proof -
  have ok: "conn_ok c" "content c = zs" using assms(1) by (simp_all add: conn_at_def)
  note a = conn_await_read_cases [OF ok(1) assms(2)]
  obtain chunk where r: "r = Inr chunk" using a ok(2) assms(4) by (cases r) auto
  then have c: "zs = chunk @ content c'" "chunk \<noteq> []" "conn_ok c'" "conn_frame c' = conn_frame c" "short_error c' = short_error c"
    using a ok(2) assms(3,4) by auto
  then have "conn_at l (content c') out c'" using assms(1) frame_fields [OF c(4)] by (simp add: conn_at_def)
  moreover have "drop (length chunk) zs = content c'" using c(1) by simp
  ultimately show ?thesis using that r c(1,2) by simp
qed

lemma br_line_at:
  assumes "reader_at l (pre @ 0x0A # rest) out buf c" "0x0A \<notin> set pre"
  shows "\<exists>buf' c'. br_line acc buf c = (Inr (acc @ pre @ [0x0A], buf'), c') \<and> reader_at l rest out buf' c'"
  using assms
proof (induction acc buf c arbitrary: pre rule: br_line.induct)
  case (1 acc buf c)
  obtain zs where zs: "pre @ 0x0A # rest = buf @ zs" "conn_at l zs out c" using 1(2) by (auto simp: reader_at_def)
  show ?case
  proof (cases "0x0A \<in> set buf")
    case True
    obtain a b where ab: "buf = a @ 0x0A # b" "0x0A \<notin> set a" using True by (meson split_list_first)
    have "pre = a \<and> rest = b @ zs" using zs(1) ab 1(3) by (auto simp: append_eq_append_conv2 Cons_eq_append_conv append_eq_Cons_conv)
    moreover have "find_pred (\<lambda>b. b = 0x0A) buf = Some (length a)" using ab by (auto intro: find_pred_append)
    then have "br_line acc buf c = (Inr (acc @ a @ [0x0A], b), c)" using ab(1) by (subst br_line.simps) simp
    ultimately show ?thesis using zs(2) by (auto simp: reader_at_def)
  next
    case False
    then have n: "find_pred (\<lambda>b. b = 0x0A) buf = None" by auto
    obtain pre' where p: "pre = buf @ pre'" "zs = pre' @ 0x0A # rest"
      using zs(1) False by (auto simp: append_eq_append_conv2 Cons_eq_append_conv append_eq_Cons_conv)
    obtain r c1 where r: "conn_await_read BUF_READER_SIZE c = (r, c1)" by (cases "conn_await_read BUF_READER_SIZE c")
    obtain chunk where ch: "r = Inr chunk" "chunk \<noteq> []" "zs = chunk @ drop (length chunk) zs" "conn_at l (drop (length chunk) zs) out c1"
      by (rule conn_await_read_at [OF zs(2) r]) (use p(2) in \<open>simp_all add: BUF_READER_SIZE_def\<close>)
    have "reader_at l (pre' @ 0x0A # rest) out chunk c1" using ch(3,4) p(2) by (auto simp: reader_at_def)
    then obtain buf' c' where "br_line (acc @ buf) chunk c1 = (Inr ((acc @ buf) @ pre' @ [0x0A], buf'), c')" "reader_at l rest out buf' c'"
      using 1(1) [OF n r [symmetric] ch(1,2)] 1(3) p(1) by fastforce
    moreover have "br_line acc buf c = br_line (acc @ buf) chunk c1" using r ch(1,2) by (subst br_line.simps) (simp only: n option.case prod.case sum.case if_False)
    ultimately show ?thesis using p(1) by simp
  qed
qed

lemma runs_read_line:
  assumes "reader_at l (as_bytes line @ rest) out buf c" "line = body @ [CHR 0x0A]" "CHR 0x0A \<notin> set body" "utf8_valid line"
    "\<And>buf' c'. reader_at l rest out buf' c' \<Longrightarrow> Q (Inr (line, buf')) c'"
  shows "runs (read_line buf) c Q"
proof -
  have b: "as_bytes line = as_bytes body @ [0x0A]" using assms(2) by (simp add: as_bytes_def byte_of_def)
  have "0x0A \<notin> set (as_bytes body)"
  proof
    assume "0x0A \<in> set (as_bytes body)"
    then obtain x where x: "x \<in> set body" "byte_of x = 0x0A" by (auto simp: as_bytes_def)
    have "char_of_byte 0x0A = CHR 0x0A" by code_simp
    then have "x = CHR 0x0A" using x(2) char_of_byte_of [of x] by simp
    with x(1) assms(3) show False by simp
  qed
  moreover have "reader_at l (as_bytes body @ 0x0A # rest) out buf c" using assms(1) b by simp
  ultimately obtain buf' c' where r: "br_line [] buf c = (Inr (as_bytes line, buf'), c')" "reader_at l rest out buf' c'"
    using br_line_at [of l "as_bytes body" rest out buf c "[]"] b by auto
  then have "read_line buf c = (Inr (line, buf'), c')" using assms(4) by (simp add: read_line_def utf8_line_def del: utf8_valid.simps)
  with assms(5) [OF r(2)] show ?thesis by (simp add: runs_def)
qed

text \<open>What was read is what is missing.\<close>

definition same_conn :: "proxy_conn \<Rightarrow> proxy_conn \<Rightarrow> bool" where
  "same_conn c c' \<longleftrightarrow> conn_ok c' \<and> conn_frame c' = conn_frame c \<and> short_error c' = short_error c"

lemma same_conn_trans: "same_conn a b \<Longrightarrow> same_conn b c \<Longrightarrow> same_conn a c"
  by (simp add: same_conn_def)

lemma same_conn_at: "same_conn c c' \<Longrightarrow> conn_at l zs out c \<Longrightarrow> conn_at l (content c') out c'"
  using frame_fields [of c' c] by (simp add: conn_at_def same_conn_def)

lemma br_line_took:
  "br_line acc buf c = (Inr (line, buf'), c') \<Longrightarrow> conn_ok c \<Longrightarrow>
     acc @ buf @ content c = line @ buf' @ content c' \<and> same_conn c c'"
proof (induction acc buf c rule: br_line.induct)
  case (1 acc buf c)
  show ?case
  proof (cases "find_pred (\<lambda>b. b = 0x0A) buf")
    case None
    obtain x c1 where x: "conn_await_read BUF_READER_SIZE c = (x, c1)" by (cases "conn_await_read BUF_READER_SIZE c")
    then obtain chunk where chunk: "x = Inr chunk" using 1(2) None by (cases x) (auto simp: br_line.simps [of acc buf c])
    have a: "content c = chunk @ content c1" "same_conn c c1" "chunk = [] \<longrightarrow> content c = []"
      using conn_await_read_cases [OF 1(3) x] chunk by (auto simp: same_conn_def BUF_READER_SIZE_def)
    show ?thesis
    proof (cases "chunk = []")
      case True
      then show ?thesis using 1(2) None x chunk a by (auto simp: br_line.simps [of acc buf c])
    next
      case False
      then have "br_line (acc @ buf) chunk c1 = (Inr (line, buf'), c')" using 1(2) None x chunk by (simp add: br_line.simps [of acc buf c])
      from 1(1) [OF None x [symmetric] chunk False this] a show ?thesis
        by (auto simp: same_conn_def)
    qed
  next
    case (Some i)
    then show ?thesis using 1(2,3) by (auto simp: br_line.simps [of acc buf c] same_conn_def)
  qed
qed

lemma read_line_took:
  assumes "read_line buf c = (Inr (l, buf'), c')" "conn_ok c"
  shows "buf @ content c = as_bytes l @ buf' @ content c'" "same_conn c c'"
proof -
  obtain line where "br_line [] buf c = (Inr (line, buf'), c')" "as_bytes l = line"
    using assms(1) by (auto simp: read_line_def utf8_line_def split: prod.splits sum.splits if_splits)
  with br_line_took [of "[]" buf c line buf' c'] assms(2)
  show "buf @ content c = as_bytes l @ buf' @ content c'" "same_conn c c'" by simp_all
qed

lemma header_loop_took:
  "http_header_loop h buf c = (Inr (h', buf'), c') \<Longrightarrow> conn_ok c \<Longrightarrow>
     (\<exists>head. buf @ content c = head @ buf' @ content c') \<and> same_conn c c'"
proof (induction h buf c rule: http_header_loop.induct)
  case (1 h buf c)
  obtain r c1 where r: "read_line buf c = (r, c1)" by (cases "read_line buf c")
  then obtain line buf1 where l: "r = Inr (line, buf1)" using 1(2) by (cases r) (auto simp: http_header_loop.simps [of h buf c])
  note t = read_line_took [OF r [unfolded l] 1(3)]
  show ?case
  proof (cases "trim line = []")
    case True
    then show ?thesis using 1(2) r l t by (auto simp: http_header_loop.simps [of h buf c])
  next
    case False
    then have "http_header_loop (http_header_line (trim line) h) buf1 c1 = (Inr (h', buf'), c')"
      using 1(2) r l by (simp add: http_header_loop.simps [of h buf c])
    from 1(1) [OF r [symmetric] l refl False this] t obtain head where
      "buf1 @ content c1 = head @ buf' @ content c'" "same_conn c1 c'" by (auto simp: same_conn_def)
    then have "buf @ content c = (as_bytes line @ head) @ buf' @ content c'" "same_conn c c'"
      using t by (auto intro: same_conn_trans)
    then show ?thesis by blast
  qed
qed

lemma http_read_took:
  assumes "http_read_request L c = (Inr (Some rq), c')" "conn_ok c"
  shows "\<exists>head. content c = head @ rq_pipelined rq @ content c'" "same_conn c c'"
proof -
  obtain line buf c1 h buf' where r: "read_line [] c = (Inr (line, buf), c1)"
    "http_header_loop \<lparr>hh_headers = [], hh_proxy_auth = [], hh_host = [], hh_gost_target = []\<rparr> buf c1 = (Inr (h, buf'), c')" "rq_pipelined rq = buf'"
    using assms(1) by (auto simp: http_read_request_def io_bind_Inr io_ok_Inr io_err_Inr Let_def split: if_splits)
  note t = read_line_took [OF r(1) assms(2)]
  have "conn_ok c1" using t(2) by (simp add: same_conn_def)
  from header_loop_took [OF r(2) this] obtain head where "buf @ content c1 = head @ buf' @ content c'" "same_conn c1 c'" by blast
  then have "content c = (as_bytes line @ head) @ rq_pipelined rq @ content c'" "same_conn c c'"
    using t r(3) by (auto intro: same_conn_trans)
  then show "\<exists>head. content c = head @ rq_pipelined rq @ content c'" "same_conn c c'" by blast+
qed

section \<open>Whom the handler dials for\<close>

text \<open>The host probe resistance hands a client to, or asks for a page.\<close>

definition decoy_of :: "http_libs \<Rightarrow> ('r, 'n) handler_options \<Rightarrow> string \<Rightarrow> bool" where
  "decoy_of L ho addr \<longleftrightarrow>
     (case probe_resist_parse (ho_probe_resist ho) of
        Some (ProbeHost a) \<Rightarrow> addr = a
      | Some (ProbeWeb u) \<Rightarrow>
          \<exists>url h. hl_url L (if prefix ''http'' u then u else ''http://'' @ u) = Inr url \<and> ur_host url = Some h \<and>
            addr = h @ '':'' @ show_nat (case ur_port url of Some p \<Rightarrow> unat p | None \<Rightarrow> 80)
      | _ \<Rightarrow> False)"

lemma hio_write_finish:
  assumes "hio_bind (http_write s) (\<lambda>_. hio_ok Finished) c w = (r, c', w')"
  shows "w' = w \<and> r \<noteq> Inr (Splice cc)"
  using assms by (auto simp: hio_bind_def http_write_def hio_io_def hio_ok_def split: prod.splits sum.splits)

lemma fetch_decoy_log:
  assumes "fetch_decoy L u w = (r, w')" "probe_resist_parse (ho_probe_resist ho) = Some (ProbeWeb u)"
  shows "wd_log w' = wd_log w \<or> (\<exists>addr. decoy_of L ho addr \<and> wd_log w' = wd_log w @ [TcpConnect addr])"
proof -
  let ?u = "if prefix ''http'' u then u else ''http://'' @ u"
  show ?thesis
  proof (cases "hl_url L ?u")
    case (Inl e)
    then show ?thesis using assms(1) by (simp add: fetch_decoy_def)
  next
    case (Inr url)
    show ?thesis
    proof (cases "ur_host url")
      case None
      then show ?thesis using assms(1) Inr by (auto simp: fetch_decoy_def Let_def split: if_splits)
    next
      case (Some h)
      let ?a = "h @ '':'' @ show_nat (case ur_port url of Some p \<Rightarrow> unat p | None \<Rightarrow> 80)"
      have "decoy_of L ho ?a" using assms(2) Inr Some unfolding decoy_of_def by simp
      moreover have "wd_log w' = wd_log w \<or> wd_log w' = wd_log w @ [TcpConnect ?a]" using assms(1) Inr Some
        by (cases "ur_port url") (auto simp: fetch_decoy_def logged_def Let_def split: if_splits sum.splits prod.splits)
      ultimately show ?thesis by blast
    qed
  qed
qed

lemma camouflage_log:
  assumes "hio_bind (camouflage L code n ct) (\<lambda>_. hio_ok Finished) c w = (r, c', w')"
  shows "wd_log w' = wd_log w \<and> r \<noteq> Inr (Splice cc)"
  using assms by (auto simp: hio_bind_def camouflage_def http_write_def hio_io_def hio_ok_def tick_def split: prod.splits sum.splits)

lemma http_deny_log:
  assumes "http_deny L ho host ka head c w = (r, c', w')"
  shows "(wd_log w' = wd_log w \<and> (\<forall>cc. r \<noteq> Inr (Splice cc))) \<or> (\<exists>addr. decoy_of L ho addr \<and> wd_log w' = wd_log w @ [TcpConnect addr])"
proof (cases "knock_matches ho host")
  case True
  then show ?thesis using assms hio_write_finish by (fastforce simp: http_deny_def)
next
  case F: False
  show ?thesis
  proof (cases "probe_resist_parse (ho_probe_resist ho)")
    case None
    then show ?thesis using F assms hio_write_finish by (fastforce simp: http_deny_def)
  next
    case (Some p)
    show ?thesis
    proof (cases p)
      case (ProbeCode code)
      then show ?thesis using F Some assms camouflage_log by (fastforce simp: http_deny_def)
    next
      case (ProbeFile path)
      then show ?thesis using F Some assms
        by (auto simp: http_deny_def hio_bind_def hio_net_def camouflage_def http_write_def hio_io_def hio_ok_def tick_def split: prod.splits sum.splits)
    next
      case (ProbeWeb u)
      obtain x v where x: "fetch_decoy L u w = (x, v)" by (cases "fetch_decoy L u w")
      have "wd_log w' = wd_log v \<and> (\<forall>cc. r \<noteq> Inr (Splice cc))" using F Some ProbeWeb x assms
        by (auto simp: http_deny_def hio_bind_def hio_net_def camouflage_def http_write_def hio_io_def hio_ok_def tick_def split: prod.splits sum.splits)
      then show ?thesis using fetch_decoy_log [OF x Some [unfolded ProbeWeb]] by auto
    next
      case (ProbeHost addr)
      have "decoy_of L ho addr" using Some ProbeHost by (simp add: decoy_of_def)
      moreover have "wd_log w' = wd_log w @ [TcpConnect addr]" using F Some ProbeHost assms
        by (auto simp: http_deny_def hio_bind_def hio_net_def camouflage_def http_write_def hio_io_def hio_ok_def hio_err_def tick_def logged_def
            split: prod.splits sum.splits)
      ultimately show ?thesis by blast
    qed
  qed
qed

lemma http_relay_world: "http_relay L ho rq cc c w = (r, c', w') \<Longrightarrow> w' = w"
  by (auto simp: http_relay_def http_send_def http_write_def hio_bind_def hio_io_def hio_ok_def hio_err_def
      split: if_splits prod.splits sum.splits service.splits)

lemma http_serve_gate:
  assumes "http_serve L H ho rq c w = (r, c', w')" "wd_log w' \<noteq> wd_log w \<or> (\<exists>cc. r = Inr (Splice cc))"
    "basic_proxy_auth (hl_standard L) (hh_proxy_auth (rq_head rq)) = (u, p, ok)"
  shows "allowed ho ''tcp'' (http_host L rq) \<and> \<not> bypassed (ht_libs H) ho (http_host L rq) \<and>
    (if http_authenticate ho u p then w' = snd (http_dial H ho (http_host L rq) w)
     else \<exists>addr. decoy_of L ho addr \<and> wd_log w' = wd_log w @ [TcpConnect addr])"
proof -
  let ?h = "http_host L rq"
  have no: "\<not> (w' = w \<and> (\<forall>cc. r \<noteq> Inr (Splice cc)))" using assms(2) by auto
  have a: "allowed ho ''tcp'' ?h"
  proof (rule ccontr)
    assume "\<not> allowed ho ''tcp'' ?h"
    then show False using assms(1) no hio_write_finish by (fastforce simp: http_serve_def Let_def)
  qed
  have b: "\<not> bypassed (ht_libs H) ho ?h"
  proof
    assume "bypassed (ht_libs H) ho ?h"
    then show False using assms(1) no a hio_write_finish by (fastforce simp: http_serve_def Let_def)
  qed
  show ?thesis
  proof (cases "http_authenticate ho u p")
    case True
    obtain x v where x: "http_dial H ho ?h w = (x, v)" by (cases "http_dial H ho ?h w")
    then have "w' = v" using assms(1,3) a b True
      by (auto simp: http_serve_def Let_def hio_bind_def hio_net_def http_write_def hio_io_def hio_err_def split: sum.splits prod.splits
          dest: http_relay_world)
    then show ?thesis using a b True x by simp
  next
    case False
    then obtain ka head where "http_deny L ho ?h ka head c w = (r, c', w')" using assms(1,3) a b by (auto simp: http_serve_def Let_def)
    from http_deny_log [OF this] assms(2) a b False show ?thesis by auto
  qed
qed

lemma http_handle_cases:
  assumes "http_handle L H ho c w = (r, c', w')" "wd_log w' \<noteq> wd_log w \<or> (\<exists>cc. r = Inr (Splice cc))"
  obtains rq c1 where "http_read_request L c = (Inr (Some rq), c1)" "http_serve L H ho rq c1 w = (r, c', w')"
proof -
  obtain x c1 where x: "http_read_request L c = (x, c1)" by (cases "http_read_request L c")
  then show ?thesis using assms that
    by (cases x) (auto simp: http_handle_def hio_bind_def hio_io_def hio_ok_def split: option.splits)
qed

section \<open>A hop of a chain and this server\<close>

lemma graphic_ascii: "list_all graphic s \<Longrightarrow> ascii s"
  by (auto simp: ascii_def list_all_iff graphic_def byte_in_def)

lemma trim_crlf:
  assumes "s \<noteq> []" "graphic (hd s)" "graphic (last s)"
  shows "trim (s @ crlf) = s"
proof -
  have a: "trim_start (s @ crlf) = s @ crlf" unfolding trim_start_def
    by (rule trim_with_id) (use assms(1,2) graphic_not_ws_hd in auto)
  have "trim_with (map rev ws_enc) (CHR 0x0A # CHR 0x0D # rev s) = trim_with (map rev ws_enc) (CHR 0x0D # rev s)"
    by (subst trim_with.simps) (simp add: ws_enc_def)
  also have "\<dots> = trim_with (map rev ws_enc) (rev s)"
    by (subst trim_with.simps) (simp add: ws_enc_def)
  also have "\<dots> = rev s"
    by (rule trim_with_id) (use assms graphic_not_ws_hd in \<open>auto simp: hd_rev\<close>)
  finally show ?thesis using a by (simp add: trim_def trim_end_def crlf_def)
qed

lemma trim_blank: "trim crlf = []"
proof -
  have "trim_start crlf = []" unfolding trim_start_def crlf_def
    by (subst trim_with.simps, simp add: ws_enc_def, subst trim_with.simps, simp, subst trim_with.simps, simp)
  then show ?thesis unfolding trim_def trim_end_def by (subst trim_with.simps) (simp add: ws_enc_def)
qed

lemma split_ws_request:
  assumes "list_all graphic m" "m \<noteq> []" "list_all graphic t" "t \<noteq> []"
  shows "split_ws [] (m @ '' '' @ t @ '' HTTP/1.1'' @ crlf) = [m, t, ''HTTP/1.1'']"
proof -
  have e: "split_ws [] (CHR 0x0A # []) = []" "split_ws cur (CHR 0x0D # s) = (if cur = [] then [] else [cur]) @ split_ws [] s" for cur s
    by (subst split_ws.simps, simp add: ws_enc_def split_ws.simps [of "[]" "[]"])+
  have v: "list_all graphic ''HTTP/1.1''" by (simp add: graphic_def)
  have "split_ws [] (''HTTP/1.1'' @ crlf) = [''HTTP/1.1'']"
    unfolding split_ws_graphic [OF v] by (simp add: crlf_def e)
  then show ?thesis using split_ws_word(1) [OF assms(1,2), of "t @ '' HTTP/1.1'' @ crlf"] split_ws_word(1) [OF assms(3,4), of "''HTTP/1.1'' @ crlf"] by simp
qed

text \<open>Header lines as this program writes them, and the head they make.\<close>

definition plain_header :: "string \<Rightarrow> bool" where
  "plain_header s \<longleftrightarrow> s \<noteq> [] \<and> ascii s \<and> CHR 0x0A \<notin> set s \<and> graphic (hd s) \<and> graphic (last s)"

definition head_lines :: "string list \<Rightarrow> string" where
  "head_lines ss = concat (map (\<lambda>s. s @ crlf) ss) @ crlf"

lemma ascii_append [simp]: "ascii (s @ t) \<longleftrightarrow> ascii s \<and> ascii t"
  by (simp add: ascii_def)

lemma ascii_crlf [simp]: "ascii crlf"
  by (simp add: ascii_def crlf_def byte_in_def)

lemma runs_header_lines:
  assumes "reader_at l (as_bytes (head_lines ss) @ rest) out buf c" "list_all plain_header ss"
    "\<And>buf' c'. reader_at l rest out buf' c' \<Longrightarrow> Q (Inr (foldl (\<lambda>h s. http_header_line s h) h ss, buf')) c'"
  shows "runs (http_header_loop h buf) c Q"
  using assms
proof (induction ss arbitrary: h buf c)
  case Nil
  have "runs (read_line buf) c (\<lambda>r c'. \<exists>buf'. r = Inr (crlf, buf') \<and> reader_at l rest out buf' c')"
    by (rule runs_read_line [where body = "[CHR 0x0D]"]) (use Nil(1) in \<open>simp_all add: head_lines_def crlf_def byte_in_def\<close>)
  then obtain buf' c' where "read_line buf c = (Inr (crlf, buf'), c')" "reader_at l rest out buf' c'"
    by (auto simp: runs_def prod_eq_iff)
  then show ?case using Nil(3) by (simp add: runs_def http_header_loop.simps [of h buf c] trim_blank)
next
  case (Cons s ss)
  have p: "plain_header s" using Cons.prems(2) by simp
  have "utf8_valid (s @ crlf)" by (rule ascii_utf8) (use p in \<open>simp add: plain_header_def\<close>)
  moreover have "reader_at l (as_bytes (s @ crlf) @ as_bytes (head_lines ss) @ rest) out buf c"
    using Cons.prems(1) by (simp add: head_lines_def)
  ultimately have "runs (read_line buf) c (\<lambda>r c'. \<exists>buf'. r = Inr (s @ crlf, buf') \<and> reader_at l (as_bytes (head_lines ss) @ rest) out buf' c')"
    by - (rule runs_read_line [where body = "s @ [CHR 0x0D]"], assumption, use p in \<open>auto simp: crlf_def plain_header_def\<close>)
  then obtain buf' c' where r: "read_line buf c = (Inr (s @ crlf, buf'), c')" "reader_at l (as_bytes (head_lines ss) @ rest) out buf' c'"
    by (auto simp: runs_def prod_eq_iff)
  have t: "trim (s @ crlf) = s" "s \<noteq> []" using p trim_crlf by (auto simp: plain_header_def)
  have "runs (http_header_loop (http_header_line s h) buf') c' Q"
    by (rule Cons.IH [OF r(2)]) (use Cons.prems(2,3) in simp_all)
  then show ?case using r(1) t by (simp add: runs_def http_header_loop.simps [of h buf c])
qed

definition empty_head :: http_head where
  "empty_head = \<lparr>hh_headers = [], hh_proxy_auth = [], hh_host = [], hh_gost_target = []\<rparr>"

text \<open>A request of plain lines is read as it is meant, whatever the chunks it comes in.\<close>

lemma runs_request:
  assumes "conn_at l (as_bytes (m @ '' '' @ t @ '' HTTP/1.1'' @ crlf) @ as_bytes (head_lines ss) @ rest) out c"
    "list_all graphic m" "m \<noteq> []" "list_all graphic t" "t \<noteq> []" "list_all plain_header ss"
    "\<And>buf c'. reader_at l rest out buf c' \<Longrightarrow>
      Q (Inr (Some \<lparr>rq_method = m, rq_target = t, rq_head = apply_gost_target L (foldl (\<lambda>h s. http_header_line s h) empty_head ss),
        rq_pipelined = buf\<rparr>)) c'"
  shows "runs (http_read_request L) c Q"
proof -
  let ?l = "m @ '' '' @ t @ '' HTTP/1.1'' @ crlf"
  have r: "reader_at l (as_bytes ?l @ as_bytes (head_lines ss) @ rest) out [] c"
    using assms(1) unfolding reader_at_def by (simp only: append_Nil ex_simps simp_thms)
  have a: "ascii t" "CHR 0x0A \<notin> set t" "ascii m" "CHR 0x0A \<notin> set m"
    using assms(2,4) graphic_ascii by (auto simp: list_all_iff graphic_def)
  have u: "utf8_valid ?l" by (rule ascii_utf8) (use a in \<open>simp add: ascii_def crlf_def byte_in_def\<close>)
  have lf: "?l = (m @ '' '' @ t @ '' HTTP/1.1'' @ [CHR 0x0D]) @ [CHR 0x0A]" "CHR 0x0A \<notin> set (m @ '' '' @ t @ '' HTTP/1.1'' @ [CHR 0x0D])"
    using a by (simp_all add: crlf_def)
  let ?f = "\<lambda>(request_line, buf). if request_line = [] then io_ok None
     else let parts = split_ws [] request_line
          in if length parts < 3 then io_err (HandlerProxy ''malformed request'')
             else io_bind (http_header_loop empty_head buf) (\<lambda>(h, buf).
               io_ok (Some \<lparr>rq_method = parts ! 0, rq_target = parts ! 1, rq_head = apply_gost_target L h, rq_pipelined = buf\<rparr>))"
  have "runs (?f (?l, buf)) c' Q" if at: "reader_at l (as_bytes (head_lines ss) @ rest) out buf c'" for buf c'
  proof -
    have "runs (http_header_loop empty_head buf) c' (\<lambda>r c'. case r of Inl e \<Rightarrow> Q (Inl e) c' | Inr (h, buf) \<Rightarrow>
         Q (Inr (Some \<lparr>rq_method = m, rq_target = t, rq_head = apply_gost_target L h, rq_pipelined = buf\<rparr>)) c')"
      by (rule runs_header_lines [OF at assms(6)]) (simp add: assms(7))
    then show ?thesis unfolding prod.case split_ws_request [OF assms(2-5)] Let_def
      by (auto intro!: runs_bind elim!: runs_mono simp: runs_ok split: sum.splits)
  qed
  then have "runs (io_bind (read_line []) ?f) c Q" by (intro runs_bind runs_read_line [OF r lf u]) simp
  then show ?thesis unfolding http_read_request_def empty_head_def .
qed

text \<open>The request of the connector, line by line.\<close>

definition connect_headers :: "(bytes \<Rightarrow> string) \<Rightarrow> string \<Rightarrow> credentials \<Rightarrow> string list" where
  "connect_headers b64 target user =
     [''Host: '' @ target, ''User-Agent: '' @ DEFAULT_USER_AGENT, ''Proxy-Connection: keep-alive'']
     @ (case basic_credentials b64 user of Some creds \<Rightarrow> [''Proxy-Authorization: Basic '' @ creds] | None \<Rightarrow> [])"

lemma connect_request_lines:
  "as_bytes (connect_request b64 target user) @ rest =
   as_bytes (''CONNECT'' @ '' '' @ target @ '' HTTP/1.1'' @ crlf) @ as_bytes (head_lines (connect_headers b64 target user)) @ rest"
  by (simp add: connect_request_def connect_headers_def head_lines_def as_bytes_def split: option.splits)

definition codec_ok :: "base64_engine \<Rightarrow> bool" where
  "codec_ok B \<longleftrightarrow> (\<forall>bs. b64_decode B (as_bytes (b64_encode B bs)) = Some bs) \<and>
     (\<forall>bs. list_all graphic (b64_encode B bs)) \<and> (\<forall>bs. bs \<noteq> [] \<longrightarrow> b64_encode B bs \<noteq> [])"

definition user_fits :: "credentials \<Rightarrow> bool" where
  "user_fits user = (case user of Some (u, pw) \<Rightarrow> CHR '':'' \<notin> set u \<and> utf8_valid (u @ '':'' @ or_empty pw) | None \<Rightarrow> True)"

definition user_of :: "credentials \<Rightarrow> string \<times> string" where
  "user_of user = (case user of Some (u, pw) \<Rightarrow> (u, or_empty pw) | None \<Rightarrow> ([], []))"

lemma connect_auth:
  assumes "codec_ok B" "user_fits user"
  shows "\<exists>ok. basic_proxy_auth B (case basic_credentials (b64_encode B) user of Some creds \<Rightarrow> ''Basic '' @ creds | None \<Rightarrow> []) =
    (fst (user_of user), snd (user_of user), ok)"
proof (cases user)
  case None
  then show ?thesis by (auto simp: basic_credentials_def basic_proxy_auth_def user_of_def)
next
  case (Some c)
  obtain u pw where c: "c = (u, pw)" by (cases c)
  have "from_utf8_lossy (as_bytes (u @ '':'' @ or_empty pw)) = u @ '':'' @ or_empty pw"
    by (rule from_utf8_lossy_as_bytes) (use assms(2) Some c in \<open>simp add: user_fits_def del: utf8_valid.simps\<close>)
  moreover have "split_once CHR '':'' (u @ '':'' @ or_empty pw) = Some (u, or_empty pw)"
    using assms(2) Some c find_char_append [of "CHR '':''" u "or_empty pw"] by (simp add: split_once_def user_fits_def)
  ultimately show ?thesis using assms(1) Some c
    by (auto simp: basic_credentials_def basic_proxy_auth_def user_of_def codec_ok_def simp del: as_bytes_append)
qed

lemma lower_capitals: "char_of (104 :: nat) = CHR ''h''" "char_of (112 :: nat) = CHR ''p''" "char_of (97 :: nat) = CHR ''a''"
  by code_simp+

lemma connect_header_lines:
  "lower_starts ''host:'' (''Host: '' @ t)" "\<not> lower_starts ''proxy-authorization:'' (''Host: '' @ t)"
  "lower_starts ''proxy-authorization:'' (''Proxy-Authorization: '' @ t)"
  "\<not> lower_starts ''host:'' (''User-Agent: '' @ t)" "\<not> lower_starts ''proxy-authorization:'' (''User-Agent: '' @ t)" "\<not> lower_starts ''gost-target:'' (''User-Agent: '' @ t)"
  "\<not> lower_starts ''host:'' (''Proxy-Connection: '' @ t)" "\<not> lower_starts ''proxy-authorization:'' (''Proxy-Connection: '' @ t)"
  "\<not> lower_starts ''gost-target:'' (''Proxy-Connection: '' @ t)"
  by (simp_all add: lower_starts_def to_ascii_lower_char_def lower_capitals)

lemma plain_prefixed: "list_all graphic t \<Longrightarrow> t \<noteq> [] \<Longrightarrow> ascii s \<Longrightarrow> CHR 0x0A \<notin> set s \<Longrightarrow> s \<noteq> [] \<Longrightarrow> graphic (hd s) \<Longrightarrow> plain_header (s @ t)"
  by (auto simp: plain_header_def list_all_iff graphic_ascii [unfolded list_all_iff] graphic_def)

lemma connect_headers_plain:
  assumes "codec_ok B" "list_all graphic target" "target \<noteq> []"
  shows "list_all plain_header (connect_headers (b64_encode B) target user)"
proof -
  have a: "list_all graphic DEFAULT_USER_AGENT" "DEFAULT_USER_AGENT \<noteq> []" "list_all graphic ''keep-alive''" "''keep-alive'' \<noteq> []"
    by (simp_all add: DEFAULT_USER_AGENT_def graphic_def)
  have "plain_header (''Host: '' @ target)" "plain_header (''User-Agent: '' @ DEFAULT_USER_AGENT)"
    "plain_header (''Proxy-Connection: '' @ ''keep-alive'')"
    by (rule plain_prefixed [OF assms(2,3)] plain_prefixed [OF a(1,2)] plain_prefixed [OF a(3,4)]; simp add: ascii_def byte_in_def graphic_def)+
  moreover have "plain_header (''Proxy-Authorization: Basic '' @ creds)" if "basic_credentials (b64_encode B) user = Some creds" for creds
    using that assms(1)
    by (intro plain_prefixed) (auto simp: codec_ok_def basic_credentials_def ascii_def byte_in_def graphic_def as_bytes_def split: option.splits)
  ultimately show ?thesis by (simp add: connect_headers_def split: option.splits)
qed

lemma connect_head:
  assumes "codec_ok B" "list_all graphic target" "target \<noteq> []"
  shows "foldl (\<lambda>h s. http_header_line s h) \<lparr>hh_headers = [], hh_proxy_auth = [], hh_host = [], hh_gost_target = []\<rparr>
      (connect_headers (b64_encode B) target user) =
    \<lparr>hh_headers = connect_headers (b64_encode B) target user,
     hh_proxy_auth = (case basic_credentials (b64_encode B) user of Some creds \<Rightarrow> ''Basic '' @ creds | None \<Rightarrow> []),
     hh_host = target, hh_gost_target = []\<rparr>"
proof -
  have sp: "trim (CHR '' '' # s) = trim s" for s
  proof -
    have "trim_start (CHR '' '' # s) = trim_start s" unfolding trim_start_def by (subst trim_with.simps) (simp add: ws_enc_def)
    then show ?thesis by (simp add: trim_def)
  qed
  have tt: "trim target = target" using assms(2) by simp
  have tc: "trim (''Basic '' @ creds) = ''Basic '' @ creds" if "basic_credentials (b64_encode B) user = Some creds" for creds
  proof (rule trim_ends_graphic)
    have "list_all graphic creds \<and> creds \<noteq> []" using that assms(1)
      by (auto simp: codec_ok_def basic_credentials_def as_bytes_def split: option.splits)
    then show "graphic (last (''Basic '' @ creds))" by (simp add: list_all_iff)
  qed (simp_all add: graphic_def)
  show ?thesis
  proof (cases "basic_credentials (b64_encode B) user")
    case None
    then show ?thesis using sp [of target] tt connect_header_lines [of "target"] connect_header_lines [of "DEFAULT_USER_AGENT"] connect_header_lines [of "''keep-alive''"]
      by (simp add: connect_headers_def http_header_line_def Let_def)
  next
    case (Some creds)
    then show ?thesis using sp [of target] sp [of "''Basic '' @ creds"] tt tc [OF Some] connect_header_lines [of "target"]
        connect_header_lines [of "DEFAULT_USER_AGENT"] connect_header_lines [of "''keep-alive''"] connect_header_lines [of "''Basic '' @ creds"]
      by (simp add: connect_headers_def http_header_line_def Let_def)
  qed
qed

lemma runs_connect_request:
  assumes "conn_at l (as_bytes (connect_request (b64_encode (hl_standard L)) target user) @ rest) out c"
    "codec_ok (hl_standard L)" "list_all graphic target" "target \<noteq> []"
    "\<And>buf c' h. reader_at l rest out buf c' \<Longrightarrow>
      hh_proxy_auth h = (case basic_credentials (b64_encode (hl_standard L)) user of Some creds \<Rightarrow> ''Basic '' @ creds | None \<Rightarrow> []) \<Longrightarrow>
      Q (Inr (Some \<lparr>rq_method = ''CONNECT'', rq_target = target, rq_head = h, rq_pipelined = buf\<rparr>)) c'"
  shows "runs (http_read_request L) c Q"
proof (rule runs_request [where m = "''CONNECT''" and t = target and ss = "connect_headers (b64_encode (hl_standard L)) target user"])
  show "conn_at l (as_bytes (''CONNECT'' @ '' '' @ target @ '' HTTP/1.1'' @ crlf) @
      as_bytes (head_lines (connect_headers (b64_encode (hl_standard L)) target user)) @ rest) out c"
    using assms(1) unfolding connect_request_lines .
  show "list_all plain_header (connect_headers (b64_encode (hl_standard L)) target user)"
    by (rule connect_headers_plain [OF assms(2-4)])
qed (use assms(3,4) in \<open>simp_all add: graphic_def connect_head [OF assms(2-4), folded empty_head_def] apply_gost_target_def assms(5)\<close>)

definition agent_fits :: "('r, 'n) handler_options \<Rightarrow> bool" where
  "agent_fits ho \<longleftrightarrow> list_all graphic (proxy_agent ho) \<and> length (proxy_agent ho) \<le> 4096"

abbreviation http_granted :: "('r, 'n) handler_options \<Rightarrow> bytes" where
  "http_granted ho \<equiv> as_bytes (http_answer ''200 Connection established'' ho)"

lemma str_find_skip:
  "CHR 0x0D \<notin> set a \<Longrightarrow> str_find (CHR 0x0D # p) (a @ s) = map_option (\<lambda>i. length a + i) (str_find (CHR 0x0D # p) s)"
proof (induction a)
  case Nil
  show ?case by (cases "str_find (CHR 0x0D # p) s") simp_all
next
  case (Cons x a)
  then show ?case by (cases "str_find (CHR 0x0D # p) s") auto
qed

lemma http_granted_accepts:
  assumes "agent_fits ho"
  shows "http_accepts (http_granted ho)"
proof -
  let ?s = "''HTTP/1.1 200 Connection established''" and ?a = "''Proxy-Agent: '' @ proxy_agent ho"
  let ?h = "?s @ crlf @ ?a @ crlf @ crlf"
  have g: "CHR 0x0D \<notin> set (proxy_agent ho)" "ascii (proxy_agent ho)" "length (proxy_agent ho) \<le> 4096"
    using assms graphic_ascii by (auto simp: agent_fits_def list_all_iff graphic_def)
  have h: "http_answer ''200 Connection established'' ho = ?h" by (simp add: http_answer_def)
  have cs: "CHR 0x0D \<notin> set ?s" "CHR 0x0D \<notin> set ?a" using g(1) by simp_all
  have 1: "str_find (crlf @ crlf) (?a @ crlf @ crlf) = Some (length ?a)"
    using str_find_skip [OF cs(2), of "CHR 0x0A # crlf" "crlf @ crlf"] by (simp add: crlf_def)
  have 2: "str_find (crlf @ crlf) (crlf @ ?a @ crlf @ crlf) = Some (2 + length ?a)"
    using 1 by (simp add: crlf_def)
  have 3: "str_find (crlf @ crlf) ?h = Some (length ?s + (2 + length ?a))"
    using str_find_skip [OF cs(1), of "CHR 0x0A # crlf" "crlf @ ?a @ crlf @ crlf"] 2 by (simp add: crlf_def)
  have hd: "head_ok (as_bytes ?h)" unfolding head_ok_def of_bytes_as_bytes 3 using g(3) by (simp add: crlf_def MEDIUM_BUFFER_SIZE_def)
  have fl: "first_line ?h = ?s" by (simp add: first_line_def crlf_def strip_cr_def)
  have ge: "list_all graphic ''HTTP/1.1''" "list_all graphic ''200''" by (simp_all add: graphic_def)
  have "split_ws [] ?s = ''HTTP/1.1'' # ''200'' # split_ws [] ''Connection established''"
    using split_ws_word(1) [OF ge(1), of "''200 Connection established''"] split_ws_word(1) [OF ge(2), of "''Connection established''"] by simp
  then have nw: "nth_word 1 ?s = ''200''" by (simp add: nth_word_def Let_def)
  have "ascii ?h" using g(2) by (simp add: ascii_def byte_in_def crlf_def)
  then have "from_utf8_lossy (as_bytes ?h) = ?h" by (intro from_utf8_lossy_as_bytes ascii_utf8)
  then show ?thesis unfolding h using hd by (simp only: http_accepts_def fl nw simp_thms)
qed

lemma hruns_send:
  assumes "conn_at k ys sent cc" "\<And>cc'. conn_at k ys (sent @ bs) cc' \<Longrightarrow> Q (Inr (Splice cc')) c w"
  shows "hruns (http_send bs cc) c w Q"
proof -
  have "runs (io_write id bs) cc (\<lambda>r cc'. r = Inr () \<and> conn_at k ys (sent @ bs) cc')" by (rule runs_write [OF assms(1)]) simp
  then obtain cc' where "conn_write_all bs cc = (Inr (), cc')" "conn_at k ys (sent @ bs) cc'"
    by (auto simp: runs_def io_write_def split: prod.splits sum.splits)
  then show ?thesis using assms(2) by (simp add: http_send_def hruns_ok)
qed

lemma hruns_pipelined:
  assumes "conn_at k ys sent cc" "\<And>cc'. conn_at k ys (sent @ bs) cc' \<Longrightarrow> Q (Inr (Splice cc')) c w"
  shows "hruns (if bs \<noteq> [] then http_send bs cc else hio_ok (Splice cc)) c w Q"
proof (cases "bs = []")
  case False
  then show ?thesis using hruns_send [OF assms(1), of bs Q] assms(2) by simp
qed (use assms in \<open>simp add: hruns_ok\<close>)

lemma hruns_http_write:
  assumes "conn_at l ys out c" "\<And>c'. conn_at l ys (out @ as_bytes s) c' \<Longrightarrow> hruns (f ()) c' w Q"
  shows "hruns (hio_bind (http_write s) f) c w Q"
  unfolding http_write_def by (intro hruns_bind hruns_io runs_write [OF assms(1)]) (use assms(2) in simp)

text \<open>Serving an admitted request, of either kind: what the client and the origin are sent.\<close>

lemma hruns_serve:
  assumes "allowed ho ''tcp'' (http_host L rq)" "\<not> bypassed (ht_libs H) ho (http_host L rq)"
    "basic_proxy_auth (hl_standard L) (hh_proxy_auth (rq_head rq)) = (u, p, ok)" "http_authenticate ho u p"
    "http_dial H ho (http_host L rq) w = (Inr cc, w')" "conn_at k ys sent cc" "conn_at l zs out c"
    "\<And>c' cc'. conn_at l zs (if rq_method rq = ''CONNECT'' then out @ http_granted ho else out) c' \<Longrightarrow>
      conn_at k ys (sent @ (if rq_method rq = ''CONNECT'' then [] else as_bytes (forward_head L rq)) @ rq_pipelined rq) cc' \<Longrightarrow>
      Q (Inr (Splice cc')) c' w'"
  shows "hruns (http_serve L H ho rq) c w Q"
proof -
  have r: "hruns (http_relay L ho rq cc) c w' Q"
  proof (cases "rq_method rq = ''CONNECT''")
    case True
    show ?thesis unfolding http_relay_def if_P [OF True]
      by (rule hruns_http_write [OF assms(7)], rule hruns_pipelined [OF assms(6)]) (use assms(8) True in simp)
  next
    case False
    have "hruns (hio_bind (http_send (as_bytes (forward_head L rq)) cc) (\<lambda>s. case s of
            Splice cc \<Rightarrow> if rq_pipelined rq \<noteq> [] then http_send (rq_pipelined rq) cc else hio_ok (Splice cc) | s \<Rightarrow> hio_ok s)) c w' Q"
      by (rule hruns_bind, rule hruns_send [OF assms(6)], unfold sum.case service.case, erule hruns_pipelined) (use assms(7,8) False in simp)
    then show ?thesis unfolding http_relay_def if_not_P [OF False] .
  qed
  show ?thesis unfolding http_serve_def Let_def assms(3) prod.case using assms(1,2,4)
    by (simp del: append.simps) (intro hruns_bind hruns_net, simp add: assms(5) r)
qed

section \<open>Properties\<close>

lemma http_handle_connect:
  assumes "codec_ok (hl_standard L)" "list_all graphic target" "target \<noteq> []" "user_fits user"
    "http_authenticate ho (fst (user_of user)) (snd (user_of user))" "allowed ho ''tcp'' target" "\<not> bypassed (ht_libs H) ho target"
    "http_dial H ho target w = (Inr cc, w')" "conn_at k ys sent cc"
    "conn_at l (as_bytes (connect_request (b64_encode (hl_standard L)) target user) @ rest) [] c"
  shows "\<exists>p q c' cc'. rest = p @ q \<and> http_handle L H ho c w = (Inr (Splice cc'), c', w') \<and>
    conn_at l q (http_granted ho) c' \<and> conn_at k ys (sent @ p) cc'"
proof -
  let ?Q = "\<lambda>r c' v. \<exists>p q cc'. rest = p @ q \<and> r = Inr (Splice cc') \<and> conn_at l q (http_granted ho) c' \<and> conn_at k ys (sent @ p) cc' \<and> v = w'"
  obtain ok where auth: "basic_proxy_auth (hl_standard L) (case basic_credentials (b64_encode (hl_standard L)) user of
      Some creds \<Rightarrow> ''Basic '' @ creds | None \<Rightarrow> []) = (fst (user_of user), snd (user_of user), ok)"
    using connect_auth [OF assms(1,4)] by blast
  have serve: "hruns (http_serve L H ho \<lparr>rq_method = ''CONNECT'', rq_target = target, rq_head = h, rq_pipelined = buf\<rparr>) c1 w ?Q"
    if at: "reader_at l rest [] buf c1" and
      h: "hh_proxy_auth h = (case basic_credentials (b64_encode (hl_standard L)) user of Some creds \<Rightarrow> ''Basic '' @ creds | None \<Rightarrow> [])" for buf c1 h
  proof -
    obtain q where q: "rest = buf @ q" "conn_at l q [] c1" using at by (auto simp: reader_at_def)
    let ?rq = "\<lparr>rq_method = ''CONNECT'', rq_target = target, rq_head = h, rq_pipelined = buf\<rparr>"
    have t: "http_host L ?rq = target" by (simp add: http_host_def)
    have a: "basic_proxy_auth (hl_standard L) (hh_proxy_auth (rq_head ?rq)) = (fst (user_of user), snd (user_of user), ok)"
      using auth h by simp
    show ?thesis
      by (rule hruns_serve [where rq = ?rq and L = L, unfolded t, OF assms(6,7) a assms(5,8,9) q(2)]) (use q(1) in auto)
  qed
  have "hruns (http_handle L H ho) c w ?Q" unfolding http_handle_def
    by (intro hruns_bind hruns_io runs_connect_request [OF assms(10,1-3)]) (use serve in simp)
  then show ?thesis by (auto simp: hruns_def split: prod.splits)
qed

text \<open>Libraries that know no URL and reach no decoy, and one user's requests.\<close>

definition demo_http :: http_libs where
  "demo_http =
     \<lparr>hl_standard = demo_b64, hl_url_safe = demo_b64, hl_url = (\<lambda>_. Inl ''relative URL without a base''), hl_now_unix = (\<lambda>_. 0),
      hl_read_file = (\<lambda>_ _. Inl (IoError NotFound [])), hl_connect = (\<lambda>_ _. Inl (IoError Other [])),
      hl_connect_pair = (\<lambda>_ _ _. Inl (IoError Other [])), hl_debug = show_chain_error\<rparr>"

abbreviation demo_user :: credentials where
  "demo_user \<equiv> Some (''ann'', Some ''pw'')"

abbreviation demo_site :: string where
  "demo_site \<equiv> ''example.org:443''"

lemma demo_codec_ok: "codec_ok demo_b64"
proof -
  have "graphic (hex_char d)" if "d < 16" for d
  proof -
    have "d \<in> set [0..<16]" using that by simp
    then show ?thesis by (auto simp: hex_char_def upt_rec graphic_def)
  qed
  moreover have "unat b div 16 < 16" for b :: u8
    using unsigned_less [of b, where ?'a = nat] by simp
  ultimately have "list_all graphic (hex_encode bs)" for bs by (induction bs) (simp_all add: hex_encode_def)
  moreover have "hex_encode bs \<noteq> []" if "bs \<noteq> []" for bs using that length_hex_encode [of bs] by (metis length_greater_0_conv mult_pos_pos zero_less_numeral)
  ultimately show ?thesis by (simp add: codec_ok_def demo_b64_def hex_decode_encode)
qed

lemma demo_http_facts:
  "list_all graphic demo_site" "demo_site \<noteq> []" "user_fits demo_user" "agent_fits demo_options"
  "http_authenticate demo_options (fst (user_of demo_user)) (snd (user_of demo_user))"
  "http_dial demo_host demo_options demo_site demo_world = (Inr (from_tcp (demo_tcp [])), logged (TcpConnect demo_site) demo_world)"
proof -
  have "dial_tries (chain_dial (ht_net demo_host) (the_chain demo_options) demo_site) 1 EmptyChain demo_world =
      (Inr (from_tcp (demo_tcp [])), logged (TcpConnect demo_site) demo_world)"
    by (rule dial_tries_ok) (simp_all add: demo_chain_dial)
  then show "http_dial demo_host demo_options demo_site demo_world = (Inr (from_tcp (demo_tcp [])), logged (TcpConnect demo_site) demo_world)"
    by (simp add: http_dial_def demo_options_def)
qed (simp_all add: graphic_def user_fits_def user_of_def or_empty_def byte_in_def agent_fits_def proxy_agent_def demo_options_def
      DEFAULT_PROXY_AGENT_def http_authenticate_def)

text \<open>A plain request with the headers of the connector, read.\<close>

definition demo_get :: bytes where
  "demo_get = as_bytes (''GET'' @ '' '' @ ''/page'' @ '' HTTP/1.1'' @ crlf) @ as_bytes (head_lines (connect_headers hex_encode demo_site demo_user)) @ [7, 8]"

lemma demo_get_read:
  "\<exists>rq c\<^sub>1. http_read_request demo_http (demo_conn demo_get) = (Inr (Some rq), c\<^sub>1) \<and> rq_method rq = ''GET'' \<and> http_host demo_http rq = demo_site \<and>
     (\<exists>ok. basic_proxy_auth demo_b64 (hh_proxy_auth (rq_head rq)) = (''ann'', ''pw'', ok))"
proof -
  have e: "b64_encode demo_b64 = hex_encode" by (simp add: demo_b64_def)
  note f = demo_codec_ok demo_http_facts(1,2)
  have "runs (http_read_request demo_http) (demo_conn demo_get) (\<lambda>r c'. \<exists>rq. r = Inr (Some rq) \<and> rq_method rq = ''GET'' \<and>
      http_host demo_http rq = demo_site \<and> (\<exists>ok. basic_proxy_auth demo_b64 (hh_proxy_auth (rq_head rq)) = (''ann'', ''pw'', ok)))"
    unfolding demo_get_def
  proof (rule runs_request [OF demo_conn_at], goal_cases)
    case 5
    show ?case using connect_headers_plain [OF f, of demo_user] by (simp add: e)
  next
    case (6 buf c')
    obtain ok where ok: "basic_proxy_auth demo_b64 (case basic_credentials hex_encode demo_user of Some creds \<Rightarrow> ''Basic '' @ creds | None \<Rightarrow> []) = (''ann'', ''pw'', ok)"
      using connect_auth [OF demo_codec_ok demo_http_facts(3)] by (auto simp: e user_of_def or_empty_def)
    show ?case using ok connect_head [OF f, of demo_user]
      by (auto simp: e empty_head_def apply_gost_target_def http_host_def demo_http_def)
  qed (simp_all add: graphic_def)
  then show ?thesis by (auto simp: runs_def prod_eq_iff)
qed

text \<open>C14. The HTTP connector of a chain and this handler agree: the request of the connector is granted, the
  handler dials exactly the requested target, what it answers is what the connector takes for
  success, and every byte after the request is passed on, those the header reader had already
  buffered included.\<close>

theorem http_hop_agrees:
  assumes "nd_protocol n = ''http'' \<or> nd_protocol n = []" "b64 = b64_encode (hl_standard L)" "codec_ok (hl_standard L)" "agent_fits ho"
    "list_all graphic target" "target \<noteq> []" "user_fits (nd_user n)"
    "http_authenticate ho (fst (user_of (nd_user n))) (snd (user_of (nd_user n)))" "allowed ho ''tcp'' target"
    "\<not> bypassed (ht_libs H) ho target" "http_dial H ho target w = (Inr cc, w')" "conn_at k ys sent cc"
    "conn_at l (as_bytes (connect_request b64 target (nd_user n)) @ rest) [] c"
  shows "hop_dialogue b64 n target (as_bytes (connect_request b64 target (nd_user n))) (http_granted ho) \<and>
    (\<exists>p q c' cc'. rest = p @ q \<and> http_handle L H ho c w = (Inr (Splice cc'), c', w') \<and>
      conn_at l q (http_granted ho) c' \<and> conn_at k ys (sent @ p) cc')"
  using hop_dialogue.http [OF assms(1) http_granted_accepts [OF assms(4)]]
    http_handle_connect [OF assms(3,5-12) assms(13) [unfolded assms(2)]] by blast

theorem http_hop_agrees_witness:
  "\<exists>p q c' cc'. [7, 8] = p @ q \<and>
     http_handle demo_http demo_host demo_options (demo_conn (as_bytes (connect_request hex_encode demo_site demo_user) @ [7, 8])) demo_world =
       (Inr (Splice cc'), c', logged (TcpConnect demo_site) demo_world) \<and>
     conn_at None q (http_granted demo_options) c' \<and> conn_at None [] p cc'"
proof -
  let ?n = "(demo_node ''http'' ''p:8080'')\<lparr>nd_user := demo_user\<rparr>"
  have n: "nd_user ?n = demo_user" "nd_protocol ?n = ''http'' \<or> nd_protocol ?n = []" by (simp_all add: demo_node_def)
  have l: "hl_standard demo_http = demo_b64" "hex_encode = b64_encode demo_b64" by (simp_all add: demo_http_def demo_b64_def)
  from conjunct2 [OF http_hop_agrees [OF n(2) l(2) [folded l(1)] demo_codec_ok [folded l(1)] demo_http_facts(4,1,2), unfolded n(1),
      OF demo_http_facts(3,5) demo_allowed demo_http_facts(6) demo_tcp_at demo_conn_at, of "[7, 8]"]]
  show ?thesis by simp
qed

text \<open>C13. Nothing is dialled through the HTTP proxy for a client that is not entitled to it: when the handler
  contacts anything or goes over to copying, it has read a whole request for a target the access
  and bypass rules allow; and either the credentials in it are accepted, and the target is what was
  dialled, or probe resistance is configured, and the one thing contacted is its decoy.\<close>

theorem http_auth_gate:
  assumes "http_handle L H ho c w = (r, c', w')" "conn_ok c" "wd_log w' \<noteq> wd_log w \<or> (\<exists>cc. r = Inr (Splice cc))"
  shows "\<exists>rq c\<^sub>1 head target u p ok. http_read_request L c = (Inr (Some rq), c\<^sub>1) \<and> content c = head @ rq_pipelined rq @ content c\<^sub>1 \<and>
    target = http_host L rq \<and> allowed ho ''tcp'' target \<and> \<not> bypassed (ht_libs H) ho target \<and>
    basic_proxy_auth (hl_standard L) (hh_proxy_auth (rq_head rq)) = (u, p, ok) \<and>
    (if http_authenticate ho u p then w' = snd (http_dial H ho target w)
     else \<exists>addr. decoy_of L ho addr \<and> wd_log w' = wd_log w @ [TcpConnect addr])"
proof -
  obtain rq c\<^sub>1 where r: "http_read_request L c = (Inr (Some rq), c\<^sub>1)" "http_serve L H ho rq c\<^sub>1 w = (r, c', w')"
    using http_handle_cases [OF assms(1,3)] by blast
  obtain u p ok where a: "basic_proxy_auth (hl_standard L) (hh_proxy_auth (rq_head rq)) = (u, p, ok)" by (metis prod_cases3)
  from http_read_took(1) [OF r(1) assms(2)] r(1) a http_serve_gate [OF r(2) assms(3) a] show ?thesis by blast
qed

theorem http_auth_gate_witness:
  "\<exists>rq c\<^sub>1 target u p ok. http_read_request demo_http (demo_conn demo_get) = (Inr (Some rq), c\<^sub>1) \<and> target = http_host demo_http rq \<and>
     basic_proxy_auth demo_b64 (hh_proxy_auth (rq_head rq)) = (u, p, ok) \<and> u = ''ann'' \<and> p = ''pw'' \<and>
     snd (snd (http_handle demo_http demo_host demo_options (demo_conn demo_get) demo_world)) =
       snd (http_dial demo_host demo_options target demo_world)"
proof -
  obtain rq c\<^sub>1 ok where rq: "http_read_request demo_http (demo_conn demo_get) = (Inr (Some rq), c\<^sub>1)" "http_host demo_http rq = demo_site"
    "basic_proxy_auth demo_b64 (hh_proxy_auth (rq_head rq)) = (''ann'', ''pw'', ok)" "rq_method rq = ''GET''" using demo_get_read by blast
  have l: "hl_standard demo_http = demo_b64" by (simp add: demo_http_def)
  have a: "http_authenticate demo_options ''ann'' ''pw''" using demo_http_facts(5) by (simp add: user_of_def or_empty_def)
  obtain r c' w' where h: "http_handle demo_http demo_host demo_options (demo_conn demo_get) demo_world = (r, c', w')" by (metis prod_cases3)
  have ck: "conn_ok (demo_conn demo_get)" using demo_conn_at by (simp add: conn_at_def)
  note at = same_conn_at [OF http_read_took(2) [OF rq(1) ck] demo_conn_at]
  have "hruns (http_serve demo_http demo_host demo_options rq) c\<^sub>1 demo_world (\<lambda>r c' w'. \<exists>cc. r = Inr (Splice cc))"
    by (rule hruns_serve [where L = demo_http and rq = rq, unfolded rq(2) l, OF demo_allowed rq(3) a demo_http_facts(6) demo_tcp_at at]) auto
  then have sp: "\<exists>cc. r = Inr (Splice cc)" using h rq(1) by (auto simp: hruns_def http_handle_def hio_bind_def hio_io_def split: prod.splits)
  from http_auth_gate [OF h ck disjI2 [OF sp]] rq a h show ?thesis by (auto simp: l)
qed



text \<open>C35. Probe resistance does not hide the proxy: a request for a target the access rules refuse is answered
  with the status 403 and the name of the proxy before any credentials are looked at, whatever
  probe resistance is configured.\<close>

theorem http_probe_reveals_proxy:
  assumes "conn_at l zs out c" "http_read_request L c = (Inr (Some rq), c\<^sub>1)" "\<not> allowed ho ''tcp'' (http_host L rq)"
  shows "\<exists>c' rest. http_handle L H (ho\<lparr>ho_authenticator := Some A, ho_probe_resist := spec\<rparr>) c w = (Inr Finished, c', w) \<and>
    conn_at l rest (out @ as_bytes (''HTTP/1.1 403 Forbidden'' @ crlf @ ''Proxy-Agent: '' @ proxy_agent ho @ crlf @ crlf)) c'"
proof -
  let ?ho = "ho\<lparr>ho_authenticator := Some A, ho_probe_resist := spec\<rparr>"
  have ok: "conn_ok c" using assms(1) by (simp add: conn_at_def)
  have s: "same_conn c c\<^sub>1" by (rule http_read_took(2) [OF assms(2) ok])
  note at = same_conn_at [OF s assms(1)]
  have n: "\<not> allowed ?ho ''tcp'' (http_host L rq)" using assms(3) by (simp add: allowed_def)
  have "hruns (hio_bind (http_write (http_answer ''403 Forbidden'' ?ho)) (\<lambda>_. hio_ok Finished)) c\<^sub>1 w
      (\<lambda>r c' v. r = Inr Finished \<and> conn_at l (content c\<^sub>1) (out @ as_bytes (http_answer ''403 Forbidden'' ?ho)) c' \<and> v = w)"
    by (rule hruns_http_write [OF at]) (simp add: hruns_ok)
  then show ?thesis using assms(2) n
    by (auto simp: hruns_def http_handle_def http_serve_def hio_bind_def hio_io_def Let_def http_answer_def proxy_agent_def split: prod.splits)
qed

theorem http_probe_reveals_proxy_witness:
  "\<exists>c' rest. http_handle demo_http demo_host (demo_options\<lparr>ho_whitelist := Some [], ho_authenticator := Some (\<lambda>_ _. False), ho_probe_resist := ''code:404''\<rparr>)
       (demo_conn demo_get) demo_world = (Inr Finished, c', demo_world) \<and>
     conn_at None rest (as_bytes (''HTTP/1.1 403 Forbidden'' @ crlf @ ''Proxy-Agent: rt/2.1.0'' @ crlf @ crlf)) c'"
proof -
  obtain rq c\<^sub>1 where rq: "http_read_request demo_http (demo_conn demo_get) = (Inr (Some rq), c\<^sub>1)" using demo_get_read by blast
  let ?ho = "demo_options\<lparr>ho_whitelist := Some []\<rparr>"
  have n: "\<not> allowed ?ho ''tcp'' (http_host demo_http rq)"
    by (simp add: allowed_def Can_def permissions_can_def Let_def split: sum.splits prod.splits option.splits)
  have "proxy_agent ?ho = ''rt/2.1.0''" by (simp add: proxy_agent_def demo_options_def DEFAULT_PROXY_AGENT_def)
  with http_probe_reveals_proxy [OF demo_conn_at rq n, where H = demo_host and A = "\<lambda>_ _. False" and spec = "''code:404''" and w = demo_world] show ?thesis by simp
qed

end
