(* ===== verification/Spec2Isabelle.thy ===== *)
theory Spec2Isabelle
  imports MuxCredit UdpPump Socks5Udp Socks4 Resolver RelayServer SniProxy HttpServer
begin

text \<open>
  A model of the proxy \<^verbatim>\<open>rt\<close> (Rust, \<^verbatim>\<open>src/src\<close>) and proofs about it.

  \<^bold>\<open>The program.\<close> \<^verbatim>\<open>rt\<close> listens for clients, speaks a proxy protocol with each (SOCKS4, SOCKS5, HTTP and
  others), decides whether the request is allowed, and connects it to its target, directly or
  through a chain of other proxies. Around that core are: access rules (\<^verbatim>\<open>permissions.rs\<close>), user
  secrets (\<^verbatim>\<open>auth.rs\<close>), bypass rules and a hosts table that can be reloaded while running
  (\<^verbatim>\<open>bypass.rs\<close>, \<^verbatim>\<open>hosts.rs\<close>, \<^verbatim>\<open>reload.rs\<close>), a DNS resolver (\<^verbatim>\<open>resolver.rs\<close>), the description and the
  selection of proxy nodes (\<^verbatim>\<open>node.rs\<close>, \<^verbatim>\<open>selector.rs\<close>), and the smux multiplexer that carries many
  streams over one connection (\<^verbatim>\<open>mux.rs\<close>).

  \<^bold>\<open>The theories, in the order of their imports.\<close>
  \<^item> \<open>Prelude\<close> and \<open>RustStr\<close>: word, list and map lemmas; Rust's string functions (\<^verbatim>\<open>split\<close>, \<^verbatim>\<open>trim\<close>, \<^verbatim>\<open>find\<close>,
    \<^verbatim>\<open>parse\<close>) on character lists.
  \<^item> \<open>Permissions\<close> (\<^verbatim>\<open>permissions.rs\<close>): port ranges, action and host patterns, parsing and rendering, the glob
    matcher and the decision \<open>Can\<close>; the decision is shown equal to a declarative reading of the
    rules and the matcher to an inductive definition of globs.
  \<^item> \<open>MuxFrame\<close>, \<open>MuxQueue\<close>, \<open>MuxStream\<close>, \<open>MuxSession\<close>, \<open>MuxReceive\<close>, \<open>MuxSystem\<close>, \<open>MuxCredit\<close> (\<^verbatim>\<open>mux.rs\<close>): the frame
    codec and its decoder, the write queue with its flush tickets, the receive buffer of a
    stream, the session with its tables, the receiving loop, the whole session as a step relation
    over interleaved operations, and the accounting of the receive budget. Shown: delivery of what
    was written in order and unmodified, the flush guarantee, that no sleeping writer or reader
    is forgotten, that a failed session answers rather than waits, and that credit is conserved.
    Two properties show where the protocol stalls or loses credit.
  \<^item> \<open>Reload\<close>, \<open>F64\<close>, \<open>Auth\<close>, \<open>ConfigLine\<close>, \<open>IpAddr\<close>, \<open>Bypass\<close>, \<open>Hosts\<close>: the reload loop (a locale that the four reloadable
    tables interpret), Go durations over an exact model of the \<^verbatim>\<open>f64\<close> operations used, the
    configuration lines, IP addresses and networks as text, and the three tables: what a
    configuration file means and that a reload follows it.
  \<^item> \<open>Node\<close>, \<open>Selector\<close> (\<^verbatim>\<open>node.rs\<close>, \<^verbatim>\<open>selector.rs\<close>): parsing a node, failure markers, filters and strategies.
  \<^item> \<open>NetAddr\<close>, \<open>Conn\<close>, \<open>ConnIO\<close> (\<^verbatim>\<open>conn.rs\<close> and the addresses of \<^verbatim>\<open>socks5.rs\<close> and \<^verbatim>\<open>chain.rs\<close>): a connection as the
    chunks that will arrive, in which sizes writes are accepted, and what was sent; push-back and
    exact reads; protocol code as functions on a connection with rules that execute it on known
    input whatever the chunking.
  \<^item> \<open>Socks5Wire\<close>, \<open>Socks5Tunnel\<close>, \<open>Socks5Client\<close>, \<open>Connectors\<close>, \<open>Chain\<close> (\<^verbatim>\<open>socks5.rs\<close>, \<^verbatim>\<open>chain.rs\<close>): the SOCKS5 encodings, UDP over
    a stream, the client side of HTTP CONNECT, SOCKS4 and SOCKS5, and dialling through hops. Shown:
    each hop is asked for the next one and the last for the target, the answers are consumed
    exactly, and a chain with hops is never bypassed by a direct connection.
  \<^item> \<open>UdpPump\<close> (\<^verbatim>\<open>chain.rs\<close>): datagrams of a chain, whose two tasks share a tunnel, and how they stall.
  \<^item> \<open>Handler\<close>, \<open>Socks5Server\<close>, \<open>Socks5Udp\<close>, \<open>Socks4\<close> (\<^verbatim>\<open>handler.rs\<close>, \<^verbatim>\<open>socks5.rs\<close>, \<^verbatim>\<open>socks4.rs\<close>): the server side: negotiation,
    authentication, CONNECT, BIND and UDP, the UDP relays, and the handler that guesses the
    protocol. Shown: nothing is dialled, bound or relayed for a client before it has
    authenticated, and the client side of this program and its server side agree.
  \<^item> \<open>Relay\<close>, \<open>RelayServer\<close> (\<^verbatim>\<open>relay.rs\<close>): the relay stream with its deferred handshake and its datagram framing as
    poll functions; the request with its features as the connector writes and the handler reads
    it, and the handler up to the point where it copies. Shown: datagrams keep their boundaries
    and their order, nothing is dialled without entitlement, both ends agree on names and IPv4
    addresses, and every IPv6 target is refused.
  \<^item> \<open>Sni\<close>, \<open>SniProxy\<close> (\<^verbatim>\<open>sni.rs\<close>): the rewriting of ClientHello records, the client wrapper and the handler that routes
    by the name in a record. Shown: a name hidden behind a decoy is recovered at the other end and
    the origin gets the client's own bytes; only allowed names are dialled; and which bytes of a
    client are lost.
  \<^item> \<open>HttpProxy\<close>, \<open>HttpServer\<close> (\<^verbatim>\<open>http_proxy.rs\<close>): the HTTP proxy handler: the buffered reader of the request head,
    private targets of SNI clients, the decision on a request, probe resistance, tunnels and
    forwarded requests. Shown: what is dialled and for whom, the agreement with the connector of a
    chain, that a request is forwarded whole, and that probe resistance does not hide the proxy.
  \<^item> \<open>DnsWire\<close>, \<open>DnsExchange\<close>, \<open>Resolver\<close> (\<^verbatim>\<open>resolver.rs\<close>): DNS messages with name compression, one exchange with a
    name server over UDP, TCP, TLS or HTTPS, and the resolver: cache, failover, the exchange on
    behalf of a client of the DNS proxy, configuration and reload. Shown: messages survive encoding, the decoder's
    budget only stops pointer loops, a server behind the chain is not asked directly (UDP apart), a cached reply is
    served exactly as long as it may be. Three properties show which replies are served wrongly.
  \<^item> This theory holds what spans components: the reload contract of the four tables, and the front door, where the
    handler that detects the protocol is put together with the SOCKS and HTTP handlers.

  \<^bold>\<open>Parameters.\<close> What the program asks of the operating system and of code outside \<^verbatim>\<open>src/src\<close> is an argument:
  the records \<open>net\<close> (connecting, looking up names, TLS, the transports that are not modelled) and
  \<open>host\<close> (listening, accepting, UDP sockets, TLS on the server), \<open>dns_net\<close> (\<open>net\<close> and the answers of name servers, the URL
  and HTTP parsers), \<open>resolver_env\<close> (the clock, and what other tasks do to the resolver while a lookup
  waits), the matchers of the bypass rules (\<open>bypass_libs\<close>), the base64 codecs, URL parser, clock, files and decoy servers of the
  HTTP handler (\<open>http_libs\<close>). Each call carries a running number, so that no two calls need agree. What was
  dialled or bound is kept in a log, about which the safety properties speak.

  \<^bold>\<open>Interfaces.\<close> Locales state what one part relies on in another: \<open>reloadable\<close> (a table the reload loop
  drives), \<open>stream_codec\<close> (a self-delimiting encoding, from which the decoder over a byte stream
  follows), \<open>byte_fifo\<close> (the receive buffer of a stream), \<open>byte_source\<close> (a source of bytes in chunks,
  interpreted for the raw stream and for the connection with push-back), \<open>node_strategy\<close> and
  \<open>node_filters\<close> (what a selector needs). Each is interpreted on the definitions of the model.

  \<^bold>\<open>Bounds.\<close> Loops of the code are structural recursions, functions with a termination measure, or
  recursions over the rounds the environment grants (the list of what arrives or is accepted).
  The loop over a DNS name carries the same budget as the code. Lengths and counters that are
  stored in machine words are words, so that wrap-around is part of the model; positions in
  buffers in memory are natural numbers.

  \<^bold>\<open>Not modelled.\<close> Code whose substance is an external library it configures or adapts: Shadowsocks ciphers, SSH,
  TLS, QUIC, HTTP/2, WebSocket frames. Own code that was left out for its size: the KCP
  transport, the obfuscation modes, the session pools over smux, the UDP listener and port forwarding;
  \<^verbatim>\<open>HttpConnector\<close>, which nothing in the program calls. Code that is mostly system calls: TUN/TAP, fake
  TCP, VSOCK, socket options, redirection, the accept loops of the DNS proxy, the command line and the set-up of
  listeners. Text is modelled as the bytes of its UTF-8 encoding. Panics on poisoned locks,
  memory exhaustion and the scheduling of the asynchronous runtime below the granularity of a
  critical section are outside the model.
\<close>

section \<open>Properties that span components\<close>

text \<open>C33. The four tables that can be reloaded live (secrets, bypass rules, hosts, name servers) behave alike: once
  stopped, the reload loop returns at its next round and leaves the table alone, and a reload
  that fails, for instance on a file that is not valid UTF-8, changes nothing.\<close>

theorem live_reload_contract:
  "reload_loop auth_reload auth_period (env\<^sub>a # envs\<^sub>a) t (auth_stop a) = (Returned (Inr ()), [], auth_stop a) \<and>
   reload_loop (bypass_reload L) bypass_period (env\<^sub>b # envs\<^sub>b) t (bypass_stop b) = (Returned (Inr ()), [], bypass_stop b) \<and>
   reload_loop hosts_reload hosts_period (env\<^sub>h # envs\<^sub>h) t (hosts_stop h) = (Returned (Inr ()), [], hosts_stop h) \<and>
   reload_loop resolver_reload resolver_period (env\<^sub>d # envs\<^sub>d) t (resolver_stop d) = (Returned (Inr ()), [], resolver_stop d) \<and>
   (case auth_reload r a of (Inl _, a') \<Rightarrow> a' = a | (Inr _, _) \<Rightarrow> True) \<and>
   (case bypass_reload L r b of (Inl _, b') \<Rightarrow> b' = b | (Inr _, _) \<Rightarrow> True) \<and>
   (case hosts_reload r h of (Inl _, h') \<Rightarrow> h' = h | (Inr _, _) \<Rightarrow> True) \<and>
   (case resolver_reload r d of (Inl _, d') \<Rightarrow> d' = d | (Inr _, _) \<Rightarrow> True)"
  using auth_reloads.loop_stopped [OF auth_reloads.stop_stops] bypass_reloads.loop_stopped [OF bypass_reloads.stop_stops]
    hosts_reloads.loop_stopped [OF hosts_reloads.stop_stops] resolver_reloads.loop_stopped [OF resolver_reloads.stop_stops]
  by (auto split: sum.splits dest: auth_reloads.reload_error bypass_reloads.reload_error hosts_reloads.reload_error
      resolver_reloads.reload_error)

text \<open>C3. The front door, over the three protocols it detects: when credentials are configured, a listener
  contacts something or goes over to copying only for a client that is not SOCKS4 and that
  presented accepted credentials, in the SOCKS5 negotiation or in the HTTP request; the one other
  thing an HTTP client can make it contact is the decoy of probe resistance.\<close>

theorem front_door_gate:
  assumes "ho_authenticator ho = Some A" "conn_ok c" "auto_handle H (http_handle L H) ho c w = (r, c', w')"
    and "wd_log w' \<noteq> wd_log w \<or> (\<exists>cc. r = Inr (Splice cc))"
  shows "\<exists>b tl. content c = b # tl \<and> b \<noteq> 0x04 \<and>
    (if b = 0x05
     then \<exists>methods rest bs v u p tail. content c = [SOCKS5_VERSION, usize_as_u8 (length methods)] @ methods @ rest \<and>
       session_bytes H (wd_tick w) methods rest bs \<and> bs = auth_message v u p @ tail \<and>
       A (from_utf8_lossy u) (from_utf8_lossy p)
     else \<exists>c\<^sub>1 c\<^sub>2 rq head u p ok. content c\<^sub>1 = content c \<and> http_read_request L c\<^sub>1 = (Inr (Some rq), c\<^sub>2) \<and>
       content c = head @ rq_pipelined rq @ content c\<^sub>2 \<and> allowed ho ''tcp'' (http_host L rq) \<and>
       basic_proxy_auth (hl_standard L) (hh_proxy_auth (rq_head rq)) = (u, p, ok) \<and>
       (if A u p then w' = snd (http_dial H ho (http_host L rq) w)
        else \<exists>addr. decoy_of L ho addr \<and> wd_log w' = wd_log w @ [TcpConnect addr]))"
  using assms(3) [unfolded auto_handle_def] assms(2)
proof (rule hio_peek_cases)
  fix e assume "r = Inl e" "w' = w"
  then show ?thesis using assms(4) by simp
next
  fix c1 assume c1: "conn_ok c1" "content c1 = content c"
    and h: "(if take 1 (content c) = [] then hio_err (HandlerIo (IoError UnexpectedEof ''connection closed''))
      else if take 1 (content c) ! 0 = 0x05 then socks5_handle H ho
      else if take 1 (content c) ! 0 = 0x04 then if requires_auth ho then hio_err AuthFailed else socks4_handle H ho
      else http_handle L H ho) c1 w = (r, c', w')"
  obtain b tl where b: "content c = b # tl" using h assms(4) by (cases "content c") (auto simp: hio_err_def)
  have "b \<noteq> 0x04" using h assms(1,4) b by (auto simp: hio_err_def requires_auth_def)
  consider (socks5) "b = 0x05" "socks5_handle H ho c1 w = (r, c', w')" | (http) "b \<noteq> 0x05" "http_handle L H ho c1 w = (r, c', w')"
    using h b \<open>b \<noteq> 0x04\<close> by (auto split: if_splits)
  then show ?thesis
  proof cases
    case socks5
    have "w' \<noteq> w \<or> (\<exists>s. r = Inr s)" using assms(4) by auto
    from socks5_gate [OF assms(1) c1(1) socks5(2) this] socks5(1) b \<open>b \<noteq> 0x04\<close> c1(2) show ?thesis by auto
  next
    case http
    obtain rq c2 where rq: "http_read_request L c1 = (Inr (Some rq), c2)" "http_serve L H ho rq c2 w = (r, c', w')"
      using http_handle_cases [OF http(2) assms(4)] by blast
    obtain u p ok where a: "basic_proxy_auth (hl_standard L) (hh_proxy_auth (rq_head rq)) = (u, p, ok)" by (metis prod_cases3)
    obtain head where z: "content c = head @ rq_pipelined rq @ content c2" using http_read_took(1) [OF rq(1) c1(1)] c1(2) by auto
    have n: "http_authenticate ho u p = A u p" using assms(1) by (simp add: http_authenticate_def)
    from http_serve_gate [OF rq(2) assms(4) a] rq(1) a z c1(2) n have
      "\<exists>c\<^sub>1 c\<^sub>2 rq head u p ok. content c\<^sub>1 = content c \<and> http_read_request L c\<^sub>1 = (Inr (Some rq), c\<^sub>2) \<and>
       content c = head @ rq_pipelined rq @ content c\<^sub>2 \<and> allowed ho ''tcp'' (http_host L rq) \<and>
       basic_proxy_auth (hl_standard L) (hh_proxy_auth (rq_head rq)) = (u, p, ok) \<and>
       (if A u p then w' = snd (http_dial H ho (http_host L rq) w)
        else \<exists>addr. decoy_of L ho addr \<and> wd_log w' = wd_log w @ [TcpConnect addr])" by metis
    with http(1) b \<open>b \<noteq> 0x04\<close> show ?thesis by simp
  qed
qed

theorem front_door_gate_witness:
  "\<exists>methods rest bs v u p tail.
     hop_request demo_options demo_hop ''example.org'' 443 = [SOCKS5_VERSION, usize_as_u8 (length methods)] @ methods @ rest \<and>
     session_bytes demo_host 0 methods rest bs \<and> bs = auth_message v u p @ tail \<and>
     from_utf8_lossy u = ''ann'' \<and> from_utf8_lossy p = ''pw''"
proof -
  let ?req = "hop_request demo_options demo_hop ''example.org'' 443"
  let ?c = "unread ?req (demo_conn [])"
  have at: "conn_at None (?req @ []) [] ?c" by (rule conn_at_unread [OF demo_conn_at])
  obtain t where t: "?req = 0x05 # t" by (simp add: hop_request_def greeting_def SOCKS5_VERSION_def)
  have "buffered ?c = 0x05 # t" by (simp add: t unread_def buffered_def demo_conn_def conn_new_def)
  then have pk: "peek 1 ?c = (Inr [0x05], ?c)" by (simp add: peek_def peek_fill.simps [of "Suc 0" ?c])
  obtain c' where "socks5_handle demo_host demo_options ?c demo_world =
      (Inr (Splice (from_tcp (demo_tcp []))), c', logged (TcpConnect ''example.org:443'') demo_world)"
    using socks5_handle_hop [OF demo_hop_facts(2,3) demo_target(2) _ _ _ at, of demo_host demo_world] demo_target demo_dial demo_allowed
    by auto
  with pk have h: "auto_handle demo_host (http_handle demo_http demo_host) demo_options ?c demo_world =
      (Inr (Splice (from_tcp (demo_tcp []))), c', logged (TcpConnect ''example.org:443'') demo_world)"
    by (simp add: auto_handle_def hio_bind_def hio_io_def io_peek_def)
  from front_door_gate [OF _ _ h, of "\<lambda>u p. u = ''ann'' \<and> p = ''pw''"] at t
  show ?thesis by (auto simp: conn_at_def demo_options_def demo_world_def)
qed

end
